(* ===== verification/Agent_Prelude.thy ===== *)
theory Agent_Prelude
  imports Main "HOL-Library.List_Lexorder" "HOL-Library.Char_ord" "HOL-Library.Multiset"
begin

text \<open>
  Shared vocabulary of the development: Go results (value, error, panic), the error values of
  the agent, Go maps as key-sorted association lists, and the generic lemmas on them.
  Go strings and byte slices are both \<open>string\<close> (\<open>char\<close> is a byte), ordered byte by byte, which
  is Go's string order and the key order of the database.
\<close>

named_theorems frame_simps \<open>what an operation leaves unchanged\<close>
named_theorems path_simps \<open>facts on the host paths of the elastic GPU links\<close>
named_theorems wf_intros \<open>well-formedness preservation\<close>

section \<open>Results and errors\<close>

text \<open>Error numbers of the system calls the agent makes.\<close>

datatype errno = ENOENT | EEXIST | ENOTEMPTY | EACCES | ELOOP | EROFS | ENOSPC | EIO | EINVAL

text \<open>
  The error values of the agent, one constructor for each place an error is made; the
  arguments are the data the message is formatted with.
\<close>

datatype err =
    EOs errno
  | EDbClosed | EKeyRequired | EKeyTooLarge | EValueTooLarge | EDbIO
  | ENoSuchKey string
  | EKeyFormat string
  | EValFormat
  | ENotFound
  | EApi
  | EDial
  | EList
  | ENoSuchPod
  | EDevicesEmpty
  | EEmptyDeviceList
  | ENoAnnotation string
  | ENotIndex string
  | ENvml string
  | ENoPlugin string
  | ECallback
  | ESpecVersion | ESpecProcess | ESpecRoot

text \<open>The outcome of a Go call: a value with a nil error, a non-nil error, or a panic.\<close>

datatype 'a res = Ok 'a | Fail err | Panic

section \<open>Go maps as key-sorted association lists\<close>

text \<open>
  A Go map, a database bucket and a directory tree are finite maps whose keys the code
  enumerates.  They are association lists, kept sorted by key so that equal maps are equal
  lists; lookup is \<open>map_of\<close>.
\<close>

type_synonym ('k, 'v) amap = "('k \<times> 'v) list"

definition amap_ok :: "('k::linorder, 'v) amap \<Rightarrow> bool" where
  "amap_ok m \<longleftrightarrow> sorted_wrt (<) (map fst m)"

fun amap_put :: "'k::linorder \<Rightarrow> 'v \<Rightarrow> ('k, 'v) amap \<Rightarrow> ('k, 'v) amap" where
  "amap_put k v [] = [(k, v)]"
| "amap_put k v (p # m) =
     (if k < fst p then (k, v) # p # m
      else if k = fst p then (k, v) # m
      else p # amap_put k v m)"

definition amap_del :: "'k \<Rightarrow> ('k, 'v) amap \<Rightarrow> ('k, 'v) amap" where
  "amap_del k m = filter (\<lambda>p. fst p \<noteq> k) m"

lemma amap_ok_Nil [simp]: "amap_ok []"
  by (simp add: amap_ok_def)

lemma amap_ok_Cons: "amap_ok (p # m) \<longleftrightarrow> (\<forall>q \<in> set m. fst p < fst q) \<and> amap_ok m"
  by (auto simp: amap_ok_def)

lemma amap_ok_distinct: "amap_ok m \<Longrightarrow> distinct (map fst m)"
  by (simp add: amap_ok_def strict_sorted_iff)

lemma amap_lookup_put [simp]: "map_of (amap_put k v m) = (map_of m)(k \<mapsto> v)"
  by (induction m) auto

lemma amap_lookup_del [simp]: "map_of (amap_del k m) = (map_of m)(k := None)"
  by (induction m) (auto simp: amap_del_def)

lemma amap_put_keys: "fst ` set (amap_put k v m) = insert k (fst ` set m)"
  by (induction m) auto

lemma amap_put_set: "set (amap_put k v m) \<subseteq> insert (k, v) (set m)"
  by (induction m) auto

lemma amap_ok_put [simp, intro, wf_intros]: "amap_ok m \<Longrightarrow> amap_ok (amap_put k v m)"
proof (induction m)
  case Nil
  then show ?case by (simp add: amap_ok_def)
next
  case (Cons p m)
  have "fst q = k \<or> fst q \<in> fst ` set m" if "q \<in> set (amap_put k v m)" for q
    using amap_put_keys [of k v m] that by (metis image_eqI insert_iff)
  then have "fst p < fst q" if "q \<in> set (amap_put k v m)" "fst p < k" for q
    using Cons.prems that by (fastforce simp: amap_ok_Cons)
  with Cons show ?case
    by (auto simp: amap_ok_Cons not_less order.strict_iff_order)
qed

lemma amap_ok_del [simp, intro, wf_intros]: "amap_ok m \<Longrightarrow> amap_ok (amap_del k m)"
  by (induction m) (auto simp: amap_del_def amap_ok_Cons)

lemma amap_del_put [simp]: "amap_del k (amap_put k v m) = amap_del k m"
  by (induction m) (auto simp: amap_del_def)

lemma amap_del_fresh: "map_of m k = None \<Longrightarrow> amap_del k m = m"
  by (induction m) (auto simp: amap_del_def split: if_splits)

lemma amap_del_commute: "amap_del k (amap_del k' m) = amap_del k' (amap_del k m)"
  by (simp add: amap_del_def conj_commute)

lemma amap_put_last: "(\<forall>q \<in> set m. fst q < k) \<Longrightarrow> amap_put k v m = m @ [(k, v)]"
  by (induction m) auto

text \<open>Two canonical maps with the same lookups are the same list.\<close>

lemma amap_ext:
  assumes "amap_ok m" and "amap_ok m'" and "map_of m = map_of m'"
  shows "m = m'"
proof (rule map_sorted_distinct_set_unique [where f = fst])
  show "set m = set m'"
    using assms amap_ok_distinct by (metis map_of_inject_set)
  then show "inj_on fst (set m \<union> set m')"
    using amap_ok_distinct [OF assms(1)] by (simp add: distinct_map)
  show "sorted (map fst m)" "distinct (map fst m)" "sorted (map fst m')" "distinct (map fst m')"
    using assms by (auto simp: amap_ok_def strict_sorted_iff)
qed

section \<open>Lists\<close>

lemma sorted_strict_mono_nth:
  "sorted_wrt (<) (xs :: 'a::order list) \<Longrightarrow> i < j \<Longrightarrow> j < length xs \<Longrightarrow> xs ! i < xs ! j"
  by (simp add: sorted_wrt_iff_nth_less)

lemma sort_eq_iff_mset: "sort xs = sort ys \<longleftrightarrow> mset xs = mset ys"
  by (metis mset_sort properties_for_sort sorted_sort)

lemma filter_mset_perm: "mset xs = mset ys \<Longrightarrow> mset (filter P xs) = mset (filter P ys)"
  by (simp add: mset_filter)

lemma set_map_filter_Some: "y \<in> set (List.map_filter f xs) \<longleftrightarrow> (\<exists>x \<in> set xs. f x = Some y)"
  by (force simp: List.map_filter_def)

end
