(* ===== verification/Go_Strings.thy ===== *)
theory Go_Strings
  imports Agent_Prelude
begin

text \<open>
  The functions of the Go standard library on strings that the agent uses: decimal
  formatting and parsing (\<open>%d\<close>, \<open>%02d\<close>, \<open>strconv.Itoa\<close>, \<open>strconv.Atoi\<close>), splitting and joining
  (\<open>strings.Split\<close>, \<open>strings.Join\<close>, \<open>strings.HasPrefix\<close>) and \<open>path.Clean\<close>/\<open>path.Join\<close>, with the
  laws the component proofs use.
\<close>

section \<open>Decimal numbers\<close>

definition digit_char :: "nat \<Rightarrow> char" where
  "digit_char d = char_of (48 + d)"

definition is_digit :: "char \<Rightarrow> bool" where
  "is_digit c \<longleftrightarrow> 48 \<le> (of_char c :: nat) \<and> (of_char c :: nat) \<le> 57"

definition digit_val :: "char \<Rightarrow> nat" where
  "digit_val c = of_char c - 48"

fun nat_dec :: "nat \<Rightarrow> string" where
  "nat_dec n = (if n < 10 then [digit_char n] else nat_dec (n div 10) @ [digit_char (n mod 10)])"

declare nat_dec.simps [simp del]

text \<open>\<open>strconv.Itoa\<close>, and \<open>%d\<close> of an \<open>int\<close>.\<close>

definition itoa :: "int \<Rightarrow> string" where
  "itoa i = (if i < 0 then CHR ''-'' # nat_dec (nat (- i)) else nat_dec (nat i))"

text \<open>\<open>%02d\<close> of an unsigned number.\<close>

definition fmt02d :: "nat \<Rightarrow> string" where
  "fmt02d n = (if n < 10 then CHR ''0'' # nat_dec n else nat_dec n)"

fun dec_acc :: "nat \<Rightarrow> string \<Rightarrow> nat option" where
  "dec_acc a [] = Some a"
| "dec_acc a (c # cs) = (if is_digit c then dec_acc (10 * a + digit_val c) cs else None)"

definition dec_nat :: "string \<Rightarrow> nat option" where
  "dec_nat s = (if s = [] then None else dec_acc 0 s)"

text \<open>
  \<open>strconv.Atoi\<close> on a 64-bit platform: an optional sign, at least one digit, nothing else,
  and the value in the range of \<open>int64\<close>.
\<close>

definition atoi :: "string \<Rightarrow> int option" where
  "atoi s =
     (let neg = (s \<noteq> [] \<and> hd s = CHR ''-'');
          body = (if s \<noteq> [] \<and> (hd s = CHR ''-'' \<or> hd s = CHR ''+'') then tl s else s)
      in case dec_nat body of
           None \<Rightarrow> None
         | Some n \<Rightarrow>
             if neg then (if n \<le> 2 ^ 63 then Some (- int n) else None)
             else (if n < 2 ^ 63 then Some (int n) else None))"

lemma of_char_digit_char: "d < 10 \<Longrightarrow> (of_char (digit_char d) :: nat) = 48 + d"
  by (simp add: digit_char_def)

lemma is_digit_digit_char [simp]: "d < 10 \<Longrightarrow> is_digit (digit_char d)"
  by (simp add: is_digit_def of_char_digit_char)

lemma digit_val_digit_char [simp]: "d < 10 \<Longrightarrow> digit_val (digit_char d) = d"
  by (simp add: digit_val_def of_char_digit_char)

lemma nat_dec_ne [simp]: "nat_dec n \<noteq> []"
  by (subst nat_dec.simps) simp

lemma nat_dec_digits: "c \<in> set (nat_dec n) \<Longrightarrow> is_digit c"
proof (induction n rule: nat_dec.induct)
  case (1 n)
  then show ?case
    by (subst (asm) (2) nat_dec.simps) (auto split: if_splits)
qed

lemma dec_acc_append:
  "(\<forall>c \<in> set xs. is_digit c) \<Longrightarrow>
   dec_acc a (xs @ ys) = dec_acc (the (dec_acc a xs)) ys"
  by (induction xs arbitrary: a) auto

lemma dec_acc_nat_dec: "dec_acc 0 (nat_dec n) = Some n"
proof (induction n rule: nat_dec.induct)
  case (1 n)
  show ?case
  proof (cases "n < 10")
    case True
    then show ?thesis by (subst nat_dec.simps) simp
  next
    case False
    have "dec_acc 0 (nat_dec n) = dec_acc 0 (nat_dec (n div 10) @ [digit_char (n mod 10)])"
      using False by (subst nat_dec.simps) simp
    also have "\<dots> = dec_acc (n div 10) [digit_char (n mod 10)]"
      using "1.IH" False by (subst dec_acc_append) (auto dest: nat_dec_digits)
    also have "\<dots> = Some n" by simp
    finally show ?thesis .
  qed
qed

lemma dec_nat_nat_dec [simp]: "dec_nat (nat_dec n) = Some n"
  by (simp add: dec_nat_def dec_acc_nat_dec)

lemma nat_dec_inj [simp]: "nat_dec m = nat_dec n \<longleftrightarrow> m = n"
  by (metis dec_nat_nat_dec option.inject)

lemma not_digit_chars [simp]:
  "\<not> is_digit CHR ''-''" "\<not> is_digit CHR ''/''" "\<not> is_digit CHR '',''" "\<not> is_digit CHR '':''"
  "\<not> is_digit CHR ''+''" "\<not> is_digit CHR ''.''"
  by (simp_all add: is_digit_def)

lemma nat_dec_hd_digit: "is_digit (hd (nat_dec n))"
  by (rule nat_dec_digits [of _ n]) simp

lemma nat_dec_notin [simp]: "\<not> is_digit c \<Longrightarrow> c \<notin> set (nat_dec n)"
  using nat_dec_digits by blast

lemma atoi_itoa: "- (2 ^ 63) \<le> i \<Longrightarrow> i < 2 ^ 63 \<Longrightarrow> atoi (itoa i) = Some i"
proof (cases "i < 0")
  case True
  moreover assume "- (2 ^ 63) \<le> i"
  ultimately show ?thesis by (simp add: itoa_def atoi_def)
next
  case False
  have "hd (nat_dec (nat i)) \<noteq> CHR ''-''" "hd (nat_dec (nat i)) \<noteq> CHR ''+''"
    using nat_dec_hd_digit [of "nat i"] not_digit_chars by metis+
  moreover assume "i < 2 ^ 63"
  ultimately show ?thesis using False by (simp add: itoa_def atoi_def Let_def)
qed

lemma itoa_inj [simp]: "itoa i = itoa j \<longleftrightarrow> i = j"
proof
  assume eq: "itoa i = itoa j"
  have "CHR ''-'' \<noteq> hd (nat_dec n)" for n
    using nat_dec_hd_digit [of n] not_digit_chars(1) by metis
  then have "\<And>m n. CHR ''-'' # m \<noteq> nat_dec n"
    by (metis list.sel(1))
  with eq show "i = j"
    by (auto simp: itoa_def split: if_splits)
      (metis \<open>\<And>n m. CHR ''-'' # m \<noteq> nat_dec n\<close>)
qed simp

lemma itoa_of_nat [simp]: "itoa (int n) = nat_dec n"
  by (simp add: itoa_def)

lemma itoa_chars: "c \<in> set (itoa i) \<Longrightarrow> is_digit c \<or> c = CHR ''-''"
  by (auto simp: itoa_def dest: nat_dec_digits split: if_splits)

lemma itoa_no_slash [simp]: "CHR ''/'' \<notin> set (itoa i)" "CHR '','' \<notin> set (itoa i)"
  using itoa_chars by fastforce+

lemma fmt02d_digits: "c \<in> set (fmt02d n) \<Longrightarrow> is_digit c"
  by (auto simp: fmt02d_def is_digit_def dest: nat_dec_digits [unfolded is_digit_def] split: if_splits)

lemma dec_nat_fmt02d [simp]: "dec_nat (fmt02d n) = Some n"
  using dec_acc_nat_dec [of n]
  by (simp add: fmt02d_def dec_nat_def is_digit_def digit_val_def)

lemma fmt02d_inj [simp]: "fmt02d m = fmt02d n \<longleftrightarrow> m = n"
  by (metis dec_nat_fmt02d option.inject)

section \<open>Splitting and joining\<close>

text \<open>\<open>strings.Split\<close> with a one-byte separator, \<open>strings.Join\<close>, \<open>strings.HasPrefix\<close>.\<close>

fun split_on :: "char \<Rightarrow> string \<Rightarrow> string list" where
  "split_on c [] = [[]]"
| "split_on c (x # xs) =
     (if x = c then [] # split_on c xs
      else case split_on c xs of [] \<Rightarrow> [[x]] | y # ys \<Rightarrow> (x # y) # ys)"

fun join :: "'a list \<Rightarrow> 'a list list \<Rightarrow> 'a list" where
  "join sep [] = []"
| "join sep [x] = x"
| "join sep (x # y # zs) = x @ sep @ join sep (y # zs)"

fun has_prefix :: "string \<Rightarrow> string \<Rightarrow> bool" where
  "has_prefix s [] \<longleftrightarrow> True"
| "has_prefix [] (p # ps) \<longleftrightarrow> False"
| "has_prefix (x # xs) (p # ps) \<longleftrightarrow> x = p \<and> has_prefix xs ps"

lemma split_on_ne [simp]: "split_on c s \<noteq> []"
  by (induction s) (auto split: list.splits)

lemma split_on_fresh: "c \<notin> set s \<Longrightarrow> split_on c s = [s]"
  by (induction s) auto

lemma split_on_append: "c \<notin> set s \<Longrightarrow> split_on c (s @ c # t) = s # split_on c t"
  by (induction s) auto

lemma split_on_elems: "x \<in> set (split_on c s) \<Longrightarrow> c \<notin> set x"
  by (induction s arbitrary: x) (auto split: if_splits list.splits)

lemma split_on_join:
  "xs \<noteq> [] \<Longrightarrow> \<forall>x \<in> set xs. c \<notin> set x \<Longrightarrow> split_on c (join [c] xs) = xs"
  by (induction "[c]" xs rule: join.induct) (simp_all add: split_on_fresh split_on_append)

lemma join_split_on [simp]: "join [c] (split_on c s) = s"
proof (induction s)
  case Nil
  then show ?case by simp
next
  case (Cons x s)
  obtain y ys where ys: "split_on c s = y # ys"
    by (cases "split_on c s") auto
  then show ?case using Cons by (cases ys) auto
qed

lemma has_prefix_append [simp]: "has_prefix (p @ s) p"
  by (induction p) auto

lemma has_prefix_iff: "has_prefix s p \<longleftrightarrow> (\<exists>r. s = p @ r)"
  by (induction s p rule: has_prefix.induct) auto

section \<open>Slash-separated paths\<close>

text \<open>
  \<open>path.Clean\<close>: empty and \<open>.\<close> elements are dropped, \<open>..\<close> removes the element before it (or is
  dropped at the root), the empty result is \<open>.\<close>.  The stack holds the kept elements, last first.
\<close>

definition clean_step :: "bool \<Rightarrow> string list \<Rightarrow> string \<Rightarrow> string list" where
  "clean_step rooted st e =
     (if e = [] \<or> e = ''.'' then st
      else if e = ''..'' then
        (case st of
           [] \<Rightarrow> if rooted then [] else [e]
         | x # xs \<Rightarrow> if x = ''..'' then e # st else xs)
      else e # st)"

definition path_clean :: "string \<Rightarrow> string" where
  "path_clean s =
     (if s = [] then ''.''
      else
        let rooted = (hd s = CHR ''/'');
            body = join ''/'' (rev (foldl (clean_step rooted) [] (split_on CHR ''/'' s)))
        in if rooted then CHR ''/'' # body else if body = [] then ''.'' else body)"

definition path_join :: "string list \<Rightarrow> string" where
  "path_join es =
     (case dropWhile (\<lambda>e. e = []) es of [] \<Rightarrow> [] | ds \<Rightarrow> path_clean (join ''/'' ds))"

text \<open>A plain path element: not empty, no slash, not \<open>.\<close> or \<open>..\<close>.\<close>

definition plain_elem :: "string \<Rightarrow> bool" where
  "plain_elem e \<longleftrightarrow> e \<noteq> [] \<and> CHR ''/'' \<notin> set e \<and> e \<noteq> ''.'' \<and> e \<noteq> ''..''"

lemma clean_step_plain [simp]: "plain_elem e \<Longrightarrow> clean_step r st e = e # st"
  by (auto simp: clean_step_def plain_elem_def)

lemma foldl_clean_plain:
  "\<forall>e \<in> set es. plain_elem e \<Longrightarrow> foldl (clean_step r) st es = rev es @ st"
  by (induction es arbitrary: st) auto

lemma path_join2:
  assumes "plain_elem a" and "plain_elem b"
  shows "path_join [a, b] = a @ ''/'' @ b"
proof -
  have ab: "a \<noteq> []" "CHR ''/'' \<notin> set a" "CHR ''/'' \<notin> set b" "hd a \<noteq> CHR ''/''"
    using assms by (auto simp: plain_elem_def dest: list.set_sel(1))
  have "split_on CHR ''/'' (a @ CHR ''/'' # b) = [a, b]"
    using ab by (simp add: split_on_append split_on_fresh)
  then show ?thesis
    using ab assms by (simp add: path_join_def path_clean_def Let_def hd_append)
qed

lemma length_join: "length (join sep xs) \<le> (\<Sum>x \<leftarrow> xs. length x + length sep)"
  by (induction xs rule: induct_list012) auto

end
