(* ===== verification/Host_Fs.thy ===== *)
theory Host_Fs
  imports Go_Strings
begin

text \<open>
  The file system calls of the Go standard library that the agent and the prestart hook make
  (\<open>os.Stat\<close>, \<open>os.Symlink\<close>, \<open>os.Remove\<close>, \<open>os.Readlink\<close>, \<open>os.ReadDir\<close>), on a tree of absolute
  paths.  \<open>fault\<close> is the environment: the error, if any, that a call on a path fails with for a
  reason outside the tree (a read-only file system, no space, no permission).
\<close>

datatype node = Symlink string | DevNode | Dir

datatype fs_op = OpStat | OpSymlink | OpRemove | OpReadlink | OpReadDir

record host_fs =
  nodes :: "(string, node) amap"
  fault :: "fs_op \<Rightarrow> string \<Rightarrow> errno option"

definition fs_ok :: "host_fs \<Rightarrow> bool" where
  "fs_ok fs \<longleftrightarrow> amap_ok (nodes fs)"

definition node_at :: "host_fs \<Rightarrow> string \<Rightarrow> node option" where
  "node_at fs p = map_of (nodes fs) p"

text \<open>The part of a path before its last slash.\<close>

definition path_dir :: "string \<Rightarrow> string" where
  "path_dir p = rev (drop 1 (dropWhile (\<lambda>c. c \<noteq> CHR ''/'') (rev p)))"

definition link_target :: "string \<Rightarrow> string \<Rightarrow> string" where
  "link_target p t = (if t \<noteq> [] \<and> hd t = CHR ''/'' then t else path_join [path_dir p, t])"

text \<open>
  Following symbolic links: the kernel gives up with \<open>ELOOP\<close> after 40 of them, so 41 look-ups
  are all there can be.
\<close>

fun stat_from :: "nat \<Rightarrow> host_fs \<Rightarrow> string \<Rightarrow> errno option" where
  "stat_from 0 fs p = Some ELOOP"
| "stat_from (Suc n) fs p =
     (case node_at fs p of
        None \<Rightarrow> Some ENOENT
      | Some (Symlink t) \<Rightarrow> stat_from n fs (link_target p t)
      | Some _ \<Rightarrow> None)"

definition max_symlinks :: nat where
  "max_symlinks = 40"

text \<open>\<open>os.Stat\<close>: the error, or \<open>None\<close> when the path leads to a file.\<close>

definition os_Stat :: "host_fs \<Rightarrow> string \<Rightarrow> errno option" where
  "os_Stat fs p = (case fault fs OpStat p of Some e \<Rightarrow> Some e | None \<Rightarrow> stat_from (Suc max_symlinks) fs p)"

definition os_Symlink :: "string \<Rightarrow> string \<Rightarrow> host_fs \<Rightarrow> errno option \<times> host_fs" where
  "os_Symlink target p fs =
     (case fault fs OpSymlink p of
        Some e \<Rightarrow> (Some e, fs)
      | None \<Rightarrow>
          if node_at fs p \<noteq> None then (Some EEXIST, fs)
          else (None, fs\<lparr>nodes := amap_put p (Symlink target) (nodes fs)\<rparr>))"

definition has_children :: "host_fs \<Rightarrow> string \<Rightarrow> bool" where
  "has_children fs p \<longleftrightarrow> list_ex (\<lambda>q. has_prefix (fst q) (p @ ''/'')) (nodes fs)"

definition os_Remove :: "string \<Rightarrow> host_fs \<Rightarrow> errno option \<times> host_fs" where
  "os_Remove p fs =
     (case fault fs OpRemove p of
        Some e \<Rightarrow> (Some e, fs)
      | None \<Rightarrow>
          (case node_at fs p of
             None \<Rightarrow> (Some ENOENT, fs)
           | Some Dir \<Rightarrow>
               if has_children fs p then (Some ENOTEMPTY, fs)
               else (None, fs\<lparr>nodes := amap_del p (nodes fs)\<rparr>)
           | Some _ \<Rightarrow> (None, fs\<lparr>nodes := amap_del p (nodes fs)\<rparr>)))"

definition os_Readlink :: "host_fs \<Rightarrow> string \<Rightarrow> errno + string" where
  "os_Readlink fs p =
     (case fault fs OpReadlink p of
        Some e \<Rightarrow> Inl e
      | None \<Rightarrow>
          (case node_at fs p of
             None \<Rightarrow> Inl ENOENT
           | Some (Symlink t) \<Rightarrow> Inr t
           | Some _ \<Rightarrow> Inl EINVAL))"

text \<open>\<open>os.ReadDir\<close>: the entries of a directory sorted by name.\<close>

definition entry_of :: "string \<Rightarrow> string \<times> node \<Rightarrow> (string \<times> node) option" where
  "entry_of d q =
     (let r = drop (length d + 1) (fst q)
      in if has_prefix (fst q) (d @ ''/'') \<and> r \<noteq> [] \<and> CHR ''/'' \<notin> set r then Some (r, snd q) else None)"

definition os_ReadDir :: "host_fs \<Rightarrow> string \<Rightarrow> errno + (string \<times> node) list" where
  "os_ReadDir fs d =
     (case fault fs OpReadDir d of
        Some e \<Rightarrow> Inl e
      | None \<Rightarrow> Inr (sort_key fst (List.map_filter (entry_of d) (nodes fs))))"

text \<open>\<open>os.IsExist\<close> on an error number.\<close>

definition os_IsExist :: "errno \<Rightarrow> bool" where
  "os_IsExist e \<longleftrightarrow> e = EEXIST \<or> e = ENOTEMPTY"

section \<open>Lemmas\<close>

lemma os_Symlink_other [frame_simps]:
  "q \<noteq> p \<Longrightarrow> node_at (snd (os_Symlink t p fs)) q = node_at fs q"
  by (simp add: os_Symlink_def node_at_def split: option.split)

lemma os_Remove_other [frame_simps]:
  "q \<noteq> p \<Longrightarrow> node_at (snd (os_Remove p fs)) q = node_at fs q"
  by (simp add: os_Remove_def node_at_def split: option.split node.split)

lemma os_Symlink_fault [simp]: "fault (snd (os_Symlink t p fs)) = fault fs"
  by (simp add: os_Symlink_def split: option.split)

lemma os_Remove_fault [simp]: "fault (snd (os_Remove p fs)) = fault fs"
  by (simp add: os_Remove_def split: option.split node.split)

lemma os_Symlink_ok [wf_intros]: "fs_ok fs \<Longrightarrow> fs_ok (snd (os_Symlink t p fs))"
  by (simp add: os_Symlink_def fs_ok_def split: option.split)

lemma os_Remove_ok [wf_intros]: "fs_ok fs \<Longrightarrow> fs_ok (snd (os_Remove p fs))"
  by (simp add: os_Remove_def fs_ok_def split: option.split node.split)

lemma os_Symlink_fresh:
  "fault fs OpSymlink p = None \<Longrightarrow> node_at fs p = None \<Longrightarrow>
   os_Symlink t p fs = (None, fs\<lparr>nodes := amap_put p (Symlink t) (nodes fs)\<rparr>)"
  by (simp add: os_Symlink_def)

lemma os_Symlink_made:
  "fst (os_Symlink t p fs) = None \<Longrightarrow> node_at (snd (os_Symlink t p fs)) p = Some (Symlink t)"
  by (auto simp: os_Symlink_def node_at_def split: option.splits if_splits)

lemma os_Symlink_failed: "fst (os_Symlink t p fs) = Some e \<Longrightarrow> snd (os_Symlink t p fs) = fs"
  by (auto simp: os_Symlink_def split: option.splits if_splits)

lemma os_Remove_link:
  "fault fs OpRemove p = None \<Longrightarrow> node_at fs p = Some (Symlink t) \<Longrightarrow>
   os_Remove p fs = (None, fs\<lparr>nodes := amap_del p (nodes fs)\<rparr>)"
  by (simp add: os_Remove_def)

lemma os_Remove_missing: "node_at fs p = None \<Longrightarrow> \<exists>e. os_Remove p fs = (Some e, fs)"
  by (simp add: os_Remove_def split: option.split)

lemma os_Remove_gone:
  "fst (os_Remove p fs) = None \<Longrightarrow> node_at (snd (os_Remove p fs)) p = None"
  by (auto simp: os_Remove_def node_at_def split: option.splits node.splits if_splits)

lemma os_Remove_failed: "fst (os_Remove p fs) = Some e \<Longrightarrow> snd (os_Remove p fs) = fs"
  by (auto simp: os_Remove_def split: option.splits node.splits if_splits)

lemma node_at_put [simp]:
  "node_at (fs\<lparr>nodes := amap_put p n m\<rparr>) q = (if q = p then Some n else map_of m q)"
  by (simp add: node_at_def)

lemma node_at_del [simp]:
  "node_at (fs\<lparr>nodes := amap_del p m\<rparr>) q = (if q = p then None else map_of m q)"
  by (simp add: node_at_def)

lemma os_Stat_missing:
  "fault fs OpStat p = None \<Longrightarrow> node_at fs p = None \<Longrightarrow> os_Stat fs p = Some ENOENT"
  by (simp add: os_Stat_def)

lemma host_fs_eqI:
  assumes "fs_ok a" "fs_ok b" "fault a = fault b" "\<And>p. node_at a p = node_at b p"
  shows "a = (b :: host_fs)"
proof -
  have "map_of (nodes a) = map_of (nodes b)"
    using assms(4) by (auto simp: node_at_def fun_eq_iff)
  then have "nodes a = nodes b" using assms(1,2) amap_ext by (simp add: fs_ok_def)
  with assms(3) show ?thesis by simp
qed

text \<open>The entries of a directory.\<close>

lemma entry_of_Some:
  "entry_of d (p, n) = Some (r, m) \<longleftrightarrow> p = d @ ''/'' @ r \<and> m = n \<and> r \<noteq> [] \<and> CHR ''/'' \<notin> set r"
  by (auto simp: entry_of_def Let_def has_prefix_iff)

lemma entry_of_None:
  "entry_of d (p, n) = None \<longleftrightarrow> \<not> (\<exists>r. p = d @ ''/'' @ r \<and> r \<noteq> [] \<and> CHR ''/'' \<notin> set r)"
  by (auto simp: entry_of_def Let_def has_prefix_iff)

lemma map_filter_entries:
  "set (List.map_filter (entry_of d) ns) = {(r, n). r \<noteq> [] \<and> CHR ''/'' \<notin> set r \<and> (d @ ''/'' @ r, n) \<in> set ns}"
  "distinct (map fst ns) \<Longrightarrow> distinct (map fst (List.map_filter (entry_of d) ns))"
proof -
  show set: "set (List.map_filter (entry_of d) ns) = {(r, n). r \<noteq> [] \<and> CHR ''/'' \<notin> set r \<and> (d @ ''/'' @ r, n) \<in> set ns}" for ns
  proof -
    have "set (List.map_filter (entry_of d) ns) = {e. \<exists>q \<in> set ns. entry_of d q = Some e}"
      by (force simp: List.map_filter_def)
    also have "\<dots> = {(r, n). r \<noteq> [] \<and> CHR ''/'' \<notin> set r \<and> (d @ ''/'' @ r, n) \<in> set ns}"
    proof (intro equalityI subsetI, goal_cases)
      case (1 e)
      then show ?case by (cases e) (auto simp: entry_of_Some)
    next
      case (2 e)
      then have "entry_of d (d @ ''/'' @ fst e, snd e) = Some e" "(d @ ''/'' @ fst e, snd e) \<in> set ns"
        by (cases e, simp add: entry_of_Some)+
      then show ?case by blast
    qed
    finally show ?thesis .
  qed
  show "distinct (map fst ns) \<Longrightarrow> distinct (map fst (List.map_filter (entry_of d) ns))"
  proof (induction ns)
    case (Cons q ns)
    obtain p n where q: "q = (p, n)" by force
    show ?case
    proof (cases "entry_of d q")
      case (Some e)
      obtain r m where e: "e = (r, m)" by force
      have "r \<notin> fst ` set (List.map_filter (entry_of d) ns)"
        using Cons.prems Some by (auto simp: q e set entry_of_Some image_iff)
      with Cons Some e show ?thesis by (simp add: List.map_filter_simps)
    qed (use Cons in \<open>simp add: List.map_filter_simps\<close>)
  qed (simp add: List.map_filter_simps)
qed

lemma os_ReadDir_entries:
  assumes "fs_ok fs" "fault fs OpReadDir d = None"
  obtains es where "os_ReadDir fs d = Inr es" "sorted (map fst es)" "distinct (map fst es)"
    and "\<And>r n. (r, n) \<in> set es \<longleftrightarrow> r \<noteq> [] \<and> CHR ''/'' \<notin> set r \<and> node_at fs (d @ ''/'' @ r) = Some n"
proof
  let ?es = "sort_key fst (List.map_filter (entry_of d) (nodes fs))"
  have dist: "distinct (map fst (nodes fs))" using assms(1) by (simp add: fs_ok_def amap_ok_distinct)
  show "os_ReadDir fs d = Inr ?es" using assms(2) by (simp add: os_ReadDir_def)
  show "sorted (map fst ?es)" by simp
  have "mset (map fst ?es) = mset (map fst (List.map_filter (entry_of d) (nodes fs)))" by simp
  then show "distinct (map fst ?es)"
    using map_filter_entries(2) [OF dist] mset_eq_imp_distinct_iff by blast
  show "(r, n) \<in> set ?es \<longleftrightarrow> r \<noteq> [] \<and> CHR ''/'' \<notin> set r \<and> node_at fs (d @ ''/'' @ r) = Some n" for r n
    using dist by (auto simp: map_filter_entries(1) node_at_def)
qed

end
