(* ===== verification/Gpu_Operator.thy ===== *)
theory Gpu_Operator
  imports Host_Fs "HOL-Library.Word"
begin

text \<open>
  \<open>pkg/operator\<close>: the \<open>GPUOperator\<close> interface, the enumeration of the GPUs through NVML
  (\<open>base.go\<close>), the operator that makes the links of a shared GPU (\<open>gpushare.go\<close>) and the one
  that does nothing (\<open>nvidia.go\<close>).  A Go \<open>error\<close> is an \<open>err option\<close>, \<open>None\<close> when nil.
\<close>

section \<open>Enumerating the devices (base.go)\<close>

record operator_Device =
  UUID :: string
  GPUIndex :: string
  Paths :: "string list"
  Memory :: "64 word"

text \<open>
  The NVML library is the environment: the return code of each call (0 is \<open>SUCCESS\<close>) and the
  values it yields for the device of a number.
\<close>

record nvml =
  nv_Init :: nat
  nv_Shutdown :: nat
  nv_DeviceGetCount :: "int \<times> nat"
  nv_DeviceGetHandleByIndex :: "int \<Rightarrow> nat"
  nv_GetUUID :: "int \<Rightarrow> string \<times> nat"
  nv_GetIndex :: "int \<Rightarrow> int \<times> nat"
  nv_GetMemoryInfo :: "int \<Rightarrow> 64 word \<times> nat"

text \<open>The loop of \<open>Devices\<close> over the handles, with the error variable it assigns.\<close>

fun devices_loop ::
  "nvml \<Rightarrow> int list \<Rightarrow> operator_Device list \<Rightarrow> err option \<Rightarrow> operator_Device list \<times> err option"
where
  "devices_loop nv [] devices e = (devices, e)"
| "devices_loop nv (gpu # gpus) devices e =
     (let (uuid, ret) = nv_GetUUID nv gpu;
          e = (if ret \<noteq> 0 then Some (ENvml ''failed to get device UUID'') else e);
          (index, ret) = nv_GetIndex nv gpu;
          e = (if ret \<noteq> 0 then Some (ENvml ''failed to get device index'') else e);
          (memory, ret) = nv_GetMemoryInfo nv gpu;
          e = (if ret \<noteq> 0 then Some (ENvml ''failed to get device memory'') else e);
          dev = \<lparr>UUID = uuid, GPUIndex = itoa index, Paths = [], Memory = memory\<rparr>
      in devices_loop nv gpus (devices @ [dev]) e)"

text \<open>The loop of \<open>devices\<close> that collects the handles; a failing handle ends it.\<close>

fun handles_loop :: "nvml \<Rightarrow> int list \<Rightarrow> int list \<Rightarrow> err + int list" where
  "handles_loop nv [] devs = Inr devs"
| "handles_loop nv (i # js) devs =
     (if nv_DeviceGetHandleByIndex nv i \<noteq> 0 then Inl (ENvml ''failed to get device handle'')
      else handles_loop nv js (devs @ [i]))"

text \<open>
  \<open>baseOperator.devices\<close>: the handles \<open>init\<close> is called with (\<open>None\<close> when it is not called) and
  the error returned; the deferred shutdown replaces the error when it fails itself.
\<close>

definition base_devices :: "nvml \<Rightarrow> int list option \<times> err option" where
  "base_devices nv =
     (if nv_Init nv \<noteq> 0 then (None, Some (ENvml ''failed to initialize NVML''))
      else
        let (called, e) =
              (let (count, ret) = nv_DeviceGetCount nv
               in if ret \<noteq> 0 then (None, Some (ENvml ''failed to get device count''))
                  else (case handles_loop nv (map int [0..<nat count]) [] of
                          Inr devs \<Rightarrow> (Some devs, None)
                        | Inl e \<Rightarrow> (None, Some e)))
        in (called,
            if nv_Shutdown nv \<noteq> 0 then Some (ENvml ''failed to shutdown NVML'') else e))"

text \<open>
  \<open>baseOperator.Devices\<close>: the closure fills \<open>devices\<close> and assigns \<open>err\<close>; the assignment
  \<open>err = g.devices(...)\<close> then overwrites \<open>err\<close>.
\<close>

definition Devices :: "nvml \<Rightarrow> operator_Device list \<times> err option" where
  "Devices nv =
     (case base_devices nv of
        (None, e) \<Rightarrow> ([], e)
      | (Some gpus, e) \<Rightarrow> (let (devices, closure_err) = devices_loop nv gpus [] None; err = e in (devices, err)))"

section \<open>Links of a shared GPU (gpushare.go)\<close>

text \<open>\<open>fmt.Sprintf\<close> with one verb: the text of the argument takes the place of the first verb.\<close>

fun sprintf1 :: "string \<Rightarrow> string \<Rightarrow> string" where
  "sprintf1 (a # b # s) x =
     (if a = CHR ''%'' \<and> (b = CHR ''d'' \<or> b = CHR ''s'') then x @ s else a # sprintf1 (b # s) x)"
| "sprintf1 s x = s"

definition GPUPath :: string where "GPUPath = ''/dev/nvidia%d''"
definition GPUCtlPath :: string where "GPUCtlPath = ''/dev/nvidiactl''"
definition SymPath :: string where "SymPath = ''/host/dev/elastic-gpu-%s''"
definition SymCtlPath :: string where "SymCtlPath = ''/host/dev/elastic-gpuctl-%s''"

record GPUShareOperator =
  Root :: string
  RootCtl :: string

definition NewGPUShareOperator :: GPUShareOperator where
  "NewGPUShareOperator = \<lparr>Root = GPUPath, RootCtl = GPUCtlPath\<rparr>"

definition IsExist :: "host_fs \<Rightarrow> string \<Rightarrow> bool" where
  "IsExist fs path = (case os_Stat fs path of None \<Rightarrow> True | Some e \<Rightarrow> os_IsExist e)"

definition GPUShare_Create ::
  "GPUShareOperator \<Rightarrow> int \<Rightarrow> string \<Rightarrow> host_fs \<Rightarrow> err option \<times> host_fs"
where
  "GPUShare_Create G index eid fs =
     (let devicePath = sprintf1 (Root G) (itoa index);
          deviceCtlPath = RootCtl G;
          symLink = sprintf1 SymPath eid;
          symCtlLink = sprintf1 SymCtlPath eid
      in if IsExist fs symLink then (None, fs)
         else (case os_Symlink devicePath symLink fs of
                 (Some e, fs) \<Rightarrow> (Some (EOs e), fs)
               | (None, fs) \<Rightarrow>
                   if IsExist fs symCtlLink then (None, fs)
                   else (case os_Symlink deviceCtlPath symCtlLink fs of
                           (Some e, fs) \<Rightarrow> (Some (EOs e), fs)
                         | (None, fs) \<Rightarrow> (None, fs))))"

definition GPUShare_Delete ::
  "GPUShareOperator \<Rightarrow> int \<Rightarrow> string \<Rightarrow> host_fs \<Rightarrow> err option \<times> host_fs"
where
  "GPUShare_Delete G index eid fs =
     (let symLink = sprintf1 SymPath eid;
          symCtlLink = sprintf1 SymCtlPath eid
      in case os_Remove symLink fs of
           (Some e, fs) \<Rightarrow> (Some (EOs e), fs)
         | (None, fs) \<Rightarrow>
             (case os_Remove symCtlLink fs of
                (Some e, fs) \<Rightarrow> (Some (EOs e), fs)
              | (None, fs) \<Rightarrow> (None, fs)))"

definition GPUShare_Check :: "GPUShareOperator \<Rightarrow> int \<Rightarrow> string \<Rightarrow> host_fs \<Rightarrow> bool" where
  "GPUShare_Check G index eid fs =
     (let err1 = os_Stat fs (sprintf1 SymPath eid);
          err2 = os_Stat fs (sprintf1 SymCtlPath eid)
      in err1 = None \<and> err2 = None)"

section \<open>The operator without links (nvidia.go)\<close>

definition Nvidia_Check :: "int \<Rightarrow> string \<Rightarrow> host_fs \<Rightarrow> bool" where
  "Nvidia_Check index eid fs = True"

definition Nvidia_Create :: "int \<Rightarrow> string \<Rightarrow> host_fs \<Rightarrow> err option \<times> host_fs" where
  "Nvidia_Create index eid fs = (None, fs)"

definition Nvidia_Delete :: "int \<Rightarrow> string \<Rightarrow> host_fs \<Rightarrow> err option \<times> host_fs" where
  "Nvidia_Delete index eid fs = (None, fs)"

section \<open>The interface\<close>

text \<open>The \<open>GPUOperator\<close> interface as the record of its methods, and its two implementations.\<close>

record GPUOperator =
  op_Devices :: "nvml \<Rightarrow> operator_Device list \<times> err option"
  op_Create :: "int \<Rightarrow> string \<Rightarrow> host_fs \<Rightarrow> err option \<times> host_fs"
  op_Delete :: "int \<Rightarrow> string \<Rightarrow> host_fs \<Rightarrow> err option \<times> host_fs"
  op_Check :: "int \<Rightarrow> string \<Rightarrow> host_fs \<Rightarrow> bool"

definition gpushare_operator :: GPUOperator where
  "gpushare_operator =
     \<lparr>op_Devices = Devices, op_Create = GPUShare_Create NewGPUShareOperator,
      op_Delete = GPUShare_Delete NewGPUShareOperator, op_Check = GPUShare_Check NewGPUShareOperator\<rparr>"

definition nvidia_operator :: GPUOperator where
  "nvidia_operator =
     \<lparr>op_Devices = Devices, op_Create = Nvidia_Create, op_Delete = Nvidia_Delete,
      op_Check = Nvidia_Check\<rparr>"

section \<open>Lemmas on the links\<close>

text \<open>The two links of an elastic GPU, and what they point to.\<close>

definition sym_link :: "string \<Rightarrow> string" where "sym_link eid = ''/host/dev/elastic-gpu-'' @ eid"
definition ctl_link :: "string \<Rightarrow> string" where "ctl_link eid = ''/host/dev/elastic-gpuctl-'' @ eid"
definition gpu_node :: "int \<Rightarrow> string" where "gpu_node i = ''/dev/nvidia'' @ itoa i"

lemma sprintf_SymPath [simp]: "sprintf1 SymPath eid = sym_link eid"
  by (simp add: SymPath_def sym_link_def)

lemma sprintf_SymCtlPath [simp]: "sprintf1 SymCtlPath eid = ctl_link eid"
  by (simp add: SymCtlPath_def ctl_link_def)

lemma sprintf_GPUPath [simp]: "sprintf1 GPUPath (itoa i) = gpu_node i"
  by (simp add: GPUPath_def gpu_node_def)

lemma NewGPUShareOperator_simps [simp]:
  "Root NewGPUShareOperator = GPUPath" "RootCtl NewGPUShareOperator = GPUCtlPath"
  by (simp_all add: NewGPUShareOperator_def)

text \<open>The links of an eid as a pair of nodes: the view of the file system the operator has.\<close>

definition links_of :: "host_fs \<Rightarrow> string \<Rightarrow> node option \<times> node option" where
  "links_of fs eid = (node_at fs (sym_link eid), node_at fs (ctl_link eid))"

definition links_to :: "int \<Rightarrow> node option \<times> node option" where
  "links_to i = (Some (Symlink (gpu_node i)), Some (Symlink GPUCtlPath))"

definition is_link_path :: "string \<Rightarrow> bool" where
  "is_link_path p \<longleftrightarrow> (\<exists>eid. p = sym_link eid \<or> p = ctl_link eid)"

text \<open>No call on a link path fails for an outside reason.\<close>

definition links_writable :: "host_fs \<Rightarrow> bool" where
  "links_writable fs \<longleftrightarrow> (\<forall>oper p. is_link_path p \<longrightarrow> fault fs oper p = None)"

lemma links_writableD:
  "links_writable fs \<Longrightarrow> fault fs oper (sym_link eid) = None"
  "links_writable fs \<Longrightarrow> fault fs oper (ctl_link eid) = None"
  by (auto simp: links_writable_def is_link_path_def)

lemma link_paths [simp, path_simps]:
  "sym_link a \<noteq> ctl_link b" "ctl_link b \<noteq> sym_link a"
  "sym_link a = sym_link b \<longleftrightarrow> a = b" "ctl_link a = ctl_link b \<longleftrightarrow> a = b"
  "is_link_path (sym_link a)" "is_link_path (ctl_link a)"
  by (auto simp: is_link_path_def sym_link_def ctl_link_def)

lemma nvidia_not_link [simp, path_simps]: "\<not> is_link_path (gpu_node i)" "\<not> is_link_path GPUCtlPath"
  by (auto simp: is_link_path_def GPUCtlPath_def gpu_node_def sym_link_def ctl_link_def)

text \<open>The states an operation can leave: the links are made, or removed, one after the other.\<close>

lemma Create_states:
  "snd (GPUShare_Create G i eid fs) = fs
   \<or> snd (GPUShare_Create G i eid fs) = snd (os_Symlink (sprintf1 (Root G) (itoa i)) (sym_link eid) fs)
   \<or> snd (GPUShare_Create G i eid fs) =
       snd (os_Symlink (RootCtl G) (ctl_link eid) (snd (os_Symlink (sprintf1 (Root G) (itoa i)) (sym_link eid) fs)))"
  by (simp add: GPUShare_Create_def Let_def split: prod.split option.split)

lemma Delete_states:
  "snd (GPUShare_Delete G i eid fs) = snd (os_Remove (sym_link eid) fs)
   \<or> snd (GPUShare_Delete G i eid fs) = snd (os_Remove (ctl_link eid) (snd (os_Remove (sym_link eid) fs)))"
  by (simp add: GPUShare_Delete_def Let_def split: prod.split option.split)

lemma Create_other [frame_simps]:
  "p \<noteq> sym_link eid \<Longrightarrow> p \<noteq> ctl_link eid \<Longrightarrow>
   node_at (snd (GPUShare_Create G i eid fs)) p = node_at fs p"
  using Create_states [of G i eid fs] by (elim disjE) (simp_all add: frame_simps)

lemma Delete_other [frame_simps]:
  "p \<noteq> sym_link eid \<Longrightarrow> p \<noteq> ctl_link eid \<Longrightarrow>
   node_at (snd (GPUShare_Delete G i eid fs)) p = node_at fs p"
  using Delete_states [of G i eid fs] by (elim disjE) (simp_all add: frame_simps)

lemma Create_fault [simp]: "fault (snd (GPUShare_Create G i eid fs)) = fault fs"
  using Create_states [of G i eid fs] by (elim disjE) (simp_all)

lemma Delete_fault [simp]: "fault (snd (GPUShare_Delete G i eid fs)) = fault fs"
  using Delete_states [of G i eid fs] by (elim disjE) (simp_all)

lemma Create_fs_ok [wf_intros]: "fs_ok fs \<Longrightarrow> fs_ok (snd (GPUShare_Create G i eid fs))"
  using Create_states [of G i eid fs] by (elim disjE) (simp_all add: wf_intros)

lemma Delete_fs_ok [wf_intros]: "fs_ok fs \<Longrightarrow> fs_ok (snd (GPUShare_Delete G i eid fs))"
  using Delete_states [of G i eid fs] by (elim disjE) (simp_all add: wf_intros)

lemma links_of_other:
  "eid' \<noteq> eid \<Longrightarrow> links_of (snd (GPUShare_Create G i eid fs)) eid' = links_of fs eid'"
  "eid' \<noteq> eid \<Longrightarrow> links_of (snd (GPUShare_Delete G i eid fs)) eid' = links_of fs eid'"
  by (simp_all add: links_of_def frame_simps)

lemma IsExist_missing:
  "links_writable fs \<Longrightarrow> is_link_path p \<Longrightarrow> node_at fs p = None \<Longrightarrow> \<not> IsExist fs p"
  by (simp add: IsExist_def os_Stat_missing links_writable_def os_IsExist_def)

text \<open>On a writable directory the two links are made when neither is there.\<close>

lemma Create_fresh:
  assumes "links_writable fs" and "links_of fs eid = (None, None)"
  shows "GPUShare_Create NewGPUShareOperator i eid fs =
    (None, fs\<lparr>nodes := amap_put (ctl_link eid) (Symlink GPUCtlPath)
                       (amap_put (sym_link eid) (Symlink (gpu_node i)) (nodes fs))\<rparr>)"
proof -
  let ?fs1 = "fs\<lparr>nodes := amap_put (sym_link eid) (Symlink (gpu_node i)) (nodes fs)\<rparr>"
  have none: "node_at fs (sym_link eid) = None" "node_at fs (ctl_link eid) = None"
    using assms by (auto simp: links_of_def)
  have w: "links_writable ?fs1" using assms by (simp add: links_writable_def)
  have sym: "os_Symlink (gpu_node i) (sym_link eid) fs = (None, ?fs1)"
    using os_Symlink_fresh [OF links_writableD(1) [OF assms(1)] none(1)] .
  have none1: "node_at ?fs1 (ctl_link eid) = None"
    using none(2) by (simp add: node_at_def)
  have ctl: "os_Symlink GPUCtlPath (ctl_link eid) ?fs1 =
      (None, ?fs1\<lparr>nodes := amap_put (ctl_link eid) (Symlink GPUCtlPath) (nodes ?fs1)\<rparr>)"
    using os_Symlink_fresh [OF links_writableD(2) [OF w] none1] .
  show ?thesis
    using IsExist_missing [OF assms(1) _ none(1)] IsExist_missing [OF w _ none1] sym ctl
    by (simp add: GPUShare_Create_def Let_def)
qed

lemma Create_fresh_links:
  assumes "links_writable fs" and "links_of fs eid = (None, None)"
  shows "fst (GPUShare_Create NewGPUShareOperator i eid fs) = None"
    and "links_of (snd (GPUShare_Create NewGPUShareOperator i eid fs)) eid = links_to i"
  using Create_fresh [OF assms] by (simp_all add: links_of_def links_to_def node_at_def)

text \<open>\<open>Delete\<close> removes the links of an id that has both of them, whatever they point to.\<close>

lemma Delete_made:
  assumes "links_writable fs" and "links_of fs eid = (Some (Symlink a), Some (Symlink b))"
  shows "GPUShare_Delete G j eid fs =
    (None, fs\<lparr>nodes := amap_del (ctl_link eid) (amap_del (sym_link eid) (nodes fs))\<rparr>)"
proof -
  let ?fs1 = "fs\<lparr>nodes := amap_del (sym_link eid) (nodes fs)\<rparr>"
  have sym: "os_Remove (sym_link eid) fs = (None, ?fs1)"
    using assms by (intro os_Remove_link) (auto simp: links_writableD links_of_def)
  have ctl: "os_Remove (ctl_link eid) ?fs1 =
      (None, ?fs1\<lparr>nodes := amap_del (ctl_link eid) (nodes ?fs1)\<rparr>)"
    using assms by (intro os_Remove_link) (auto simp: links_writableD links_of_def node_at_def)
  show ?thesis using sym ctl by (simp add: GPUShare_Delete_def Let_def)
qed

lemma Delete_made_links:
  assumes "links_writable fs" and "links_of fs eid = (Some (Symlink a), Some (Symlink b))"
  shows "fst (GPUShare_Delete G j eid fs) = None"
    and "links_of (snd (GPUShare_Delete G j eid fs)) eid = (None, None)"
  using Delete_made [OF assms] by (simp_all add: links_of_def node_at_def)

text \<open>The devices behind the links of card \<open>i\<close> exist.\<close>

definition gpu_present :: "int \<Rightarrow> host_fs \<Rightarrow> bool" where
  "gpu_present i fs \<longleftrightarrow> node_at fs (gpu_node i) = Some DevNode \<and> node_at fs GPUCtlPath = Some DevNode"

lemma link_absolute:
  "link_target p (gpu_node i) = gpu_node i" "link_target p GPUCtlPath = GPUCtlPath"
  by (simp_all add: link_target_def gpu_node_def GPUCtlPath_def)

lemma os_Stat_link:
  assumes "fault fs OpStat p = None" "node_at fs p = Some (Symlink t)"
    and "node_at fs (link_target p t) = Some DevNode"
  shows "os_Stat fs p = None"
proof -
  have "Suc max_symlinks = Suc (Suc 39)" by (simp add: max_symlinks_def)
  with assms show ?thesis by (simp only: os_Stat_def stat_from.simps) simp
qed

lemma Check_made:
  assumes "links_writable fs" "links_of fs eid = links_to i" "gpu_present i fs"
  shows "GPUShare_Check G j eid fs"
proof -
  have "os_Stat fs (sym_link eid) = None" "os_Stat fs (ctl_link eid) = None"
    using assms by (auto simp: links_writableD links_of_def links_to_def gpu_present_def link_absolute
        intro!: os_Stat_link)
  then show ?thesis by (simp add: GPUShare_Check_def)
qed

section \<open>The contract of a GPU operator\<close>

text \<open>
  What the plugins rely on in a \<open>GPUOperator\<close>: the links of an id are made, checked and removed
  without touching those of any other id.  \<open>view\<close> is what the operator keeps for an id.
\<close>

locale gpu_operator =
  fixes oper :: GPUOperator
    and view :: "host_fs \<Rightarrow> string \<Rightarrow> 'v"
    and made :: "int \<Rightarrow> 'v"
    and absent :: 'v
    and ready :: "host_fs \<Rightarrow> bool"
    and present :: "int \<Rightarrow> host_fs \<Rightarrow> bool"
  assumes create_frame: "b \<noteq> a \<Longrightarrow> view (snd (op_Create oper i a fs)) b = view fs b"
    and delete_frame: "b \<noteq> a \<Longrightarrow> view (snd (op_Delete oper i a fs)) b = view fs b"
    and create_ready: "ready fs \<Longrightarrow> ready (snd (op_Create oper i a fs))"
    and delete_ready: "ready fs \<Longrightarrow> ready (snd (op_Delete oper i a fs))"
    and create_succeeds: "ready fs \<Longrightarrow> view fs a = absent \<Longrightarrow> fst (op_Create oper i a fs) = None"
    and create_made: "ready fs \<Longrightarrow> view fs a = absent \<Longrightarrow> view (snd (op_Create oper i a fs)) a = made i"
    and delete_succeeds: "ready fs \<Longrightarrow> view fs a = made i \<Longrightarrow> fst (op_Delete oper j a fs) = None"
    and delete_absent: "ready fs \<Longrightarrow> view fs a = made i \<Longrightarrow> view (snd (op_Delete oper j a fs)) a = absent"
    and check_made: "ready fs \<Longrightarrow> view fs a = made i \<Longrightarrow> present i fs \<Longrightarrow> op_Check oper j a fs"
begin

text \<open>Making and then removing the links of an id gives the view before.\<close>

lemma create_delete_view:
  assumes "ready fs" "view fs a = absent"
  shows "view (snd (op_Delete oper j a (snd (op_Create oper i a fs)))) = view fs"
proof
  fix b
  show "view (snd (op_Delete oper j a (snd (op_Create oper i a fs)))) b = view fs b"
  proof (cases "b = a")
    case True
    then show ?thesis
      using assms delete_absent [OF create_ready create_made] by simp
  next
    case False
    then show ?thesis by (simp add: create_frame delete_frame)
  qed
qed

end

lemma gpushare_operator_simps [simp]:
  "op_Create gpushare_operator = GPUShare_Create NewGPUShareOperator"
  "op_Delete gpushare_operator = GPUShare_Delete NewGPUShareOperator"
  "op_Check gpushare_operator = GPUShare_Check NewGPUShareOperator"
  "op_Devices gpushare_operator = Devices"
  by (simp_all add: gpushare_operator_def)

interpretation gpushare: gpu_operator gpushare_operator links_of links_to "(None, None)" links_writable gpu_present
proof (unfold_locales, goal_cases)
  case (7 fs a i j)
  then show ?case by (simp add: Delete_made_links links_to_def)
next
  case (8 fs a i j)
  then show ?case by (simp add: Delete_made_links links_to_def)
next
  case (9 fs a i j)
  then show ?case by (simp add: Check_made)
qed (simp_all add: links_of_other links_writable_def Create_fresh_links)

interpretation nvidia: gpu_operator nvidia_operator "\<lambda>fs a. ()" "\<lambda>i. ()" "()" "\<lambda>fs. True" "\<lambda>i fs. True"
  by unfold_locales (simp_all add: nvidia_operator_def Nvidia_Create_def Nvidia_Delete_def Nvidia_Check_def)

text \<open>A directory of devices, for the instances of the properties.\<close>

definition demo_fs :: host_fs where
  "demo_fs = \<lparr>nodes = [(''/dev/nvidia0'', DevNode), (''/dev/nvidiactl'', DevNode)], fault = (\<lambda>oper p. None)\<rparr>"

lemma demo_fs_ok:
  "links_writable demo_fs" "fs_ok demo_fs" "gpu_present 0 demo_fs" "links_of demo_fs eid = (None, None)"
proof -
  show "fs_ok demo_fs" unfolding fs_ok_def demo_fs_def by code_simp
  have "gpu_node 0 = ''/dev/nvidia0''" by code_simp
  then show "gpu_present 0 demo_fs"
    by (simp add: gpu_present_def node_at_def demo_fs_def GPUCtlPath_def)
qed (simp_all add: links_writable_def links_of_def node_at_def demo_fs_def sym_link_def ctl_link_def)

section \<open>Properties\<close>

definition device_of :: "nvml \<Rightarrow> int \<Rightarrow> operator_Device" where
  "device_of nv g =
     \<lparr>UUID = fst (nv_GetUUID nv g), GPUIndex = itoa (fst (nv_GetIndex nv g)), Paths = [],
      Memory = fst (nv_GetMemoryInfo nv g)\<rparr>"

definition nvml_ok :: "nvml \<Rightarrow> bool" where
  "nvml_ok nv \<longleftrightarrow>
     nv_Init nv = 0 \<and> snd (nv_DeviceGetCount nv) = 0 \<and> nv_Shutdown nv = 0
     \<and> (\<forall>i < nat (fst (nv_DeviceGetCount nv)). nv_DeviceGetHandleByIndex nv (int i) = 0)"

lemma devices_loop_map:
  "fst (devices_loop nv gpus devices e) = devices @ map (device_of nv) gpus"
  by (induction gpus arbitrary: devices e) (auto simp: device_of_def Let_def split: prod.split)

lemma handles_loop_all:
  "\<forall>i \<in> set is. nv_DeviceGetHandleByIndex nv i = 0 \<Longrightarrow> handles_loop nv is devs = Inr (devs @ is)"
  by (induction "is" arbitrary: devs) auto

lemma handles_loop_fails:
  "\<exists>i \<in> set is. nv_DeviceGetHandleByIndex nv i \<noteq> 0 \<Longrightarrow>
   handles_loop nv is devs = Inl (ENvml ''failed to get device handle'')"
  by (induction "is" arbitrary: devs) auto

lemma Devices_all_or_error:
  "(snd (Devices nv) = None) = nvml_ok nv
   \<and> (nvml_ok nv \<longrightarrow> fst (Devices nv) = map (device_of nv \<circ> int) [0..<nat (fst (nv_DeviceGetCount nv))])"
proof -
  obtain count ret where c: "nv_DeviceGetCount nv = (count, ret)" by force
  have all: "handles_loop nv (map int [0..<nat count]) [] = Inr (map int [0..<nat count])"
    if "\<forall>i < nat count. nv_DeviceGetHandleByIndex nv (int i) = 0"
    using that handles_loop_all [of "map int [0..<nat count]" nv "[]"] by auto
  have some: "handles_loop nv (map int [0..<nat count]) [] = Inl (ENvml ''failed to get device handle'')"
    if "\<not> (\<forall>i < nat count. nv_DeviceGetHandleByIndex nv (int i) = 0)"
    using that by (intro handles_loop_fails) auto
  have "(snd (Devices nv) = None) = nvml_ok nv"
    using all some c unfolding nvml_ok_def
    by (cases "\<forall>i < nat count. nv_DeviceGetHandleByIndex nv (int i) = 0")
      (auto simp: Devices_def base_devices_def Let_def split: prod.split)
  moreover have "fst (Devices nv) = map (device_of nv \<circ> int) [0..<nat (fst (nv_DeviceGetCount nv))]" if "nvml_ok nv"
    using all c that devices_loop_map [of nv "map int [0..<nat count]" "[]" None]
    by (auto simp: nvml_ok_def Devices_def base_devices_def Let_def split: prod.split)
  ultimately show ?thesis by simp
qed

lemma Devices_nvml_ok: "snd (Devices nv) = None \<longleftrightarrow> nvml_ok nv"
  using Devices_all_or_error by blast

text \<open>
  \<open>Devices\<close> is all or nothing: it lists one device for each of the counted GPUs, in the
  order of their numbers, exactly when NVML starts, counts, gives every handle and stops;
  otherwise it returns an error.  The errors of \<open>GetUUID\<close>, \<open>GetIndex\<close> and \<open>GetMemoryInfo\<close> are
  not among the reasons: such a device is listed with the values NVML left.
\<close>

lemma Devices_lists_all:
  "(snd (Devices nv) = None) = nvml_ok nv
   \<and> (nvml_ok nv \<longrightarrow> fst (Devices nv) = map (device_of nv \<circ> int) [0..<nat (fst (nv_DeviceGetCount nv))])"
  by (rule Devices_all_or_error)

text \<open>
  C19: \<open>Create\<close> on an id without links makes both links, to the card and to the control device, so
  that \<open>Check\<close> holds as soon as these devices are there; \<open>Delete\<close> then gives back the very file
  system there was before.
\<close>

theorem Create_Check_Delete:
  fixes i :: int
  assumes "links_writable fs" and "fs_ok fs" and "links_of fs eid = (None, None)"
  defines "fs' \<equiv> snd (GPUShare_Create NewGPUShareOperator i eid fs)"
  shows "fst (GPUShare_Create NewGPUShareOperator i eid fs) = None
    \<and> links_of fs' eid = (Some (Symlink (''/dev/nvidia'' @ itoa i)), Some (Symlink ''/dev/nvidiactl''))
    \<and> (gpu_present i fs \<longrightarrow> GPUShare_Check NewGPUShareOperator j eid fs')
    \<and> GPUShare_Delete NewGPUShareOperator k eid fs' = (None, fs)"
proof -
  have made: "links_of fs' eid = links_to i" and ok: "links_writable fs'" "fs_ok fs'" "fault fs' = fault fs"
    using assms Create_fresh_links [OF assms(1,3)] by (simp_all add: links_writable_def wf_intros)
  have "gpu_present i fs' = gpu_present i fs"
    using Create_other [of _ eid NewGPUShareOperator i fs] nvidia_not_link(2)
    by (auto simp: gpu_present_def fs'_def) (metis link_paths(5,6) nvidia_not_link(1,2))+
  then have check: "gpu_present i fs \<longrightarrow> GPUShare_Check NewGPUShareOperator j eid fs'"
    using Check_made [OF ok(1) made] by blast
  have D: "fst (GPUShare_Delete NewGPUShareOperator k eid fs') = None"
    "links_of (snd (GPUShare_Delete NewGPUShareOperator k eid fs')) eid = (None, None)"
    using Delete_made_links [OF ok(1), of eid "gpu_node i" GPUCtlPath NewGPUShareOperator k] made
    by (simp_all add: links_to_def)
  have "snd (GPUShare_Delete NewGPUShareOperator k eid fs') = fs"
  proof (rule host_fs_eqI)
    fix p
    show "node_at (snd (GPUShare_Delete NewGPUShareOperator k eid fs')) p = node_at fs p"
      using D(2) assms(3) Create_other [of p eid NewGPUShareOperator i fs]
        Delete_other [of p eid NewGPUShareOperator k fs']
      by (cases "p = sym_link eid \<or> p = ctl_link eid") (auto simp: links_of_def fs'_def)
  qed (use ok assms in \<open>simp_all add: wf_intros\<close>)
  with D(1) check made Create_fresh_links(1) [OF assms(1,3)] show ?thesis
    by (auto simp: links_to_def gpu_node_def GPUCtlPath_def intro: prod_eqI)
qed

theorem Create_Check_Delete_witness:
  "GPUShare_Check NewGPUShareOperator 7 ''ab-0'' (snd (GPUShare_Create NewGPUShareOperator 0 ''ab-0'' demo_fs))
   \<and> GPUShare_Delete NewGPUShareOperator (-1) ''ab-0'' (snd (GPUShare_Create NewGPUShareOperator 0 ''ab-0'' demo_fs))
     = (None, demo_fs)"
  using Create_Check_Delete [OF demo_fs_ok(1,2,4), where i = 0 and j = 7 and k = "-1"] demo_fs_ok(3) by blast

text \<open>
  A pair of links that was left half made is never repaired: when the control link could not
  be made, \<open>Create\<close> fails with the card's link in place, and a second \<open>Create\<close>, on a file system
  that has become writable, reports success without making it, while \<open>Check\<close> does not hold.
\<close>

lemma Create_half_made:
  assumes "fault fs OpSymlink (ctl_link eid) = Some e" and "fault fs OpSymlink (sym_link eid) = None"
    and "fault fs OpStat = (\<lambda>p. None)"
    and "links_of fs eid = (None, None)" and "gpu_present i fs"
    and "GPUShare_Create NewGPUShareOperator i eid fs = (r, fs')"
    and "fs'' = fs'\<lparr>fault := (\<lambda>oper p. None)\<rparr>"
  shows "r = Some (EOs e) \<and> links_of fs' eid = (Some (Symlink (gpu_node i)), None)
    \<and> GPUShare_Create NewGPUShareOperator i eid fs'' = (None, fs'')
    \<and> \<not> GPUShare_Check NewGPUShareOperator j eid fs''"
proof -
  let ?fs1 = "fs\<lparr>nodes := amap_put (sym_link eid) (Symlink (gpu_node i)) (nodes fs)\<rparr>"
  have none: "node_at fs (sym_link eid) = None" "node_at fs (ctl_link eid) = None"
    using assms(4) by (auto simp: links_of_def)
  have none1: "node_at ?fs1 (ctl_link eid) = None" using none(2) by (simp add: node_at_def)
  have st: "\<not> IsExist fs (sym_link eid)" "\<not> IsExist ?fs1 (ctl_link eid)"
    using none none1 assms(3) by (simp_all add: IsExist_def os_Stat_missing os_IsExist_def)
  have "os_Symlink (gpu_node i) (sym_link eid) fs = (None, ?fs1)"
    using os_Symlink_fresh assms(2) none(1) by simp
  then have cr: "r = Some (EOs e)" "fs' = ?fs1"
    using assms(1,6) st by (auto simp: GPUShare_Create_def Let_def os_Symlink_def)
  have nodes: "node_at fs'' (sym_link eid) = Some (Symlink (gpu_node i))" "node_at fs'' (ctl_link eid) = None"
    using cr(2) assms(7) none1 by (simp_all add: node_at_def)
  have "node_at fs'' (gpu_node i) = Some DevNode"
    using assms(5,7) cr(2) none(1)
    by (auto simp: gpu_present_def node_at_def)
  then have "os_Stat fs'' (sym_link eid) = None"
    using assms(7) nodes(1) by (intro os_Stat_link) (auto simp: link_absolute)
  moreover have "os_Stat fs'' (ctl_link eid) \<noteq> None"
    using assms(7) nodes(2) by (simp add: os_Stat_missing)
  moreover have "links_of fs' eid = (Some (Symlink (gpu_node i)), None)"
    using nodes assms(7) by (simp add: links_of_def node_at_def)
  ultimately show ?thesis
    using cr(1) by (simp add: GPUShare_Create_def GPUShare_Check_def IsExist_def Let_def)
qed

text \<open>
  \<open>Delete\<close> is not repeatable: when the control link cannot be removed the card's link is gone
  already, and every later \<open>Delete\<close> of the id fails without ever removing the control link.
\<close>

lemma Delete_half_done:
  assumes "fault fs OpRemove (sym_link eid) = None" and "fault fs OpRemove (ctl_link eid) = Some e"
    and "links_of fs eid = (Some (Symlink a), Some (Symlink b))"
    and "GPUShare_Delete G i eid fs = (r, fs')"
    and "fs'' = fs'\<lparr>fault := (\<lambda>oper p. None)\<rparr>"
  shows "r = Some (EOs e) \<and> links_of fs' eid = (None, Some (Symlink b))
    \<and> GPUShare_Delete G j eid fs'' = (Some (EOs ENOENT), fs'')"
proof -
  have "os_Remove (sym_link eid) fs = (None, fs\<lparr>nodes := amap_del (sym_link eid) (nodes fs)\<rparr>)"
    using assms(1,3) by (intro os_Remove_link) (auto simp: links_of_def)
  then have d: "r = Some (EOs e)" "fs' = fs\<lparr>nodes := amap_del (sym_link eid) (nodes fs)\<rparr>"
    using assms(2,4) by (auto simp: GPUShare_Delete_def Let_def os_Remove_def [of "ctl_link eid"])
  then show ?thesis
    using assms(3,5) by (auto simp: links_of_def GPUShare_Delete_def Let_def os_Remove_def node_at_def)
qed

end
