(* ===== verification/Sha256.thy ===== *)
theory Sha256
  imports Agent_Prelude "HOL-Library.Word"
begin

text \<open>
  \<open>crypto/sha256.Sum256\<close> and \<open>encoding/hex.EncodeToString\<close> of the Go standard library, on
  byte strings: padding, message schedule and compression as in FIPS 180-4, on 32-bit words
  that wrap around.  The agent only uses the first eight hexadecimal digits of the digest.
\<close>

unbundle bit_operations_syntax

type_synonym u32 = "32 word"
type_synonym sha_state = "u32 list"

text \<open>The two tables of constants of the standard, as decimal numbers.\<close>

definition sha_k :: "u32 list" where
  "sha_k =
    [1116352408, 1899447441, 3049323471, 3921009573, 961987163, 1508970993, 2453635748, 2870763221,
     3624381080, 310598401, 607225278, 1426881987, 1925078388, 2162078206, 2614888103, 3248222580,
     3835390401, 4022224774, 264347078, 604807628, 770255983, 1249150122, 1555081692, 1996064986,
     2554220882, 2821834349, 2952996808, 3210313671, 3336571891, 3584528711, 113926993, 338241895,
     666307205, 773529912, 1294757372, 1396182291, 1695183700, 1986661051, 2177026350, 2456956037,
     2730485921, 2820302411, 3259730800, 3345764771, 3516065817, 3600352804, 4094571909, 275423344,
     430227734, 506948616, 659060556, 883997877, 958139571, 1322822218, 1537002063, 1747873779,
     1955562222, 2024104815, 2227730452, 2361852424, 2428436474, 2756734187, 3204031479, 3329325298]"

definition sha_init :: sha_state where
  "sha_init =
    [1779033703, 3144134277, 1013904242, 2773480762, 1359893119, 2600822924, 528734635, 1541459225]"

definition rotr :: "nat \<Rightarrow> u32 \<Rightarrow> u32" where
  "rotr n x = drop_bit n x OR push_bit (32 - n) x"

definition be_bytes :: "nat \<Rightarrow> int \<Rightarrow> string" where
  "be_bytes k n = map (\<lambda>i. char_of (n div 256 ^ i)) (rev [0..<k])"

definition be_word :: "string \<Rightarrow> u32" where
  "be_word bs = foldl (\<lambda>w c. 256 * w + of_int (of_char c)) 0 bs"

definition sha_pad :: "string \<Rightarrow> string" where
  "sha_pad s =
     s @ [char_of (128::nat)] @ replicate ((119 - length s mod 64) mod 64) (char_of (0::nat))
       @ be_bytes 8 (8 * int (length s))"

fun groups :: "nat \<Rightarrow> nat \<Rightarrow> 'a list \<Rightarrow> 'a list list" where
  "groups 0 k xs = []"
| "groups (Suc n) k xs = take k xs # groups n k (drop k xs)"

text \<open>The message schedule, most recent word first.\<close>

fun sha_schedule :: "nat \<Rightarrow> u32 list \<Rightarrow> u32 list" where
  "sha_schedule 0 ws = ws"
| "sha_schedule (Suc n) ws =
     (let s0 = ws ! 14; s1 = ws ! 1;
          w = (rotr 17 s1 XOR rotr 19 s1 XOR drop_bit 10 s1) + ws ! 6
              + (rotr 7 s0 XOR rotr 18 s0 XOR drop_bit 3 s0) + ws ! 15
      in sha_schedule n (w # ws))"

fun sha_round :: "sha_state \<Rightarrow> u32 \<times> u32 \<Rightarrow> sha_state" where
  "sha_round [a, b, c, d, e, f, g, h] (k, w) =
     (let t1 = h + (rotr 6 e XOR rotr 11 e XOR rotr 25 e) + ((e AND f) XOR (NOT e AND g)) + k + w;
          t2 = (rotr 2 a XOR rotr 13 a XOR rotr 22 a) + ((a AND b) XOR (a AND c) XOR (b AND c))
      in [t1 + t2, a, b, c, d + t1, e, f, g])"
| "sha_round st _ = st"

definition sha_block :: "sha_state \<Rightarrow> string \<Rightarrow> sha_state" where
  "sha_block st block =
     (let ws = rev (sha_schedule 48 (rev (map be_word (groups 16 4 block))))
      in map2 (+) st (foldl sha_round st (zip sha_k ws)))"

definition sha256 :: "string \<Rightarrow> string" where
  "sha256 s =
     (let p = sha_pad s
      in concat (map (\<lambda>w. be_bytes 4 (uint w))
           (foldl sha_block sha_init (groups (length p div 64) 64 p))))"

text \<open>\<open>hex.EncodeToString\<close>.\<close>

definition hex_digit :: "int \<Rightarrow> char" where
  "hex_digit n = char_of (if n < 10 then 48 + n else 87 + n)"

definition hex_encode :: "string \<Rightarrow> string" where
  "hex_encode s = concat (map (\<lambda>c. [hex_digit (of_char c div 16), hex_digit (of_char c mod 16)]) s)"

definition is_hex :: "char \<Rightarrow> bool" where
  "is_hex c \<longleftrightarrow> (48 \<le> (of_char c :: int) \<and> (of_char c :: int) \<le> 57)
                \<or> (97 \<le> (of_char c :: int) \<and> (of_char c :: int) \<le> 102)"

lemma is_hex_hex_digit: "0 \<le> n \<Longrightarrow> n < 16 \<Longrightarrow> is_hex (hex_digit n)"
  by (simp add: is_hex_def hex_digit_def of_char_of)

lemma of_char_range: "0 \<le> (of_char c :: int)" "(of_char c :: int) < 256"
proof -
  have "(of_char c :: int) = of_char c mod 256" by (simp only: of_char_mod_256)
  then show "0 \<le> (of_char c :: int)" "(of_char c :: int) < 256"
    using pos_mod_sign [of "256 :: int" "of_char c"] pos_mod_bound [of "256 :: int" "of_char c"]
    by linarith+
qed

lemma of_char_div_range: "0 \<le> (of_char c :: int) div 16" "(of_char c :: int) div 16 < 16"
  using of_char_range [of c] by linarith+

lemma hex_encode_hex: "c \<in> set (hex_encode s) \<Longrightarrow> is_hex c"
  unfolding hex_encode_def by (auto intro!: is_hex_hex_digit of_char_div_range)

lemma length_hex_encode [simp]: "length (hex_encode s) = 2 * length s"
  by (simp add: hex_encode_def length_concat o_def sum_list_triv)

lemma length_be_bytes [simp]: "length (be_bytes k n) = k"
  by (simp add: be_bytes_def)

lemma length_sha_round [simp]: "length (sha_round st kw) = length st"
  by (induction st kw rule: sha_round.induct) (auto simp: Let_def)

lemma length_foldl_sha_round [simp]: "length (foldl sha_round st kws) = length st"
  by (induction kws arbitrary: st) auto

lemma length_sha_block [simp]: "length (sha_block st b) = length st"
  by (simp add: sha_block_def Let_def)

lemma length_foldl_sha_block [simp]: "length (foldl sha_block st bs) = length st"
  by (induction bs arbitrary: st) auto

lemma length_sha256 [simp]: "length (sha256 s) = 32"
  by (simp add: sha256_def Let_def length_concat o_def sum_list_triv sha_init_def)

end
