(* ===== verification/Types_Device.thy ===== *)
theory Types_Device
  imports Go_Strings Sha256
begin

text \<open>
  \<open>pkg/types/device.go\<close>: a set of device IDs of one resource, identified by the first eight
  hexadecimal digits of the SHA-256 of its sorted IDs.  A nil \<open>List\<close> and an empty one are the
  same value here.
\<close>

record Device =
  Hash :: string
  DevList :: "string list"
  ResourceName :: string

text \<open>\<open>clone\<close>: a copy of the slice.\<close>

definition clone :: "string list \<Rightarrow> string list" where
  "clone list = map (\<lambda>i. list ! i) [0..<length list]"

text \<open>\<open>hash\<close>: the IDs joined by colons, digested, in hexadecimal, cut to eight bytes.\<close>

definition hash :: "string list \<Rightarrow> string" where
  "hash deviceList = take 8 (hex_encode (take 32 (sha256 (join '':'' deviceList))))"

definition NewDevice :: "string list \<Rightarrow> string \<Rightarrow> Device" where
  "NewDevice deviceList resourceName =
     (let curr = sort (clone deviceList)
      in \<lparr>Hash = hash curr, DevList = curr, ResourceName = resourceName\<rparr>)"

text \<open>The element loop of \<open>equals\<close>: the first difference ends it.\<close>

fun equals_from :: "string list \<Rightarrow> string list \<Rightarrow> bool" where
  "equals_from (x # xs) (y # ys) = (if x \<noteq> y then False else equals_from xs ys)"
| "equals_from _ _ = True"

definition equals :: "string list \<Rightarrow> string list \<Rightarrow> bool" where
  "equals a b = (if length a \<noteq> length b then False else equals_from a b)"

text \<open>\<open>Device.Equals\<close>.\<close>

definition Device_Equals :: "Device \<Rightarrow> Device \<Rightarrow> bool" where
  "Device_Equals d e \<longleftrightarrow> Hash d = Hash e \<and> equals (DevList d) (DevList e) \<and> ResourceName d = ResourceName e"

section \<open>Lemmas\<close>

lemma clone_id [simp]: "clone xs = xs"
  by (simp add: clone_def map_nth)

lemma equals_from_iff: "length xs = length ys \<Longrightarrow> equals_from xs ys \<longleftrightarrow> xs = ys"
  by (induction xs ys rule: list_induct2) auto

lemma equals_iff [simp]: "equals a b \<longleftrightarrow> a = b"
  by (auto simp: equals_def equals_from_iff)

lemma Device_Equals_iff [simp]: "Device_Equals d e \<longleftrightarrow> d = (e :: Device)"
  by (auto simp: Device_Equals_def)

lemma NewDevice_simps [simp]:
  "Hash (NewDevice ids r) = hash (sort ids)"
  "DevList (NewDevice ids r) = sort ids"
  "ResourceName (NewDevice ids r) = r"
  by (simp_all add: NewDevice_def Let_def)

lemma NewDevice_eq_iff: "NewDevice a r = NewDevice b r' \<longleftrightarrow> mset a = mset b \<and> r = r'"
  by (auto simp: NewDevice_def Let_def sort_eq_iff_mset) (metis sort_eq_iff_mset)

lemma NewDevice_cong: "mset a = mset b \<Longrightarrow> NewDevice a r = NewDevice b r"
  by (simp add: NewDevice_eq_iff)

lemma length_hash [simp]: "length (hash xs) = 8"
  by (simp add: hash_def)

lemma hash_is_hex: "c \<in> set (hash xs) \<Longrightarrow> is_hex c"
  unfolding hash_def by (blast dest: in_set_takeD hex_encode_hex)

lemma not_hex_chars [simp]:
  "\<not> is_hex CHR ''/''" "\<not> is_hex CHR ''-''" "\<not> is_hex CHR '',''" "\<not> is_hex CHR '':''"
  by (simp_all add: is_hex_def)

lemma hash_no_sep [simp]: "CHR ''/'' \<notin> set (hash xs)" "CHR ''-'' \<notin> set (hash xs)"
  using hash_is_hex by fastforce+

lemma hash_ne [simp]: "hash xs \<noteq> []"
  using length_hash [of xs] by (metis list.size(3) zero_neq_numeral)

section \<open>Properties\<close>

text \<open>
  Two devices built by \<open>NewDevice\<close> are equal for \<open>Equals\<close> exactly when their lists hold the
  same device IDs the same number of times, in whatever order, and they are of the same
  resource.
\<close>

lemma Equals_NewDevice_iff:
  "Device_Equals (NewDevice a r) (NewDevice b r') \<longleftrightarrow> mset a = mset b \<and> r = r'"
  by (simp add: NewDevice_eq_iff)

text \<open>
  The identifier of a device is eight lower-case hexadecimal digits, whatever the list, and
  does not depend on the order in which the kubelet lists the IDs.
\<close>

lemma NewDevice_Hash:
  "length (Hash (NewDevice ids r)) = 8 \<and> list_all is_hex (Hash (NewDevice ids r))
   \<and> Hash (NewDevice (rev ids) r') = Hash (NewDevice ids r)"
proof -
  have "sort (rev ids) = sort ids" by (simp add: sort_eq_iff_mset)
  then show ?thesis by (simp add: list_all_iff hash_is_hex)
qed

end
