(* ===== verification/Go_Json.thy ===== *)
theory Go_Json
  imports Go_Strings
begin

text \<open>
  \<open>encoding/json\<close> of the Go standard library, as far as the agent and the prestart hook use
  it: the text of a value as \<open>json.Marshal\<close> writes it (compact, HTML escaping on, invalid UTF-8
  replaced), and the scanner and parser behind \<open>json.Unmarshal\<close> (white space, all escapes,
  surrogate pairs, numbers, the nesting limit of 10000).  The main result is that scanning and
  parsing the text of a value gives the value back when its strings are valid UTF-8.
\<close>

section \<open>UTF-8\<close>

abbreviation byte :: "char \<Rightarrow> nat" where
  "byte \<equiv> of_char"

definition utf8_cont :: "char \<Rightarrow> bool" where
  "utf8_cont c \<longleftrightarrow> 128 \<le> byte c \<and> byte c < 192"

text \<open>The range of the second byte of a rune that starts with the byte \<open>b\<close>.\<close>

definition utf8_second :: "nat \<Rightarrow> char \<Rightarrow> bool" where
  "utf8_second b c \<longleftrightarrow>
     utf8_cont c \<and> (b = 224 \<longrightarrow> 160 \<le> byte c) \<and> (b = 237 \<longrightarrow> byte c < 160)
     \<and> (b = 240 \<longrightarrow> 144 \<le> byte c) \<and> (b = 244 \<longrightarrow> byte c < 144)"

text \<open>
  The length of the rune at the head of a string (\<open>utf8.DecodeRune\<close>); 0 where the function
  returns \<open>RuneError\<close>.
\<close>

fun utf8_len :: "string \<Rightarrow> nat" where
  "utf8_len [] = 0"
| "utf8_len (a # s) =
     (if byte a < 128 then 1
      else if 194 \<le> byte a \<and> byte a < 224 then
        (case s of c # _ \<Rightarrow> if utf8_second (byte a) c then 2 else 0 | _ \<Rightarrow> 0)
      else if 224 \<le> byte a \<and> byte a < 240 then
        (case s of c # d # _ \<Rightarrow> if utf8_second (byte a) c \<and> utf8_cont d then 3 else 0 | _ \<Rightarrow> 0)
      else if 240 \<le> byte a \<and> byte a < 245 then
        (case s of c # d # e # _ \<Rightarrow>
             if utf8_second (byte a) c \<and> utf8_cont d \<and> utf8_cont e then 4 else 0
         | _ \<Rightarrow> 0)
      else 0)"

declare utf8_len.simps(2) [simp del]

lemma utf8_len_le: "utf8_len s \<le> length s"
  by (cases s) (auto simp: utf8_len.simps split: list.splits)

lemma utf8_len_pos [simp]: "utf8_len s = Suc n \<Longrightarrow> s \<noteq> []"
  by auto

lemma utf8_len_take:
  assumes "utf8_len s = n" "0 < n"
  shows "utf8_len (take n s @ t) = n"
  using assms
  by (cases s) (auto simp: utf8_len.simps split: list.splits if_splits)

lemma utf8_len_ascii: "byte c < 128 \<Longrightarrow> utf8_len (c # s) = 1"
  by (simp add: utf8_len.simps)

lemma utf8_len_high:
  "utf8_len s = n \<Longrightarrow> 1 < n \<Longrightarrow> c \<in> set (take n s) \<Longrightarrow> 128 \<le> byte c"
  by (cases s) (auto simp: utf8_len.simps utf8_cont_def utf8_second_def split: list.splits if_splits)

function utf8_valid :: "string \<Rightarrow> bool" where
  "utf8_valid [] = True"
| "utf8_valid (c # s) = (0 < utf8_len (c # s) \<and> utf8_valid (drop (max 1 (utf8_len (c # s))) (c # s)))"
  by pat_completeness auto
termination by (relation "measure length") auto

definition ascii :: "string \<Rightarrow> bool" where
  "ascii s \<longleftrightarrow> (\<forall>c \<in> set s. byte c < 128)"

lemma ascii_utf8_valid: "ascii s \<Longrightarrow> utf8_valid s"
  by (induction s) (auto simp: ascii_def utf8_len_ascii)

text \<open>\<open>utf8.AppendRune\<close>: the bytes of a rune.\<close>

definition utf8_encode :: "nat \<Rightarrow> string" where
  "utf8_encode r =
     (if r < 128 then [char_of r]
      else if r < 2048 then [char_of (192 + r div 64), char_of (128 + r mod 64)]
      else if r < 65536 then
        [char_of (224 + r div 4096), char_of (128 + r div 64 mod 64), char_of (128 + r mod 64)]
      else [char_of (240 + r div 262144), char_of (128 + r div 4096 mod 64),
            char_of (128 + r div 64 mod 64), char_of (128 + r mod 64)])"

section \<open>Strings\<close>

abbreviation quote :: char where "quote \<equiv> CHR 0x22"
abbreviation bslash :: char where "bslash \<equiv> CHR 0x5C"

definition lower_hex :: "nat \<Rightarrow> char" where
  "lower_hex n = char_of (if n < 10 then 48 + n else 87 + n)"

text \<open>One byte below 128, escaped where it is not safe in HTML.\<close>

definition enc_byte :: "char \<Rightarrow> string" where
  "enc_byte c =
     (if c = quote \<or> c = bslash then [bslash, c]
      else if c = CHR 0x0A then [bslash, CHR ''n'']
      else if c = CHR 0x0D then [bslash, CHR ''r'']
      else if c = CHR 0x09 then [bslash, CHR ''t'']
      else if byte c < 32 \<or> c = CHR ''<'' \<or> c = CHR ''>'' \<or> c = CHR ''&'' then
        [bslash, CHR ''u'', CHR ''0'', CHR ''0'', lower_hex (byte c div 16), lower_hex (byte c mod 16)]
      else [c])"

function enc_chars :: "string \<Rightarrow> string" where
  "enc_chars [] = []"
| "enc_chars (c # s) =
     (if byte c < 128 then enc_byte c @ enc_chars s
      else if utf8_len (c # s) = 0 then bslash # ''ufffd'' @ enc_chars s
      else if take 3 (c # s) = [CHR 0xE2, CHR 0x80, CHR 0xA8] then
        bslash # ''u2028'' @ enc_chars (drop 3 (c # s))
      else if take 3 (c # s) = [CHR 0xE2, CHR 0x80, CHR 0xA9] then
        bslash # ''u2029'' @ enc_chars (drop 3 (c # s))
      else take (utf8_len (c # s)) (c # s) @ enc_chars (drop (utf8_len (c # s)) (c # s)))"
  by pat_completeness auto
termination by (relation "measure length") auto

definition enc_string :: "string \<Rightarrow> string" where
  "enc_string s = quote # enc_chars s @ [quote]"

definition hex_val :: "char \<Rightarrow> nat option" where
  "hex_val c =
     (let b = byte c in
      if 48 \<le> b \<and> b \<le> 57 then Some (b - 48)
      else if 97 \<le> b \<and> b \<le> 102 then Some (b - 87)
      else if 65 \<le> b \<and> b \<le> 70 then Some (b - 55)
      else None)"

text \<open>\<open>getu4\<close> without its leading \<open>\u\<close>: four hexadecimal digits.\<close>

fun hex4 :: "string \<Rightarrow> nat option" where
  "hex4 (a # b # c # d # _) =
     (case (hex_val a, hex_val b, hex_val c, hex_val d) of
        (Some x, Some y, Some z, Some w) \<Rightarrow> Some (4096 * x + 256 * y + 16 * z + w)
      | _ \<Rightarrow> None)"
| "hex4 _ = None"

text \<open>\<open>utf16.DecodeRune\<close>.\<close>

definition utf16_pair :: "nat \<Rightarrow> nat \<Rightarrow> nat option" where
  "utf16_pair r1 r2 =
     (if 55296 \<le> r1 \<and> r1 < 56320 \<and> 56320 \<le> r2 \<and> r2 < 57344
      then Some ((r1 - 55296) * 1024 + (r2 - 56320) + 65536) else None)"

text \<open>
  The rune of an escape whose digits start at \<open>s\<close>, and the number of bytes it takes from
  \<open>s\<close> on: a surrogate takes the escape after it with it when the two make a pair, and is the
  replacement character otherwise.
\<close>

definition unescape_u :: "string \<Rightarrow> (nat \<times> nat) option" where
  "unescape_u s =
     (case hex4 s of
        None \<Rightarrow> None
      | Some r \<Rightarrow>
          if 55296 \<le> r \<and> r < 57344 then
            (case (if take 2 (drop 4 s) = [bslash, CHR ''u''] then hex4 (drop 6 s) else None) of
               None \<Rightarrow> Some (65533, 4)
             | Some r2 \<Rightarrow> (case utf16_pair r r2 of None \<Rightarrow> Some (65533, 4) | Some p \<Rightarrow> Some (p, 10)))
          else Some (r, 4))"

definition unescape1 :: "char \<Rightarrow> char option" where
  "unescape1 e =
     (if e = quote \<or> e = bslash \<or> e = CHR ''/'' then Some e
      else if e = CHR ''b'' then Some (CHR 0x08)
      else if e = CHR ''f'' then Some (CHR 0x0C)
      else if e = CHR ''n'' then Some (CHR 0x0A)
      else if e = CHR ''r'' then Some (CHR 0x0D)
      else if e = CHR ''t'' then Some (CHR 0x09)
      else None)"

abbreviation prepend :: "string \<Rightarrow> (string \<times> string) option \<Rightarrow> (string \<times> string) option" where
  "prepend x \<equiv> map_option (map_prod ((@) x) id)"

text \<open>
  The body of a string literal after its opening quote: the decoded string and the input after
  the closing quote.
\<close>

function unquote :: "string \<Rightarrow> (string \<times> string) option" where
  "unquote [] = None"
| "unquote (c # s) =
     (if c = quote then Some ([], s)
      else if c = bslash then
        (case s of
           [] \<Rightarrow> None
         | e # s' \<Rightarrow>
             if e = CHR ''u'' then
               (case unescape_u s' of
                  None \<Rightarrow> None
                | Some (r, n) \<Rightarrow> prepend (utf8_encode r) (unquote (drop n s')))
             else (case unescape1 e of None \<Rightarrow> None | Some x \<Rightarrow> prepend [x] (unquote s')))
      else if byte c < 32 then None
      else if byte c < 128 then prepend [c] (unquote s)
      else if utf8_len (c # s) = 0 then prepend (utf8_encode 65533) (unquote s)
      else prepend (take (utf8_len (c # s)) (c # s)) (unquote (drop (utf8_len (c # s)) (c # s))))"
  by pat_completeness auto
termination by (relation "measure length") auto

declare enc_chars.simps(2) [simp del] unquote.simps(2) [simp del]

lemma unquote_quote [simp]: "unquote (quote # s) = Some ([], s)"
  by (simp add: unquote.simps)

lemma hex_val_lower_hex [simp]: "n < 16 \<Longrightarrow> hex_val (lower_hex n) = Some n"
  by (auto simp: hex_val_def lower_hex_def Let_def)

lemma hex_val_0 [simp]: "hex_val (CHR ''0'') = Some 0"
  by (simp add: hex_val_def)

lemma byte_div_mod: "16 * (byte c div 16) + byte c mod 16 = byte c"
  by simp

lemma unquote_enc_byte:
  assumes "byte c < 128"
  shows "unquote (enc_byte c @ s) = prepend [c] (unquote s)"
proof -
  have "16 * (byte c div 16) + byte c mod 16 = byte c" by simp
  moreover have "byte c div 16 < 16" using assms by simp
  ultimately show ?thesis
    using assms
    by (auto simp: enc_byte_def unquote.simps unescape1_def unescape_u_def utf8_encode_def)
qed

lemma unquote_rune:
  assumes "utf8_len u = n" "1 < n"
  shows "unquote (take n u @ s) = prepend (take n u) (unquote s)"
proof -
  obtain c r where u: "take n u = c # r" "128 \<le> byte c"
    using assms utf8_len_high [of u n] by (cases u; cases n) auto
  have n: "utf8_len (c # r @ s) = n"
    using utf8_len_take [of u n s] assms u by simp
  have len: "length (c # r) = n"
    using u assms utf8_len_le [of u] by (metis length_take min.absorb2)
  have "c \<noteq> quote" "c \<noteq> bslash" using u by auto
  with u n len assms show ?thesis
    by (auto simp: unquote.simps take_Cons' drop_Cons' split: nat.splits)
qed

lemma unquote_2028:
  "unquote (bslash # ''u2028'' @ s) = prepend [CHR 0xE2, CHR 0x80, CHR 0xA8] (unquote s)"
  "unquote (bslash # ''u2029'' @ s) = prepend [CHR 0xE2, CHR 0x80, CHR 0xA9] (unquote s)"
  by (simp_all add: unquote.simps unescape_u_def hex_val_def utf8_encode_def char_of_def bit_0)

text \<open>The branches of the encoder on a string that starts with a valid rune.\<close>

definition line_sep :: "string \<Rightarrow> bool" where
  "line_sep u \<longleftrightarrow> u = [CHR 0xE2, CHR 0x80, CHR 0xA8] \<or> u = [CHR 0xE2, CHR 0x80, CHR 0xA9]"

lemma enc_chars_rune:
  assumes "\<not> byte c < 128" "0 < utf8_len (c # s)" "\<not> line_sep (take 3 (c # s))"
  shows "enc_chars (c # s) =
    take (utf8_len (c # s)) (c # s) @ enc_chars (drop (utf8_len (c # s)) (c # s))"
  using assms by (simp only: enc_chars.simps line_sep_def de_Morgan_disj if_False if_True) simp

lemma enc_chars_line_sep:
  assumes "line_sep u"
  shows "enc_chars (u @ r) = bslash # (if u = [CHR 0xE2, CHR 0x80, CHR 0xA8] then ''u2028'' else ''u2029'') @ enc_chars r"
  using assms by (auto simp: line_sep_def enc_chars.simps utf8_len.simps utf8_second_def utf8_cont_def)

lemma unquote_line_sep:
  assumes "line_sep u" "unquote (enc_chars r @ quote # t) = Some (r, t)"
  shows "unquote (enc_chars (u @ r) @ quote # t) = Some (u @ r, t)"
  using assms enc_chars_line_sep [OF assms(1), of r] unquote_2028 [of "enc_chars r @ quote # t"]
  by (auto simp: line_sep_def)

lemma utf8_len_line_sep: "line_sep u \<Longrightarrow> utf8_len (u @ r) = 3"
  by (auto simp: line_sep_def utf8_len.simps utf8_second_def utf8_cont_def)

lemma utf8_len_not_1: "\<not> byte c < 128 \<Longrightarrow> utf8_len (c # s) \<noteq> Suc 0"
  by (auto simp: utf8_len.simps split: list.splits)

lemma utf8_valid_drop: "utf8_valid (c # s) \<Longrightarrow> utf8_valid (drop (utf8_len (c # s)) (c # s))"
  by (simp add: max_def split: if_splits)

text \<open>Decoding an encoded string gives it back, up to the closing quote.\<close>

lemma unquote_enc_chars:
  "utf8_valid s \<Longrightarrow> unquote (enc_chars s @ quote # t) = Some (s, t)"
proof (induction "length s" arbitrary: s rule: less_induct)
  case less
  show ?case
  proof (cases s)
    case Nil
    then show ?thesis by simp
  next
    case (Cons c r)
    define n where "n = utf8_len s"
    have n: "0 < n" "utf8_valid (drop n s)"
      using less.prems utf8_valid_drop [of c r] Cons by (auto simp: n_def)
    have IH: "unquote (enc_chars (drop n s) @ quote # t) = Some (drop n s, t)"
      using less.hyps [of "drop n s"] n Cons by simp
    consider "byte c < 128" | "\<not> byte c < 128" "line_sep (take 3 s)" | "\<not> byte c < 128" "\<not> line_sep (take 3 s)"
      by blast
    then show ?thesis
    proof cases
      case 1
      then have "n = 1" using Cons utf8_len_ascii by (simp add: n_def)
      with 1 IH Cons show ?thesis by (simp add: enc_chars.simps unquote_enc_byte)
    next
      case 2
      then have "n = 3"
        using utf8_len_line_sep [of "take 3 s" "drop 3 s"] by (simp add: n_def)
      then show ?thesis
        using unquote_line_sep [of "take 3 s" "drop 3 s" t] 2 IH by simp
    next
      case 3
      have "1 < n" using 3 n utf8_len_not_1 [of c r] Cons by (simp add: n_def)
      with 3 IH Cons n show ?thesis
        using enc_chars_rune [of c r] unquote_rune [OF n_def [symmetric], of "enc_chars (drop n s) @ quote # t"]
        by (simp add: n_def)
    qed
  qed
qed

section \<open>Tokens\<close>

datatype jtok =
    TLBrace | TRBrace | TLBrack | TRBrack | TColon | TComma
  | TNull | TTrue | TFalse | TStr string | TNum string

definition is_ws :: "char \<Rightarrow> bool" where
  "is_ws c \<longleftrightarrow> c = CHR '' '' \<or> c = CHR 0x09 \<or> c = CHR 0x0A \<or> c = CHR 0x0D"

text \<open>The parts of a number literal: integer part, fraction, exponent.\<close>

definition lex_int :: "string \<Rightarrow> (string \<times> string) option" where
  "lex_int s =
     (case s of
        [] \<Rightarrow> None
      | c # r \<Rightarrow>
          if c = CHR ''0'' then Some ([c], r)
          else if is_digit c then Some (takeWhile is_digit s, dropWhile is_digit s)
          else None)"

definition lex_digits :: "string \<Rightarrow> (string \<times> string) option" where
  "lex_digits s =
     (if takeWhile is_digit s = [] then None else Some (takeWhile is_digit s, dropWhile is_digit s))"

definition lex_frac :: "string \<Rightarrow> (string \<times> string) option" where
  "lex_frac s =
     (case s of
        c # r \<Rightarrow> if c = CHR ''.'' then prepend [c] (lex_digits r) else Some ([], s)
      | [] \<Rightarrow> Some ([], s))"

definition lex_exp :: "string \<Rightarrow> (string \<times> string) option" where
  "lex_exp s =
     (case s of
        c # r \<Rightarrow>
          if c = CHR ''e'' \<or> c = CHR ''E'' then
            (case r of
               d # r' \<Rightarrow>
                 if d = CHR ''+'' \<or> d = CHR ''-'' then prepend [c, d] (lex_digits r')
                 else prepend [c] (lex_digits r)
             | [] \<Rightarrow> None)
          else Some ([], s)
      | [] \<Rightarrow> Some ([], s))"

definition lex_number :: "string \<Rightarrow> (string \<times> string) option" where
  "lex_number s =
     (let sg = takeWhile (\<lambda>c. c = CHR ''-'') (take 1 s)
      in case lex_int (drop (length sg) s) of
           None \<Rightarrow> None
         | Some (i, s1) \<Rightarrow>
             (case lex_frac s1 of
                None \<Rightarrow> None
              | Some (f, s2) \<Rightarrow>
                  (case lex_exp s2 of None \<Rightarrow> None | Some (e, s3) \<Rightarrow> Some (sg @ i @ f @ e, s3))))"

definition lex_word :: "string \<Rightarrow> jtok \<Rightarrow> string \<Rightarrow> (jtok \<times> string) option" where
  "lex_word w t s = (if has_prefix s w then Some (t, drop (length w) s) else None)"

text \<open>The token at the head of a string without leading white space.\<close>

fun lex_tok :: "string \<Rightarrow> (jtok \<times> string) option" where
  "lex_tok [] = None"
| "lex_tok (c # s) =
     (if c = CHR ''{'' then Some (TLBrace, s)
      else if c = CHR ''}'' then Some (TRBrace, s)
      else if c = CHR ''['' then Some (TLBrack, s)
      else if c = CHR '']'' then Some (TRBrack, s)
      else if c = CHR '':'' then Some (TColon, s)
      else if c = CHR '','' then Some (TComma, s)
      else if c = quote then map_option (map_prod TStr id) (unquote s)
      else if c = CHR ''n'' then lex_word ''null'' TNull (c # s)
      else if c = CHR ''t'' then lex_word ''true'' TTrue (c # s)
      else if c = CHR ''f'' then lex_word ''false'' TFalse (c # s)
      else map_option (map_prod TNum id) (lex_number (c # s)))"

lemma unquote_shorter: "unquote s = Some (x, r) \<Longrightarrow> length r < length s"
proof (induction "length s" arbitrary: s x rule: less_induct)
  case less
  show ?case
  proof (cases s)
    case Nil
    with less.prems show ?thesis by simp
  next
    case (Cons c s')
    have IH: "length r < Suc (length s')"
      if "unquote u = Some (y, r)" "length u < Suc (length s')" for u y
      using that less.hyps [of u] Cons by fastforce
    have drop: "length (drop (utf8_len (c # s')) (c # s')) < Suc (length s')"
      if "utf8_len (c # s') \<noteq> 0"
      using that by simp
    show ?thesis
    proof (cases "c = bslash")
      case True
      with less.prems show ?thesis
        by (cases s') (auto simp: Cons unquote.simps split: if_splits option.splits dest!: IH)
    next
      case False
      with less.prems show ?thesis
        by (auto simp: Cons unquote.simps simp del: drop_Cons' split: if_splits
            dest!: IH intro: drop)
    qed
  qed
qed

lemma lex_number_shorter: "lex_number s = Some (x, r) \<Longrightarrow> length r < length s"
proof -
  have i: "length r < length s" if "lex_int s = Some (x, r)" for s x r
  proof (cases s)
    case (Cons c t)
    with that show ?thesis
      using length_dropWhile_le [of is_digit t] by (auto simp: lex_int_def split: if_splits)
  qed (use that in \<open>simp add: lex_int_def\<close>)
  have d: "length r \<le> length s" if "lex_digits s = Some (x, r)" for s x r
    using that length_dropWhile_le [of is_digit s] by (auto simp: lex_digits_def split: if_splits)
  have f: "length r \<le> length s" if "lex_frac s = Some (x, r)" for s x r
    using that by (auto simp: lex_frac_def split: list.splits if_splits dest!: d)
  have e: "length r \<le> length s" if "lex_exp s = Some (x, r)" for s x r
    using that by (auto simp: lex_exp_def split: list.splits if_splits dest!: d)
  assume "lex_number s = Some (x, r)"
  then show ?thesis
    by (auto simp: lex_number_def Let_def split: option.splits dest!: i f e) arith
qed

lemma lex_tok_shorter: "lex_tok s = Some (t, r) \<Longrightarrow> length r < length s"
  by (cases s)
    (auto simp: lex_word_def split: if_splits dest!: unquote_shorter lex_number_shorter)

function lex_all :: "string \<Rightarrow> jtok list option" where
  "lex_all s =
     (case dropWhile is_ws s of
        [] \<Rightarrow> Some []
      | c # s' \<Rightarrow>
          (case lex_tok (c # s') of
             None \<Rightarrow> None
           | Some (t, r) \<Rightarrow> map_option ((#) t) (lex_all r)))"
  by pat_completeness auto
termination
proof (relation "measure length", goal_cases)
  case (2 s c s' a t r)
  then show ?case
    using lex_tok_shorter [of "c # s'" t r] length_dropWhile_le [of is_ws s]
    by (simp del: lex_tok.simps)
qed simp

declare lex_all.simps [simp del]

fun tok_text :: "jtok \<Rightarrow> string" where
  "tok_text TLBrace = ''{''"
| "tok_text TRBrace = ''}''"
| "tok_text TLBrack = ''[''"
| "tok_text TRBrack = '']''"
| "tok_text TColon = '':''"
| "tok_text TComma = '',''"
| "tok_text TNull = ''null''"
| "tok_text TTrue = ''true''"
| "tok_text TFalse = ''false''"
| "tok_text (TStr s) = enc_string s"
| "tok_text (TNum s) = s"

fun tok_ok :: "jtok \<Rightarrow> bool" where
  "tok_ok (TStr s) \<longleftrightarrow> utf8_valid s"
| "tok_ok (TNum s) \<longleftrightarrow> False"
| "tok_ok t \<longleftrightarrow> True"

lemma tok_text_hd: "tok_ok t \<Longrightarrow> \<exists>c s. tok_text t = c # s \<and> \<not> is_ws c"
  by (cases t) (auto simp: enc_string_def is_ws_def)

lemma lex_tok_text: "tok_ok t \<Longrightarrow> lex_tok (tok_text t @ s) = Some (t, s)"
  by (cases t) (simp_all add: lex_word_def enc_string_def unquote_enc_chars)

lemma lex_all_texts:
  "list_all tok_ok ts \<Longrightarrow> lex_all (concat (map tok_text ts)) = Some ts"
proof (induction ts)
  case Nil
  then show ?case by (simp add: lex_all.simps)
next
  case (Cons t ts)
  let ?s = "tok_text t @ concat (map tok_text ts)"
  obtain c u where cu: "?s = c # u" "\<not> is_ws c"
    using tok_text_hd [of t] Cons.prems by auto
  have "lex_tok (c # u) = Some (t, concat (map tok_text ts))"
    using lex_tok_text [of t "concat (map tok_text ts)"] Cons.prems cu by simp
  with Cons cu show ?case
    by (simp add: lex_all.simps [of "c # u"] del: lex_tok.simps)
qed

section \<open>Values\<close>

datatype json =
    JNull | JBool bool | JNum string | JStr string
  | JArr "json list" | JObj "(string \<times> json) list"

text \<open>
  The parser is a pushdown automaton over the tokens, as the scanner of the library is one
  over the bytes: a frame for each open array or object, with the members read so far and the
  key whose value is being read, and a mode that says what may come next.
\<close>

datatype jframe = FArr "json list" | FObj "(string \<times> json) list" string

datatype jmode =
    MValue
  | MFirstElem
  | MFirstKey "(string \<times> json) list"
  | MKey "(string \<times> json) list"
  | MColon "(string \<times> json) list" string
  | MNextElem "json list"
  | MNextMember "(string \<times> json) list"
  | MDone json

definition max_depth :: nat where
  "max_depth = 10000"

text \<open>A finished value goes to the innermost open container.\<close>

fun deliver :: "json \<Rightarrow> jframe list \<Rightarrow> jframe list \<times> jmode" where
  "deliver v [] = ([], MDone v)"
| "deliver v (FArr vs # st) = (st, MNextElem (vs @ [v]))"
| "deliver v (FObj kvs k # st) = (st, MNextMember (kvs @ [(k, v)]))"

text \<open>
  Modes other than \<open>MValue\<close> and \<open>MDone\<close> hold the innermost container themselves; the stack
  holds the containers around it.
\<close>

definition open_depth :: "jframe list \<Rightarrow> bool" where
  "open_depth st \<longleftrightarrow> length st < max_depth"

fun jvalue :: "jtok \<Rightarrow> jframe list \<Rightarrow> (jframe list \<times> jmode) option" where
  "jvalue TNull st = Some (deliver JNull st)"
| "jvalue TTrue st = Some (deliver (JBool True) st)"
| "jvalue TFalse st = Some (deliver (JBool False) st)"
| "jvalue (TStr s) st = Some (deliver (JStr s) st)"
| "jvalue (TNum s) st = Some (deliver (JNum s) st)"
| "jvalue TLBrack st = (if open_depth st then Some (st, MFirstElem) else None)"
| "jvalue TLBrace st = (if open_depth st then Some (st, MFirstKey []) else None)"
| "jvalue _ st = None"

fun jstep :: "jtok \<Rightarrow> jframe list \<Rightarrow> jmode \<Rightarrow> (jframe list \<times> jmode) option" where
  "jstep t st MValue = jvalue t st"
| "jstep t st MFirstElem =
     (if t = TRBrack then Some (deliver (JArr []) st) else jvalue t (FArr [] # st))"
| "jstep t st (MNextElem vs) =
     (if t = TComma then Some (FArr vs # st, MValue)
      else if t = TRBrack then Some (deliver (JArr vs) st) else None)"
| "jstep t st (MFirstKey kvs) =
     (case t of
        TRBrace \<Rightarrow> Some (deliver (JObj kvs) st)
      | TStr k \<Rightarrow> Some (st, MColon kvs k)
      | _ \<Rightarrow> None)"
| "jstep t st (MKey kvs) = (case t of TStr k \<Rightarrow> Some (st, MColon kvs k) | _ \<Rightarrow> None)"
| "jstep t st (MColon kvs k) = (if t = TColon then Some (FObj kvs k # st, MValue) else None)"
| "jstep t st (MNextMember kvs) =
     (if t = TComma then Some (st, MKey kvs)
      else if t = TRBrace then Some (deliver (JObj kvs) st) else None)"
| "jstep t st (MDone v) = None"

fun jrun :: "jtok list \<Rightarrow> jframe list \<Rightarrow> jmode \<Rightarrow> json option" where
  "jrun [] st m = (case m of MDone v \<Rightarrow> Some v | _ \<Rightarrow> None)"
| "jrun (t # ts) st m =
     (case jstep t st m of None \<Rightarrow> None | Some (st', m') \<Rightarrow> jrun ts st' m')"

definition json_parse :: "string \<Rightarrow> json option" where
  "json_parse s = (case lex_all s of None \<Rightarrow> None | Some ts \<Rightarrow> jrun ts [] MValue)"

text \<open>The text of a value, as \<open>Marshal\<close> writes it.\<close>

fun json_text :: "json \<Rightarrow> string" where
  "json_text JNull = ''null''"
| "json_text (JBool b) = (if b then ''true'' else ''false'')"
| "json_text (JNum n) = n"
| "json_text (JStr s) = enc_string s"
| "json_text (JArr vs) = ''['' @ join '','' (map json_text vs) @ '']''"
| "json_text (JObj kvs) =
     ''{'' @ join '','' (map (\<lambda>(k, v). enc_string k @ '':'' @ json_text v) kvs) @ ''}''"

fun json_toks :: "json \<Rightarrow> jtok list" where
  "json_toks JNull = [TNull]"
| "json_toks (JBool b) = [if b then TTrue else TFalse]"
| "json_toks (JNum n) = [TNum n]"
| "json_toks (JStr s) = [TStr s]"
| "json_toks (JArr vs) = TLBrack # join [TComma] (map json_toks vs) @ [TRBrack]"
| "json_toks (JObj kvs) =
     TLBrace # join [TComma] (map (\<lambda>(k, v). TStr k # TColon # json_toks v) kvs) @ [TRBrace]"

lemma length_enc_byte: "length (enc_byte c) \<le> 6"
  by (simp add: enc_byte_def)

lemma length_enc_chars: "length (enc_chars s) \<le> 6 * length s"
proof (induction s rule: enc_chars.induct)
  case (2 c s)
  have "utf8_len (c # s) \<le> Suc (length s)" using utf8_len_le [of "c # s"] by simp
  with 2 length_enc_byte [of c] show ?case
    by (auto simp: enc_chars.simps(2) [of c s] dest: arg_cong [where f = length])
qed simp

lemma length_enc_string: "length (enc_string s) \<le> 6 * length s + 2"
  using length_enc_chars [of s] by (simp add: enc_string_def)

text \<open>Values without numbers and with valid UTF-8 strings, and their nesting depth.\<close>

fun json_ok :: "json \<Rightarrow> bool" where
  "json_ok (JNum n) \<longleftrightarrow> False"
| "json_ok (JStr s) \<longleftrightarrow> utf8_valid s"
| "json_ok (JArr vs) \<longleftrightarrow> list_all json_ok vs"
| "json_ok (JObj kvs) \<longleftrightarrow> list_all (\<lambda>(k, v). utf8_valid k \<and> json_ok v) kvs"
| "json_ok _ \<longleftrightarrow> True"

fun json_depth :: "json \<Rightarrow> nat" where
  "json_depth (JArr vs) = Suc (fold max (map json_depth vs) 0)"
| "json_depth (JObj kvs) = Suc (fold max (map (\<lambda>(k, v). json_depth v) kvs) 0)"
| "json_depth _ = 0"

section \<open>Parsing the text of a value\<close>

abbreviation jresume :: "jtok list \<Rightarrow> jframe list \<times> jmode \<Rightarrow> json option" where
  "jresume ts sm \<equiv> (case sm of (st, m) \<Rightarrow> jrun ts st m)"

definition parses :: "json \<Rightarrow> nat \<Rightarrow> bool" where
  "parses v d \<longleftrightarrow>
     (\<forall>ts st. length st \<le> d \<longrightarrow> jrun (json_toks v @ ts) st MValue = jresume ts (deliver v st))"

lemma json_toks_hd: "\<exists>t ts. json_toks v = t # ts \<and> t \<noteq> TRBrack"
  by (cases v) auto

lemma jvalue_resume: "jrun (t # ts) st MValue = (case jvalue t st of None \<Rightarrow> None | Some sm \<Rightarrow> jresume ts sm)"
  by (simp split: option.splits prod.splits)

lemma jrun_first_elem:
  "jrun (json_toks v @ ts) st MFirstElem = jrun (json_toks v @ ts) (FArr [] # st) MValue"
  using json_toks_hd [of v] by (auto simp del: json_toks.simps)

lemma jrun_elems:
  assumes "\<forall>v \<in> set vs. parses v (Suc (length st))" and "vs \<noteq> []"
  shows "jrun (join [TComma] (map json_toks vs) @ TRBrack # ts) (FArr acc # st) MValue
         = jresume ts (deliver (JArr (acc @ vs)) st)"
  using assms
proof (induction vs arbitrary: acc)
  case (Cons v vs)
  have v: "jrun (json_toks v @ us) (FArr acc # st) MValue = jrun us st (MNextElem (acc @ [v]))" for us
    using Cons.prems by (simp add: parses_def)
  show ?case
  proof (cases vs)
    case Nil
    then show ?thesis by (simp add: v)
  next
    case (Cons w ws)
    have "jrun (join [TComma] (map json_toks vs) @ TRBrack # ts) (FArr (acc @ [v]) # st) MValue
          = jresume ts (deliver (JArr ((acc @ [v]) @ vs)) st)"
      using Cons.IH Cons.prems Cons by simp
    with Cons show ?thesis by (simp add: v)
  qed
qed simp

lemma jrun_members:
  assumes "\<forall>(k, v) \<in> set kvs. parses v (Suc (length st))" and "kvs \<noteq> []"
    and "m = MFirstKey acc \<or> m = MKey acc"
  shows "jrun (join [TComma] (map (\<lambda>(k, v). TStr k # TColon # json_toks v) kvs) @ TRBrace # ts) st m
         = jresume ts (deliver (JObj (acc @ kvs)) st)"
  using assms
proof (induction kvs arbitrary: acc m)
  case (Cons kv kvs)
  obtain k v where kv: "kv = (k, v)" by force
  have v: "jrun (TStr k # TColon # json_toks v @ us) st m = jrun us st (MNextMember (acc @ [(k, v)]))" for us
    using Cons.prems kv by (auto simp: parses_def)
  show ?case
  proof (cases kvs)
    case Nil
    then show ?thesis using v by (simp add: kv)
  next
    case (Cons w ws)
    have "jrun (join [TComma] (map (\<lambda>(k, v). TStr k # TColon # json_toks v) kvs) @ TRBrace # ts) st
            (MKey (acc @ [(k, v)]))
          = jresume ts (deliver (JObj ((acc @ [(k, v)]) @ kvs)) st)"
      using Cons.IH [where acc = "acc @ [(k, v)]"] Cons.prems Cons by simp
    with Cons v show ?thesis by (simp add: kv)
  qed
qed simp

lemma fold_max_start: "(a::nat) \<le> fold max xs a"
  by (induction xs arbitrary: a) (auto intro: order.trans [OF max.cobounded2])

lemma fold_max_ge: "x \<in> set xs \<Longrightarrow> (f x :: nat) \<le> fold max (map f xs) a"
  by (induction xs arbitrary: a) (auto intro: order.trans [OF max.cobounded1 fold_max_start])

lemma json_parses: "json_depth v + d \<le> max_depth \<Longrightarrow> parses v d"
proof (induction v arbitrary: d)
  case (JArr vs)
  have sub: "\<forall>v \<in> set vs. parses v (Suc n)" if "n \<le> d" for n
    using JArr that fold_max_ge [of _ vs json_depth 0] by fastforce
  show ?case
    unfolding parses_def
  proof (intro allI impI)
    fix ts and st :: "jframe list"
    assume len: "length st \<le> d"
    then have "open_depth st" using JArr.prems by (simp add: open_depth_def)
    then show "jrun (json_toks (JArr vs) @ ts) st MValue = jresume ts (deliver (JArr vs) st)"
      using jrun_elems [of vs st ts "[]"] sub [OF len] jrun_first_elem [of "hd vs"]
      by (cases vs; cases "tl vs") auto
  qed
next
  case (JObj kvs)
  have sub: "\<forall>(k, v) \<in> set kvs. parses v (Suc n)" if "n \<le> d" for n
    using JObj that fold_max_ge [of _ kvs "\<lambda>(k, v). json_depth v" 0] by fastforce
  show ?case
    unfolding parses_def
  proof (intro allI impI)
    fix ts and st :: "jframe list"
    assume len: "length st \<le> d"
    then have "open_depth st" using JObj.prems by (simp add: open_depth_def)
    then show "jrun (json_toks (JObj kvs) @ ts) st MValue = jresume ts (deliver (JObj kvs) st)"
      using jrun_members [of kvs st "MFirstKey []" "[]" ts] sub [OF len] by (cases kvs) auto
  qed
qed (auto simp: parses_def)

lemma concat_join:
  "\<forall>x \<in> set xs. f x = concat (map tok_text (g x)) \<Longrightarrow>
   join '','' (map f xs) = concat (map tok_text (join [TComma] (map g xs)))"
  by (induction xs rule: induct_list012) auto

lemma list_all_join:
  "\<forall>x \<in> set xs. list_all P (g x) \<Longrightarrow> P sep \<Longrightarrow> list_all P (join [sep] (map g xs))"
  by (induction xs rule: induct_list012) auto

lemma json_text_toks: "json_text v = concat (map tok_text (json_toks v))"
proof (induction v)
  case (JArr vs)
  then show ?case by (simp add: concat_join [of vs json_text json_toks])
next
  case (JObj kvs)
  then show ?case
    by (simp, intro concat_join) auto
qed auto

lemma json_toks_ok: "json_ok v \<Longrightarrow> list_all tok_ok (json_toks v)"
proof (induction v)
  case (JArr vs)
  then show ?case by (auto simp: list_all_iff [of json_ok] intro!: list_all_join)
next
  case (JObj kvs)
  then show ?case by (fastforce simp: list_all_iff [of "\<lambda>(k, v). utf8_valid k \<and> json_ok v"] intro!: list_all_join)
qed auto

theorem json_parse_text:
  assumes "json_ok v" and "json_depth v \<le> max_depth"
  shows "json_parse (json_text v) = Some v"
proof -
  have "lex_all (json_text v) = Some (json_toks v)"
    using assms(1) by (simp add: json_text_toks lex_all_texts json_toks_ok)
  moreover have "jrun (json_toks v @ []) [] MValue = Some v"
    using json_parses [of v 0] assms(2) by (simp add: parses_def del: append_Nil2)
  ultimately show ?thesis by (simp add: json_parse_def)
qed

end
