(* ===== verification/Types_Pod.thy ===== *)
theory Types_Pod
  imports Types_Device Go_Json
begin

text \<open>
  \<open>pkg/types/pod.go\<close>: the record the agent keeps for a pod, the devices given to each of its
  containers.  A Go \<open>map[string]*Device\<close> is \<open>None\<close> when nil and otherwise a sorted association list
  whose values are pointers (\<open>None\<close> when nil).  \<open>Val\<close> and \<open>SetVal\<close> are \<open>json.Marshal\<close> and
  \<open>json.Unmarshal\<close> at this type.
\<close>

record PodContainer =
  pc_Namespace :: string
  pc_Name :: string
  pc_Container :: string

definition PodContainer_String :: "PodContainer \<Rightarrow> string" where
  "PodContainer_String pc = pc_Namespace pc @ ''/'' @ pc_Name pc @ '':'' @ pc_Container pc"

definition PodContainer_Pod :: "PodContainer \<Rightarrow> string" where
  "PodContainer_Pod pc = pc_Namespace pc @ ''/'' @ pc_Name pc"

type_synonym devmap = "(string, Device option) amap"

record PodInfo =
  Namespace :: string
  Name :: string
  ContainerDeviceMap :: "devmap option"

definition NewPI :: "string \<Rightarrow> string \<Rightarrow> PodInfo" where
  "NewPI namespace name = \<lparr>Namespace = namespace, Name = name, ContainerDeviceMap = Some []\<rparr>"

section \<open>The JSON text of a device map\<close>

definition device_json :: "Device \<Rightarrow> json" where
  "device_json d =
     JObj [(''Hash'', JStr (Hash d)), (''List'', JArr (map JStr (DevList d))),
           (''ResourceName'', JStr (ResourceName d))]"

definition pointer_json :: "Device option \<Rightarrow> json" where
  "pointer_json p = (case p of None \<Rightarrow> JNull | Some d \<Rightarrow> device_json d)"

definition devmap_json :: "devmap option \<Rightarrow> json" where
  "devmap_json m =
     (case m of None \<Rightarrow> JNull | Some kvs \<Rightarrow> JObj (map (\<lambda>(c, p). (c, pointer_json p)) kvs))"

text \<open>
  Field names match without regard to case, where \<open>s\<close> also matches the long s and \<open>k\<close> the
  Kelvin sign.
\<close>

fun fold_key :: "string \<Rightarrow> string" where
  "fold_key [] = []"
| "fold_key (c # s) =
     (if 65 \<le> byte c \<and> byte c \<le> 90 then char_of (byte c + 32) # fold_key s
      else if c = CHR 0xC5 \<and> take 1 s = [CHR 0xBF] then CHR ''s'' # fold_key (drop 1 s)
      else if c = CHR 0xE2 \<and> take 2 s = [CHR 0x84, CHR 0xAA] then CHR ''k'' # fold_key (drop 2 s)
      else c # fold_key s)"

text \<open>A string field: \<open>null\<close> leaves it as it is, anything but a string is an error.\<close>

fun dec_string :: "string \<Rightarrow> json \<Rightarrow> string option" where
  "dec_string old (JStr s) = Some s"
| "dec_string old JNull = Some old"
| "dec_string old _ = None"

fun dec_strings :: "json list \<Rightarrow> string list option" where
  "dec_strings [] = Some []"
| "dec_strings (v # vs) =
     (case dec_string [] v of None \<Rightarrow> None | Some s \<Rightarrow> map_option ((#) s) (dec_strings vs))"

fun dec_list :: "json \<Rightarrow> string list option" where
  "dec_list JNull = Some []"
| "dec_list (JArr vs) = dec_strings vs"
| "dec_list _ = None"

definition dec_field :: "Device \<Rightarrow> string \<times> json \<Rightarrow> Device option" where
  "dec_field d kv =
     (let k = fold_key (fst kv); v = snd kv
      in if k = ''hash'' then map_option (\<lambda>s. d\<lparr>Hash := s\<rparr>) (dec_string (Hash d) v)
         else if k = ''list'' then map_option (\<lambda>l. d\<lparr>DevList := l\<rparr>) (dec_list v)
         else if k = ''resourcename'' then
           map_option (\<lambda>s. d\<lparr>ResourceName := s\<rparr>) (dec_string (ResourceName d) v)
         else Some d)"

fun dec_fields :: "Device \<Rightarrow> (string \<times> json) list \<Rightarrow> Device option" where
  "dec_fields d [] = Some d"
| "dec_fields d (kv # kvs) = (case dec_field d kv of None \<Rightarrow> None | Some d' \<Rightarrow> dec_fields d' kvs)"

definition zero_Device :: Device where
  "zero_Device = \<lparr>Hash = [], DevList = [], ResourceName = []\<rparr>"

fun dec_pointer :: "json \<Rightarrow> Device option option" where
  "dec_pointer JNull = Some None"
| "dec_pointer (JObj kvs) = map_option Some (dec_fields zero_Device kvs)"
| "dec_pointer _ = None"

fun dec_members :: "devmap \<Rightarrow> (string \<times> json) list \<Rightarrow> devmap option" where
  "dec_members m [] = Some m"
| "dec_members m (kv # kvs) =
     (case dec_pointer (snd kv) of
        None \<Rightarrow> None
      | Some p \<Rightarrow> dec_members (amap_put (fst kv) p m) kvs)"

text \<open>
  \<open>json.Unmarshal\<close> into a map that may already hold entries: \<open>null\<close> sets it to nil, an object
  adds its members to it.
\<close>

definition unmarshal_devmap :: "string \<Rightarrow> devmap option \<Rightarrow> devmap option option" where
  "unmarshal_devmap val cur =
     (case json_parse val of
        Some JNull \<Rightarrow> Some None
      | Some (JObj kvs) \<Rightarrow>
          map_option Some (dec_members (case cur of None \<Rightarrow> [] | Some m \<Rightarrow> m) kvs)
      | _ \<Rightarrow> None)"

definition Val :: "PodInfo \<Rightarrow> string" where
  "Val i = json_text (devmap_json (ContainerDeviceMap i))"

definition SetVal :: "PodInfo \<Rightarrow> string \<Rightarrow> PodInfo res" where
  "SetVal i val =
     (case unmarshal_devmap val (ContainerDeviceMap i) of
        None \<Rightarrow> Fail EValFormat
      | Some m \<Rightarrow> Ok (i\<lparr>ContainerDeviceMap := m\<rparr>))"

definition Key :: "PodInfo \<Rightarrow> string" where
  "Key i = path_join [Namespace i, Name i]"

definition NewPIFromRaw :: "string \<Rightarrow> string \<Rightarrow> PodInfo res" where
  "NewPIFromRaw key val =
     (let arr = split_on CHR ''/'' key
      in if length arr \<noteq> 2 then Fail (EKeyFormat key)
         else SetVal (NewPI (arr ! 0) (arr ! 1)) val)"

section \<open>Lemmas\<close>

definition device_ok :: "Device \<Rightarrow> bool" where
  "device_ok d \<longleftrightarrow> utf8_valid (Hash d) \<and> list_all utf8_valid (DevList d) \<and> utf8_valid (ResourceName d)"

definition devmap_ok :: "devmap option \<Rightarrow> bool" where
  "devmap_ok m \<longleftrightarrow>
     (case m of None \<Rightarrow> True
      | Some kvs \<Rightarrow> amap_ok kvs \<and> (\<forall>(c, p) \<in> set kvs. utf8_valid c \<and> (case p of None \<Rightarrow> True | Some d \<Rightarrow> device_ok d)))"

lemma hash_utf8 [simp]: "utf8_valid (hash x)"
proof -
  have "is_hex c \<Longrightarrow> (of_char c :: nat) < 128" for c
    using of_nat_of_char [of c, where ?'a = int] unfolding is_hex_def by linarith
  then show ?thesis
    using hash_is_hex by (intro ascii_utf8_valid) (auto simp: ascii_def)
qed

text \<open>A pod as Kubernetes names them, with a device map the agent can write.\<close>

definition pod_ok :: "PodInfo \<Rightarrow> bool" where
  "pod_ok i \<longleftrightarrow> plain_elem (Namespace i) \<and> plain_elem (Name i) \<and> devmap_ok (ContainerDeviceMap i)"

lemma dec_strings_map [simp]: "dec_strings (map JStr ss) = Some ss"
  by (induction ss) auto

lemma fold_key_fields [simp]:
  "fold_key ''Hash'' = ''hash''" "fold_key ''List'' = ''list''"
  "fold_key ''ResourceName'' = ''resourcename''"
  by code_simp+

lemma dec_pointer_json [simp]: "dec_pointer (pointer_json p) = Some p"
  by (cases p) (simp_all add: pointer_json_def device_json_def dec_field_def zero_Device_def
      Let_def del: fold_key.simps)

lemma dec_members_json:
  "amap_ok (m @ kvs) \<Longrightarrow> dec_members m (map (\<lambda>(c, p). (c, pointer_json p)) kvs) = Some (m @ kvs)"
proof (induction kvs arbitrary: m)
  case (Cons kv kvs)
  obtain c p where kv: "kv = (c, p)" by force
  have "\<forall>q \<in> set m. fst q < c"
    using Cons.prems by (auto simp: amap_ok_def sorted_wrt_append kv)
  with Cons show ?case by (simp add: kv amap_put_last)
qed simp

lemma utf8_valid_field_names [simp]:
  "utf8_valid ''Hash''" "utf8_valid ''List''" "utf8_valid ''ResourceName''"
  by (rule ascii_utf8_valid, simp add: ascii_def)+

lemma json_ok_device: "device_ok d \<Longrightarrow> json_ok (device_json d)"
  by (auto simp: device_json_def device_ok_def list_all_iff simp del: utf8_valid.simps)

lemma json_ok_devmap: "devmap_ok m \<Longrightarrow> json_ok (devmap_json m)"
  unfolding devmap_json_def devmap_ok_def
  by (cases m) (auto simp: list_all_iff pointer_json_def json_ok_device split: option.splits)

lemma fold_max_bound: "\<forall>x \<in> set xs. x \<le> (d::nat) \<Longrightarrow> a \<le> d \<Longrightarrow> fold max xs a \<le> d"
  by (induction xs arbitrary: a) auto

lemma json_depth_devmap: "json_depth (devmap_json m) \<le> 3"
proof -
  have strs: "json_depth (JArr (map JStr ss)) \<le> 1" for ss
    using fold_max_bound [of "map (\<lambda>x. 0) ss" 0 0] by (simp add: o_def)
  have "json_depth (pointer_json p) \<le> 2" for p
    using strs by (cases p) (auto simp: pointer_json_def device_json_def)
  then show ?thesis
    by (auto simp: devmap_json_def split: option.splits intro!: fold_max_bound)
qed

lemma unmarshal_marshal:
  assumes "devmap_ok m"
  shows "unmarshal_devmap (json_text (devmap_json m)) (Some []) = Some m"
proof -
  have "json_parse (json_text (devmap_json m)) = Some (devmap_json m)"
    using json_parse_text [OF json_ok_devmap [OF assms]] json_depth_devmap [of m]
    by (simp add: max_depth_def)
  with assms dec_members_json [of "[]"] show ?thesis
    by (auto simp: unmarshal_devmap_def devmap_json_def devmap_ok_def split: option.splits)
qed

lemma NewPI_simps [simp]:
  "Namespace (NewPI ns n) = ns" "Name (NewPI ns n) = n" "ContainerDeviceMap (NewPI ns n) = Some []"
  by (simp_all add: NewPI_def)

lemma Key_plain: "plain_elem (Namespace i) \<Longrightarrow> plain_elem (Name i) \<Longrightarrow> Key i = Namespace i @ ''/'' @ Name i"
  by (simp add: Key_def path_join2)

lemma SetVal_Val: "devmap_ok (ContainerDeviceMap i) \<Longrightarrow> SetVal (NewPI ns n) (Val i) = Ok \<lparr>Namespace = ns, Name = n, ContainerDeviceMap = ContainerDeviceMap i\<rparr>"
  by (simp add: SetVal_def Val_def unmarshal_marshal NewPI_def)

lemma split_key:
  "plain_elem ns \<Longrightarrow> plain_elem n \<Longrightarrow> split_on CHR ''/'' (ns @ CHR ''/'' # n) = [ns, n]"
  by (simp add: plain_elem_def split_on_append split_on_fresh)

lemma key_inj:
  "plain_elem ns \<Longrightarrow> plain_elem n \<Longrightarrow> plain_elem ns' \<Longrightarrow> plain_elem n' \<Longrightarrow>
   ns @ ''/'' @ n = ns' @ ''/'' @ n' \<longleftrightarrow> ns = ns' \<and> n = n'"
  by (metis split_key append_Cons append_Nil list.inject)

lemma NewPIFromRaw_pod: "pod_ok i \<Longrightarrow> NewPIFromRaw (Key i) (Val i) = Ok i"
  by (simp add: NewPIFromRaw_def Key_plain split_key pod_ok_def SetVal_Val Let_def)

text \<open>A bound for the length of the value a record is stored as.\<close>

definition device_size :: "Device \<Rightarrow> nat" where
  "device_size d = 150 + 6 * (length (Hash d) + length (ResourceName d)) + (\<Sum>s \<leftarrow> DevList d. 6 * length s + 3)"

definition devmap_size :: "devmap \<Rightarrow> nat" where
  "devmap_size m = 2 + (\<Sum>(c, p) \<leftarrow> m. 6 * length c + 4 + (case p of None \<Rightarrow> 4 | Some d \<Rightarrow> device_size d))"

lemma length_device_text: "length (json_text (device_json d)) \<le> device_size d"
proof -
  have "length (join '','' (map (\<lambda>x. enc_string x) (DevList d))) \<le> (\<Sum>s \<leftarrow> DevList d. 6 * length s + 3)"
    by (rule order_trans [OF length_join]) (auto simp: o_def intro!: sum_list_mono order_trans [OF length_enc_string])
  then show ?thesis
    using length_enc_string [of "Hash d"] length_enc_string [of "ResourceName d"]
      length_enc_string [of "''Hash''"] length_enc_string [of "''List''"] length_enc_string [of "''ResourceName''"]
    by (simp add: device_json_def device_size_def o_def)
qed

lemma length_Val:
  assumes "ContainerDeviceMap i = Some m"
  shows "length (Val i) \<le> devmap_size m"
proof -
  have one: "length (enc_string c @ '':'' @ json_text (pointer_json p)) + 1
      \<le> 6 * length c + 4 + (case p of None \<Rightarrow> 4 | Some d \<Rightarrow> device_size d)" for c p
    using length_enc_string [of c] length_device_text [of "the p"] by (cases p) (simp_all add: pointer_json_def)
  have "(\<Sum>x \<leftarrow> map (\<lambda>(k, v). enc_string k @ '':'' @ json_text v) (map (\<lambda>(c, p). (c, pointer_json p)) m). length x + 1)
      \<le> (\<Sum>(c, p) \<leftarrow> m. 6 * length c + 4 + (case p of None \<Rightarrow> 4 | Some d \<Rightarrow> device_size d))"
  proof (induction m)
    case (Cons x m)
    then show ?case using one [of "fst x" "snd x"] by (simp add: case_prod_unfold)
  qed simp
  with length_join [of "'',''" "map (\<lambda>(k, v). enc_string k @ '':'' @ json_text v) (map (\<lambda>(c, p). (c, pointer_json p)) m)"]
  show ?thesis
    using assms by (simp add: Val_def devmap_json_def devmap_size_def)
qed

text \<open>A small pod, for the instances of the properties.\<close>

definition demo_device :: Device where
  "demo_device = \<lparr>Hash = ''3a5f01c7'', DevList = [''0-00'', ''0-01''], ResourceName = ''elasticgpu.io/gpu-core''\<rparr>"

definition demo_pod :: PodInfo where
  "demo_pod = \<lparr>Namespace = ''default'', Name = ''train-0'',
     ContainerDeviceMap = Some [(''main'', Some demo_device), (''side'', None)]\<rparr>"

lemma demo_pod_ok: "pod_ok demo_pod"
  by code_simp

section \<open>Properties\<close>

text \<open>
  C17: Encoding a pod's record into a database key and value and decoding the pair gives the
  same pod, for every namespace and name Kubernetes allows and every device map whose strings
  are valid UTF-8, nil maps and nil devices included.
\<close>

theorem NewPIFromRaw_Key_Val:
  assumes "pod_ok i"
  shows "NewPIFromRaw (Key i) (Val i) = Ok i"
  using assms by (rule NewPIFromRaw_pod)

theorem NewPIFromRaw_Key_Val_witness: "NewPIFromRaw (Key demo_pod) (Val demo_pod) = Ok demo_pod"
  by (rule NewPIFromRaw_Key_Val [OF demo_pod_ok])

end
