(* ===== verification/Bolt_Storage.thy ===== *)
theory Bolt_Storage
  imports Types_Pod
begin

text \<open>
  \<open>pkg/storage/storage.go\<close>: the agent's records, one key and value for each pod in the bucket
  \<open>root\<close> of a bolt database.  Of bolt the model has what the code relies on: named buckets
  ordered by key, transactions that are committed as a whole or not at all, the errors of \<open>Put\<close>
  and of a closed database; \<open>commit_fault\<close> is the environment (a commit that fails).
\<close>

type_synonym bucket = "(string, string) amap"

record boltdb =
  buckets :: "(string, bucket) amap"
  opened :: bool
  commit_fault :: "err option"

section \<open>Transactions\<close>

text \<open>\<open>DB.Update\<close>: an error of the function rolls back, as does a failing commit.\<close>

definition db_Update ::
  "((string, bucket) amap \<Rightarrow> unit res \<times> (string, bucket) amap) \<Rightarrow> boltdb \<Rightarrow> unit res \<times> boltdb"
where
  "db_Update f db =
     (if \<not> opened db then (Fail EDbClosed, db)
      else (case f (buckets db) of
              (Ok _, bs) \<Rightarrow>
                (case commit_fault db of
                   Some e \<Rightarrow> (Fail e, db)
                 | None \<Rightarrow> (Ok (), db\<lparr>buckets := bs\<rparr>))
            | (r, _) \<Rightarrow> (r, db)))"

definition db_View :: "((string, bucket) amap \<Rightarrow> 'a res) \<Rightarrow> boltdb \<Rightarrow> 'a res" where
  "db_View f db = (if \<not> opened db then Fail EDbClosed else f (buckets db))"

text \<open>A method of a bucket that is not there is a call on a nil pointer.\<close>

definition with_bucket ::
  "string \<Rightarrow> (bucket \<Rightarrow> unit res \<times> bucket) \<Rightarrow> (string, bucket) amap \<Rightarrow> unit res \<times> (string, bucket) amap"
where
  "with_bucket n f bs =
     (case map_of bs n of
        None \<Rightarrow> (Panic, bs)
      | Some b \<Rightarrow> (case f b of (r, b') \<Rightarrow> (r, amap_put n b' bs)))"

definition MaxKeySize :: nat where "MaxKeySize = 32768"
definition MaxValueSize :: nat where "MaxValueSize = 2147483646"

definition bucket_Put :: "string \<Rightarrow> string \<Rightarrow> bucket \<Rightarrow> unit res \<times> bucket" where
  "bucket_Put k v b =
     (if k = [] then (Fail EKeyRequired, b)
      else if length k > MaxKeySize then (Fail EKeyTooLarge, b)
      else if length v > MaxValueSize then (Fail EValueTooLarge, b)
      else (Ok (), amap_put k v b))"

definition bucket_Delete :: "string \<Rightarrow> bucket \<Rightarrow> unit res \<times> bucket" where
  "bucket_Delete k b = (Ok (), amap_del k b)"

section \<open>The storage operations\<close>

definition RootBucket :: string where "RootBucket = ''root''"

text \<open>
  \<open>NewStorage\<close>: the directory is made, the file opened with the buckets it holds (none in a new
  file), the root bucket created if it is missing.
\<close>

record disk_env =
  mkdir_err :: "err option"
  open_err :: "err option"
  image :: "(string, bucket) amap"
  disk_fault :: "err option"

definition NewStorage :: "disk_env \<Rightarrow> boltdb res" where
  "NewStorage env =
     (case mkdir_err env of
        Some e \<Rightarrow> Fail e
      | None \<Rightarrow>
          (case open_err env of
             Some e \<Rightarrow> Fail e
           | None \<Rightarrow>
               (let db = \<lparr>buckets = image env, opened = True, commit_fault = disk_fault env\<rparr>
                in case db_Update
                         (\<lambda>bs. (Ok (), case map_of bs RootBucket of
                                         None \<Rightarrow> amap_put RootBucket [] bs
                                       | Some _ \<Rightarrow> bs)) db of
                     (Ok _, db) \<Rightarrow> Ok db
                   | (Fail e, _) \<Rightarrow> Fail e
                   | (Panic, _) \<Rightarrow> Panic)))"

definition Storage_Delete :: "string \<Rightarrow> string \<Rightarrow> boltdb \<Rightarrow> unit res \<times> boltdb" where
  "Storage_Delete namespace name db =
     db_Update (with_bucket RootBucket (bucket_Delete (namespace @ ''/'' @ name))) db"

definition Save :: "PodInfo \<Rightarrow> boltdb \<Rightarrow> unit res \<times> boltdb" where
  "Save info db = db_Update (with_bucket RootBucket (bucket_Put (Key info) (Val info))) db"

definition Load :: "string \<Rightarrow> string \<Rightarrow> boltdb \<Rightarrow> PodInfo res" where
  "Load namespace name db =
     (let pod = NewPI namespace name
      in db_View
           (\<lambda>bs. case map_of bs RootBucket of
                   None \<Rightarrow> Panic
                 | Some b \<Rightarrow>
                     (case map_of b (Key pod) of
                        None \<Rightarrow> Fail (ENoSuchKey (Key pod))
                      | Some val \<Rightarrow> SetVal pod val)) db)"

definition LoadOrCreate :: "string \<Rightarrow> string \<Rightarrow> boltdb \<Rightarrow> PodInfo res" where
  "LoadOrCreate namespace name db =
     (case Load namespace name db of
        Ok pod \<Rightarrow> Ok pod
      | Fail _ \<Rightarrow> Ok (NewPI namespace name)
      | Panic \<Rightarrow> Panic)"

text \<open>
  \<open>ForEach\<close>: the callback \<open>f\<close> runs on each pod in key order, threading its own state \<open>s\<close>; the
  first error, of the decoding or of the callback, ends the loop.
\<close>

fun for_each_loop :: "(PodInfo \<Rightarrow> 's \<Rightarrow> unit res \<times> 's) \<Rightarrow> bucket \<Rightarrow> 's \<Rightarrow> unit res \<times> 's" where
  "for_each_loop f [] s = (Ok (), s)"
| "for_each_loop f ((k, v) # kvs) s =
     (case NewPIFromRaw k v of
        Fail e \<Rightarrow> (Fail e, s)
      | Panic \<Rightarrow> (Panic, s)
      | Ok pod \<Rightarrow>
          (case f pod s of
             (Ok _, s) \<Rightarrow> for_each_loop f kvs s
           | (r, s) \<Rightarrow> (r, s)))"

definition ForEach :: "(PodInfo \<Rightarrow> 's \<Rightarrow> unit res \<times> 's) \<Rightarrow> boltdb \<Rightarrow> 's \<Rightarrow> unit res \<times> 's" where
  "ForEach f db s =
     (if \<not> opened db then (Fail EDbClosed, s)
      else (case map_of (buckets db) RootBucket of
              None \<Rightarrow> (Panic, s)
            | Some b \<Rightarrow> for_each_loop f b s))"

definition Close :: "boltdb \<Rightarrow> err option \<times> boltdb" where
  "Close db = (None, db\<lparr>opened := False\<rparr>)"

section \<open>Well-formed databases\<close>

definition root_of :: "boltdb \<Rightarrow> bucket" where
  "root_of db = (case map_of (buckets db) RootBucket of None \<Rightarrow> [] | Some b \<Rightarrow> b)"

text \<open>Every entry of the root bucket is the key and value of a pod.\<close>

definition entry_ok :: "string \<times> string \<Rightarrow> bool" where
  "entry_ok kv \<longleftrightarrow>
     (case NewPIFromRaw (fst kv) (snd kv) of Ok i \<Rightarrow> pod_ok i \<and> kv = (Key i, Val i) | _ \<Rightarrow> False)"

definition store_ok :: "boltdb \<Rightarrow> bool" where
  "store_ok db \<longleftrightarrow>
     map_of (buckets db) RootBucket \<noteq> None \<and> amap_ok (root_of db) \<and> (\<forall>kv \<in> set (root_of db). entry_ok kv)"

definition usable :: "boltdb \<Rightarrow> bool" where
  "usable db \<longleftrightarrow> store_ok db \<and> opened db \<and> commit_fault db = None"

text \<open>A pod whose record bolt accepts.\<close>

definition storable :: "PodInfo \<Rightarrow> bool" where
  "storable i \<longleftrightarrow> pod_ok i \<and> length (Key i) \<le> MaxKeySize \<and> length (Val i) \<le> MaxValueSize"

text \<open>
  The abstract store: a finite map from the namespace and name of a pod to its record.
\<close>

definition pods_of :: "boltdb \<Rightarrow> string \<times> string \<Rightarrow> PodInfo option" where
  "pods_of db k =
     (case k of (ns, n) \<Rightarrow>
        if plain_elem ns \<and> plain_elem n then
          (case map_of (root_of db) (ns @ ''/'' @ n) of
             None \<Rightarrow> None
           | Some v \<Rightarrow> (case SetVal (NewPI ns n) v of Ok i \<Rightarrow> Some i | _ \<Rightarrow> None))
        else None)"

fun raw_pods :: "bucket \<Rightarrow> PodInfo list" where
  "raw_pods [] = []"
| "raw_pods ((k, v) # kvs) =
     (case NewPIFromRaw k v of Ok i \<Rightarrow> i # raw_pods kvs | _ \<Rightarrow> raw_pods kvs)"

definition pod_list :: "boltdb \<Rightarrow> PodInfo list" where
  "pod_list db = raw_pods (root_of db)"

text \<open>What running a callback over a list of pods does.\<close>

fun visit_pods :: "(PodInfo \<Rightarrow> 's \<Rightarrow> unit res \<times> 's) \<Rightarrow> PodInfo list \<Rightarrow> 's \<Rightarrow> unit res \<times> 's" where
  "visit_pods f [] s = (Ok (), s)"
| "visit_pods f (i # js) s = (case f i s of (Ok _, s) \<Rightarrow> visit_pods f js s | (r, s) \<Rightarrow> (r, s))"

section \<open>Lemmas\<close>

lemma db_Update_ready:
  "opened db \<Longrightarrow> commit_fault db = None \<Longrightarrow> f (buckets db) = (Ok (), bs) \<Longrightarrow>
   db_Update f db = (Ok (), db\<lparr>buckets := bs\<rparr>)"
  by (simp add: db_Update_def)

lemma db_Update_failed: "fst (db_Update f db) \<noteq> Ok () \<Longrightarrow> snd (db_Update f db) = db"
  by (auto simp: db_Update_def split: res.splits prod.splits option.splits)

lemma db_Update_frame [simp]:
  "opened (snd (db_Update f db)) = opened db" "commit_fault (snd (db_Update f db)) = commit_fault db"
  by (auto simp: db_Update_def split: res.splits prod.splits option.splits)

lemma with_bucket_root:
  assumes "map_of (buckets db) RootBucket \<noteq> None"
  shows "with_bucket RootBucket f (buckets db) =
    (fst (f (root_of db)), amap_put RootBucket (snd (f (root_of db))) (buckets db))"
  using assms by (auto simp: with_bucket_def root_of_def split: prod.split)

lemma root_of_put [simp]: "root_of (db\<lparr>buckets := amap_put RootBucket b bs\<rparr>) = b"
  by (simp add: root_of_def)

lemma SetVal_self: "pod_ok i \<Longrightarrow> SetVal (NewPI (Namespace i) (Name i)) (Val i) = Ok i"
  by (simp add: SetVal_Val pod_ok_def)

lemma pod_ok_Key: "pod_ok i \<Longrightarrow> Key i = Namespace i @ ''/'' @ Name i"
  by (simp add: pod_ok_def Key_plain)

lemma entry_ok_iff: "entry_ok kv \<longleftrightarrow> (\<exists>i. pod_ok i \<and> kv = (Key i, Val i))"
  using NewPIFromRaw_pod by (auto simp: entry_ok_def split: res.splits)

lemma entry_okD:
  assumes "entry_ok (k, v)"
  obtains i where "pod_ok i" "k = Namespace i @ ''/'' @ Name i" "v = Val i" "NewPIFromRaw k v = Ok i"
  using assms by (metis NewPIFromRaw_pod entry_ok_iff pod_ok_Key prod.inject)

lemma store_ok_putI:
  assumes "store_ok db" "pod_ok i"
  shows "store_ok (db\<lparr>buckets := amap_put RootBucket (amap_put (Key i) (Val i) (root_of db)) (buckets db)\<rparr>)"
proof -
  have "entry_ok kv" if "kv \<in> set (amap_put (Key i) (Val i) (root_of db))" for kv
    using that amap_put_set [of "Key i" "Val i" "root_of db"] assms
    by (auto simp: store_ok_def entry_ok_iff)
  with assms show ?thesis by (simp add: store_ok_def)
qed

lemma store_ok_delI:
  "store_ok db \<Longrightarrow> store_ok (db\<lparr>buckets := amap_put RootBucket (amap_del k (root_of db)) (buckets db)\<rparr>)"
  by (auto simp: store_ok_def amap_del_def [of k "root_of db"] amap_ok_del [unfolded amap_del_def])

lemma pods_of_put:
  assumes "pod_ok i"
  shows "pods_of (db\<lparr>buckets := amap_put RootBucket (amap_put (Key i) (Val i) (root_of db)) bs\<rparr>)
         = (pods_of db)((Namespace i, Name i) \<mapsto> i)"
proof (rule ext, clarify)
  fix ns n
  have i: "plain_elem (Namespace i)" "plain_elem (Name i)" using assms by (simp_all add: pod_ok_def)
  show "pods_of (db\<lparr>buckets := amap_put RootBucket (amap_put (Key i) (Val i) (root_of db)) bs\<rparr>) (ns, n)
      = ((pods_of db)((Namespace i, Name i) \<mapsto> i)) (ns, n)"
    using key_inj [of ns n "Namespace i" "Name i"] i SetVal_self [OF assms] pod_ok_Key [OF assms]
    by (auto simp: pods_of_def)
qed

lemma pods_of_del:
  assumes "plain_elem ns'" "plain_elem n'"
  shows "pods_of (db\<lparr>buckets := amap_put RootBucket (amap_del (ns' @ ''/'' @ n') (root_of db)) bs\<rparr>)
         = (pods_of db)((ns', n') := None)"
proof (rule ext, clarify)
  fix ns n
  show "pods_of (db\<lparr>buckets := amap_put RootBucket (amap_del (ns' @ ''/'' @ n') (root_of db)) bs\<rparr>) (ns, n)
      = ((pods_of db)((ns', n') := None)) (ns, n)"
    using key_inj [of ns n ns' n'] assms by (auto simp: pods_of_def)
qed

lemma Save_ready:
  assumes "usable db" "storable i"
  shows "Save i db =
    (Ok (), db\<lparr>buckets := amap_put RootBucket (amap_put (Key i) (Val i) (root_of db)) (buckets db)\<rparr>)"
proof -
  have "Key i \<noteq> []" using assms by (simp add: storable_def pod_ok_Key)
  with assms show ?thesis
    unfolding Save_def usable_def store_ok_def
    by (intro db_Update_ready) (auto simp: with_bucket_root [of db] bucket_Put_def storable_def)
qed

lemma Storage_Delete_ready:
  assumes "usable db"
  shows "Storage_Delete ns n db =
    (Ok (), db\<lparr>buckets := amap_put RootBucket (amap_del (ns @ ''/'' @ n) (root_of db)) (buckets db)\<rparr>)"
  using assms unfolding Storage_Delete_def usable_def store_ok_def
  by (intro db_Update_ready) (auto simp: with_bucket_root [of db] bucket_Delete_def)

lemma Load_read:
  assumes "store_ok db" "opened db" "plain_elem ns" "plain_elem n"
  shows "Load ns n db =
    (case pods_of db (ns, n) of Some i \<Rightarrow> Ok i | None \<Rightarrow> Fail (ENoSuchKey (ns @ ''/'' @ n)))"
proof -
  have root: "map_of (buckets db) RootBucket = Some (root_of db)" "opened db"
    using assms by (auto simp: store_ok_def root_of_def)
  have key: "Key (NewPI ns n) = ns @ ''/'' @ n" using assms by (simp add: Key_plain)
  show ?thesis
  proof (cases "map_of (root_of db) (ns @ ''/'' @ n)")
    case None
    with root key assms show ?thesis
      by (simp add: Load_def db_View_def Let_def pods_of_def)
  next
    case (Some v)
    then have "entry_ok (ns @ ''/'' @ n, v)"
      using assms by (auto simp: store_ok_def dest: map_of_SomeD)
    then obtain i where i: "pod_ok i" "ns @ ''/'' @ n = Namespace i @ ''/'' @ Name i" "v = Val i"
      by (rule entry_okD)
    then have "ns = Namespace i \<and> n = Name i"
      using key_inj assms by (simp add: pod_ok_def)
    with i root key Some assms SetVal_self show ?thesis
      by (simp add: Load_def db_View_def Let_def pods_of_def)
  qed
qed

lemma Load_view:
  "usable db \<Longrightarrow> plain_elem ns \<Longrightarrow> plain_elem n \<Longrightarrow>
   Load ns n db = (case pods_of db (ns, n) of Some i \<Rightarrow> Ok i | None \<Rightarrow> Fail (ENoSuchKey (ns @ ''/'' @ n)))"
  by (simp add: usable_def Load_read)

text \<open>The states a \<open>Save\<close> can leave; it cannot panic when there is a root bucket.\<close>

lemma Save_states:
  assumes "store_ok db"
  shows "snd (Save i db) = db
    \<or> snd (Save i db) = db\<lparr>buckets := amap_put RootBucket (amap_put (Key i) (Val i) (root_of db)) (buckets db)\<rparr>"
    and "fst (Save i db) \<noteq> Panic"
  using assms
  by (auto simp: Save_def db_Update_def store_ok_def with_bucket_root [of db] bucket_Put_def
      split: res.split option.split)

text \<open>The states a \<open>Delete\<close> can leave.\<close>

lemma Storage_Delete_states:
  assumes "store_ok db" "plain_elem ns" "plain_elem n"
  shows "snd (Storage_Delete ns n db) = db
      \<or> snd (Storage_Delete ns n db) = db\<lparr>buckets := amap_put RootBucket (amap_del (ns @ ''/'' @ n) (root_of db)) (buckets db)\<rparr>"
    and "pods_of (snd (Storage_Delete ns n db)) = pods_of db
      \<or> pods_of (snd (Storage_Delete ns n db)) = (pods_of db)((ns, n) := None)"
    and "fst (Storage_Delete ns n db) \<noteq> Panic"
proof -
  show states: "snd (Storage_Delete ns n db) = db
      \<or> snd (Storage_Delete ns n db) = db\<lparr>buckets := amap_put RootBucket (amap_del (ns @ ''/'' @ n) (root_of db)) (buckets db)\<rparr>"
    and "fst (Storage_Delete ns n db) \<noteq> Panic"
    using assms(1)
    by (auto simp: Storage_Delete_def db_Update_def store_ok_def with_bucket_root [of db] bucket_Delete_def
        split: res.split option.split)
  show "pods_of (snd (Storage_Delete ns n db)) = pods_of db
      \<or> pods_of (snd (Storage_Delete ns n db)) = (pods_of db)((ns, n) := None)"
    using states pods_of_del [OF assms(2,3)] by metis
qed

lemma for_each_visit:
  "\<forall>kv \<in> set b. entry_ok kv \<Longrightarrow> for_each_loop f b s = visit_pods f (raw_pods b) s"
proof (induction f b s rule: for_each_loop.induct)
  case (2 f k v kvs s)
  then have "entry_ok (k, v)" by simp
  then obtain i where "NewPIFromRaw k v = Ok i" by (rule entry_okD)
  with 2 show ?case by (auto split: prod.split res.split)
qed simp

lemma set_raw_pods: "set (raw_pods b) = {i. \<exists>(k, v) \<in> set b. NewPIFromRaw k v = Ok i}"
  by (induction b rule: raw_pods.induct) (auto split: res.split)

lemma ForEach_visit:
  "store_ok db \<Longrightarrow> opened db \<Longrightarrow> ForEach f db s = visit_pods f (pod_list db) s"
  unfolding store_ok_def ForEach_def pod_list_def
  by (subst for_each_visit [symmetric]) (auto simp: root_of_def)

lemma pod_list_view:
  assumes "store_ok db"
  shows "i \<in> set (pod_list db) \<longleftrightarrow> pods_of db (Namespace i, Name i) = Some i"
proof
  assume "i \<in> set (pod_list db)"
  then obtain k v where kv: "(k, v) \<in> set (root_of db)" "NewPIFromRaw k v = Ok i"
    by (auto simp: pod_list_def set_raw_pods)
  then have "entry_ok (k, v)" using assms by (auto simp: store_ok_def)
  then obtain j where "pod_ok j" "k = Namespace j @ ''/'' @ Name j" "v = Val j" "j = i"
    using kv(2) by (metis entry_okD res.inject(1))
  with kv assms show "pods_of db (Namespace i, Name i) = Some i"
    using SetVal_self [of i]
    by (auto simp: pods_of_def pod_ok_def store_ok_def amap_ok_distinct split: option.split
        dest: map_of_is_SomeI [rotated])
next
  assume view: "pods_of db (Namespace i, Name i) = Some i"
  then obtain v where v: "map_of (root_of db) (Namespace i @ ''/'' @ Name i) = Some v"
      "SetVal (NewPI (Namespace i) (Name i)) v = Ok i" "plain_elem (Namespace i)" "plain_elem (Name i)"
    by (auto simp: pods_of_def split: if_splits option.splits res.splits)
  then have "NewPIFromRaw (Namespace i @ ''/'' @ Name i) v = Ok i"
    by (simp add: NewPIFromRaw_def split_key Let_def)
  with map_of_SomeD [OF v(1)] show "i \<in> set (pod_list db)"
    by (auto simp: pod_list_def set_raw_pods)
qed

lemma raw_pods_distinct:
  "distinct (map fst b) \<Longrightarrow> \<forall>kv \<in> set b. entry_ok kv \<Longrightarrow>
   distinct (map (\<lambda>i. (Namespace i, Name i)) (raw_pods b))"
proof (induction b rule: raw_pods.induct)
  case (2 k v kvs)
  have entry: "k' = Namespace i @ ''/'' @ Name i"
    if "(k', v') \<in> set ((k, v) # kvs)" "NewPIFromRaw k' v' = Ok i" for k' v' i
    using that "2.prems"(2) by (metis entry_okD res.inject(1))
  have "(Namespace i, Name i) \<noteq> (Namespace j, Name j)"
    if "NewPIFromRaw k v = Ok i" "j \<in> set (raw_pods kvs)" for i j
    using that entry [of k v i] entry [of _ _ j] "2.prems"(1) by (force simp: set_raw_pods)
  with 2 show ?case by (auto split: res.split)
qed simp

lemma pod_list_distinct:
  "store_ok db \<Longrightarrow> distinct (map (\<lambda>i. (Namespace i, Name i)) (pod_list db))"
  by (simp add: pod_list_def store_ok_def amap_ok_distinct raw_pods_distinct)

section \<open>The contract of a pod store\<close>

text \<open>
  What the plugins and the garbage collector rely on in a \<open>Storage\<close>: it is a finite map from
  the namespace and name of a pod to its record (\<open>view\<close>).
\<close>

locale pod_store =
  fixes save :: "PodInfo \<Rightarrow> 'd \<Rightarrow> unit res \<times> 'd"
    and load :: "string \<Rightarrow> string \<Rightarrow> 'd \<Rightarrow> PodInfo res"
    and load_or_create :: "string \<Rightarrow> string \<Rightarrow> 'd \<Rightarrow> PodInfo res"
    and delete :: "string \<Rightarrow> string \<Rightarrow> 'd \<Rightarrow> unit res \<times> 'd"
    and view :: "'d \<Rightarrow> string \<times> string \<Rightarrow> PodInfo option"
    and ready :: "'d \<Rightarrow> bool"
    and fits :: "PodInfo \<Rightarrow> bool"
  assumes save_ok: "ready d \<Longrightarrow> fits i \<Longrightarrow> fst (save i d) = Ok ()"
    and save_view: "ready d \<Longrightarrow> fits i \<Longrightarrow> view (snd (save i d)) = (view d)((Namespace i, Name i) \<mapsto> i)"
    and save_ready: "ready d \<Longrightarrow> fits i \<Longrightarrow> ready (snd (save i d))"
    and delete_ok: "ready d \<Longrightarrow> fst (delete ns n d) = Ok ()"
    and delete_view: "ready d \<Longrightarrow> plain_elem ns \<Longrightarrow> plain_elem n \<Longrightarrow>
      view (snd (delete ns n d)) = (view d)((ns, n) := None)"
    and delete_ready: "ready d \<Longrightarrow> ready (snd (delete ns n d))"
    and load_some: "ready d \<Longrightarrow> plain_elem ns \<Longrightarrow> plain_elem n \<Longrightarrow> view d (ns, n) = Some i \<Longrightarrow> load ns n d = Ok i"
    and load_none: "ready d \<Longrightarrow> plain_elem ns \<Longrightarrow> plain_elem n \<Longrightarrow> view d (ns, n) = None \<Longrightarrow> \<exists>e. load ns n d = Fail e"
    and load_or_create_load: "load_or_create ns n d =
      (case load ns n d of Ok i \<Rightarrow> Ok i | Fail _ \<Rightarrow> Ok (NewPI ns n) | Panic \<Rightarrow> Panic)"
    and fits_plain: "fits i \<Longrightarrow> plain_elem (Namespace i) \<and> plain_elem (Name i)"
    and view_named: "view d (ns, n) = Some i \<Longrightarrow> Namespace i = ns \<and> Name i = n"
begin

lemma load_or_create_view:
  "ready d \<Longrightarrow> plain_elem ns \<Longrightarrow> plain_elem n \<Longrightarrow>
   load_or_create ns n d = Ok (case view d (ns, n) of Some i \<Rightarrow> i | None \<Rightarrow> NewPI ns n)"
  using load_some [of d ns n] load_none [of d ns n]
  by (auto simp: load_or_create_load split: option.split)

lemma load_after_save:
  "ready d \<Longrightarrow> fits i \<Longrightarrow> load (Namespace i) (Name i) (snd (save i d)) = Ok i"
  by (intro load_some save_ready) (auto simp: save_view dest: fits_plain)

lemma load_after_save_other:
  assumes "ready d" "fits i" "plain_elem ns" "plain_elem n" "(ns, n) \<noteq> (Namespace i, Name i)" "load ns n d = Ok j"
  shows "load ns n (snd (save i d)) = Ok j"
proof (intro load_some save_ready)
  have "view d (ns, n) = Some j"
    using assms load_some [of d ns n] load_none [of d ns n] by (cases "view d (ns, n)") auto
  then show "view (snd (save i d)) (ns, n) = Some j"
    using assms by (auto simp: save_view)
qed (use assms in auto)

lemma load_after_delete:
  "ready d \<Longrightarrow> plain_elem ns \<Longrightarrow> plain_elem n \<Longrightarrow> \<exists>e. load ns n (snd (delete ns n d)) = Fail e"
  by (intro load_none delete_ready) (auto simp: delete_view)

text \<open>The sequence a plugin performs: load or create the record, change its devices, save it.\<close>

lemma update_view:
  assumes "ready d" "plain_elem ns" "plain_elem n" "load_or_create ns n d = Ok pif" "fits (g pif)"
    and "Namespace (g pif) = Namespace pif" "Name (g pif) = Name pif"
  shows "view (snd (save (g pif) d)) = (view d)((ns, n) \<mapsto> g pif)"
proof -
  have "pif = (case view d (ns, n) of Some i \<Rightarrow> i | None \<Rightarrow> NewPI ns n)"
    using assms load_or_create_view by auto
  then have "Namespace pif = ns" "Name pif = n"
    using view_named [of d ns n] by (auto split: option.splits)
  with assms show ?thesis by (simp add: save_view)
qed

end

lemma usable_put: "usable db \<Longrightarrow> storable i \<Longrightarrow> usable (snd (Save i db))"
  using store_ok_putI [of db i] by (simp add: Save_ready) (simp add: usable_def storable_def)

lemma usable_del: "usable db \<Longrightarrow> usable (snd (Storage_Delete ns n db))"
  using store_ok_delI [of db] by (simp add: Storage_Delete_ready) (simp add: usable_def)

lemma SetVal_names:
  "SetVal i v = Ok j \<Longrightarrow> Namespace j = Namespace i \<and> Name j = Name i"
  by (auto simp: SetVal_def split: option.splits)

lemma Save_view:
  "usable db \<Longrightarrow> storable i \<Longrightarrow> fst (Save i db) = Ok ()"
  "usable db \<Longrightarrow> storable i \<Longrightarrow> pods_of (snd (Save i db)) = (pods_of db)((Namespace i, Name i) \<mapsto> i)"
  by (simp_all add: Save_ready storable_def pods_of_put)

lemma Storage_Delete_view:
  "usable db \<Longrightarrow> fst (Storage_Delete ns n db) = Ok ()"
  "usable db \<Longrightarrow> plain_elem ns \<Longrightarrow> plain_elem n \<Longrightarrow>
   pods_of (snd (Storage_Delete ns n db)) = (pods_of db)((ns, n) := None)"
  using pods_of_del [of ns n db] by (simp_all add: Storage_Delete_ready)

lemma pods_of_named: "pods_of db (ns, n) = Some i \<Longrightarrow> Namespace i = ns \<and> Name i = n"
  using SetVal_names by (fastforce simp: pods_of_def split: if_splits option.splits res.splits)

interpretation bolt: pod_store Save Load LoadOrCreate Storage_Delete pods_of usable storable
  by unfold_locales
    (auto simp: Save_view Storage_Delete_view Load_view LoadOrCreate_def usable_put usable_del pods_of_named
      storable_def [THEN iffD1] pod_ok_def [THEN iffD1] split: option.split)

text \<open>A database with an empty bucket, for the instances of the properties.\<close>

definition demo_db :: boltdb where
  "demo_db = \<lparr>buckets = [(RootBucket, [])], opened = True, commit_fault = None\<rparr>"

lemma demo_db_usable: "usable demo_db"
  by code_simp

lemma demo_pod_storable: "storable demo_pod"
proof -
  have "length (Key demo_pod) \<le> 100" "length (Val demo_pod) \<le> 200" by code_simp+
  then show ?thesis by (simp add: storable_def demo_pod_ok MaxKeySize_def MaxValueSize_def)
qed

section \<open>Properties\<close>

text \<open>
  C16: A record that has been saved is what \<open>Load\<close> returns for its pod, and every other pod loads
  as before: the database is a map from pods to records.
\<close>

theorem Load_after_Save:
  assumes "usable db" and "storable i" and "plain_elem ns" and "plain_elem n"
  shows "Load ns n (snd (Save i db)) =
    (if ns = Namespace i \<and> n = Name i then Ok i else Load ns n db)"
  using assms bolt.load_after_save [OF assms(1,2)] bolt.save_view [OF assms(1,2)]
  by (simp add: Load_view usable_put split: option.split)

theorem Load_after_Save_witness:
  "Load ''default'' ''train-0'' (snd (Save demo_pod demo_db)) = Ok demo_pod"
  using Load_after_Save [OF demo_db_usable demo_pod_storable, of "''default''" "''train-0''"]
  by (simp add: demo_pod_def plain_elem_def)

text \<open>
  After \<open>Delete\<close> the pod cannot be loaded, \<open>LoadOrCreate\<close> starts it afresh with an empty
  device map, and every other pod loads as before.
\<close>

lemma Load_after_Delete:
  assumes "usable db" and "plain_elem ns" and "plain_elem n" and "plain_elem ns'" and "plain_elem n'"
  defines "db' \<equiv> snd (Storage_Delete ns n db)"
  shows "Load ns n db' = Fail (ENoSuchKey (ns @ ''/'' @ n)) \<and> LoadOrCreate ns n db' = Ok (NewPI ns n)
    \<and> ((ns', n') \<noteq> (ns, n) \<longrightarrow> Load ns' n' db' = Load ns' n' db)"
  using assms bolt.delete_view [OF assms(1-3)]
  by (simp add: Load_view usable_del LoadOrCreate_def)

text \<open>
  A record survives closing the database and opening the file again: the buckets on disk
  are those of the last committed transaction.
\<close>

lemma reopen_Load:
  assumes "usable db" and "storable i" and "snd (Close (snd (Save i db))) = closed"
  shows "\<exists>db'. NewStorage \<lparr>mkdir_err = None, open_err = None, image = buckets closed, disk_fault = None\<rparr> = Ok db'
    \<and> Load (Namespace i) (Name i) db' = Ok i \<and> Save i closed = (Fail EDbClosed, closed)"
proof -
  let ?db' = "snd (Save i db)"
  have us: "usable ?db'" using assms usable_put by blast
  then have "map_of (buckets ?db') RootBucket \<noteq> None" by (simp add: usable_def store_ok_def)
  moreover have "?db' = \<lparr>buckets = buckets ?db', opened = True, commit_fault = None\<rparr>"
    using us by (simp add: usable_def)
  ultimately have "NewStorage \<lparr>mkdir_err = None, open_err = None, image = buckets closed, disk_fault = None\<rparr> = Ok ?db'"
    using assms(3) by (auto simp: NewStorage_def db_Update_def Close_def Let_def split: option.split)
  with bolt.load_after_save [OF assms(1,2)] assms(3) show ?thesis
    by (auto simp: Close_def Save_def db_Update_def)
qed

text \<open>
  C18: \<open>ForEach\<close> runs its callback on exactly the pods the database maps, each one once, until
  the callback fails.
\<close>

theorem ForEach_visits_all:
  assumes "usable db"
  shows "ForEach f db s = visit_pods f (pod_list db) s
    \<and> distinct (map (\<lambda>i. (Namespace i, Name i)) (pod_list db))
    \<and> (\<forall>i. i \<in> set (pod_list db) \<longleftrightarrow> pods_of db (Namespace i, Name i) = Some i)"
  using assms by (simp add: usable_def ForEach_visit pod_list_view pod_list_distinct)

theorem ForEach_visits_all_witness:
  "ForEach (\<lambda>i n. (Ok (), Suc n)) (snd (Save demo_pod demo_db)) 0 =
   visit_pods (\<lambda>i n. (Ok (), Suc n)) (pod_list (snd (Save demo_pod demo_db))) 0"
  by (rule ForEach_visits_all [OF usable_put [OF demo_db_usable demo_pod_storable], THEN conjunct1])

text \<open>
  A \<open>Save\<close> that fails, whatever the reason, leaves the database as it was.
\<close>

theorem Save_atomic: "fst (Save i db) \<noteq> Ok () \<Longrightarrow> snd (Save i db) = db"
  unfolding Save_def by (rule db_Update_failed)

end
