(* ===== verification/Kube_Locator.thy ===== *)
theory Kube_Locator
  imports Types_Pod
begin

text \<open>
  \<open>pkg/kube/locator.go\<close>: finding the container a set of devices was given to, from the answer of
  the kubelet's pod-resources service (the messages of \<open>pkg/podresources/v1alpha1\<close>).  The gRPC
  connection is the environment: the outcome of dialling and of the remote call are arguments.
\<close>

section \<open>The messages of the pod-resources service\<close>

record ContainerDevices =
  cd_ResourceName :: string
  cd_DeviceIds :: "string list"

record ContainerResources =
  cr_Name :: string
  cr_Devices :: "ContainerDevices list"

record PodResources =
  pr_Name :: string
  pr_Namespace :: string
  pr_Containers :: "ContainerResources list"

type_synonym ListPodResourcesResponse = "PodResources list"

section \<open>The locator\<close>

record KubeletDeviceLocator =
  loc_err :: "err option"
  loc_resource :: string
  loc_client :: bool  \<comment> \<open>a client has been made\<close>

text \<open>\<open>NewKubeletDeviceLocator\<close>: \<open>dial\<close> is the error of \<open>GetClient\<close>, which yields no client then.\<close>

definition NewKubeletDeviceLocator :: "string \<Rightarrow> err option \<Rightarrow> KubeletDeviceLocator" where
  "NewKubeletDeviceLocator resource dial =
     \<lparr>loc_err = dial, loc_resource = resource, loc_client = (dial = None)\<rparr>"

text \<open>
  The loop over the devices of one container: \<open>None\<close> when the function returns the container
  from within it, otherwise the IDs gathered for the case of one ID in each entry.
\<close>

fun scan_devices :: "Device \<Rightarrow> string \<Rightarrow> ContainerDevices list \<Rightarrow> string list \<Rightarrow> string list option" where
  "scan_devices devices res [] deviceIds = Some deviceIds"
| "scan_devices devices res (r # rs) deviceIds =
     (if cd_ResourceName r = res then
        if Device_Equals devices (NewDevice (cd_DeviceIds r) (cd_ResourceName r)) then None
        else scan_devices devices res rs (deviceIds @ cd_DeviceIds r)
      else scan_devices devices res rs deviceIds)"

fun scan_containers :: "Device \<Rightarrow> string \<Rightarrow> PodResources \<Rightarrow> ContainerResources list \<Rightarrow> PodContainer option" where
  "scan_containers devices res pod [] = None"
| "scan_containers devices res pod (c # cs) =
     (let here = \<lparr>pc_Namespace = pr_Namespace pod, pc_Name = pr_Name pod, pc_Container = cr_Name c\<rparr>
      in case scan_devices devices res (cr_Devices c) [] of
           None \<Rightarrow> Some here
         | Some deviceIds \<Rightarrow>
             if Device_Equals devices (NewDevice deviceIds res) then Some here
             else scan_containers devices res pod cs)"

fun scan_pods :: "Device \<Rightarrow> string \<Rightarrow> PodResources list \<Rightarrow> PodContainer option" where
  "scan_pods devices res [] = None"
| "scan_pods devices res (p # ps) =
     (case scan_containers devices res p (pr_Containers p) of
        Some pc \<Rightarrow> Some pc
      | None \<Rightarrow> scan_pods devices res ps)"

text \<open>
  \<open>Locate\<close>: after an earlier error the locator dials again; an error of the call is remembered.
\<close>

definition Locate ::
  "err option \<Rightarrow> err + ListPodResourcesResponse \<Rightarrow> Device \<Rightarrow> KubeletDeviceLocator
   \<Rightarrow> PodContainer res \<times> KubeletDeviceLocator"
where
  "Locate dial answer devices k =
     (let k' = (if loc_err k \<noteq> None then k\<lparr>loc_err := dial, loc_client := (dial = None)\<rparr> else k)
      in case loc_err k' of
           Some e \<Rightarrow> (Fail e, k')
         | None \<Rightarrow>
             (if \<not> loc_client k' then (Panic, k')
              else case answer of
                     Inl e \<Rightarrow> (Fail e, k'\<lparr>loc_err := Some e\<rparr>)
                   | Inr response \<Rightarrow>
                       (case scan_pods devices (loc_resource k') response of
                          Some pc \<Rightarrow> (Ok pc, k')
                        | None \<Rightarrow> (Fail ENoSuchPod, k'))))"

text \<open>\<open>List\<close>: one record for each pod, with the last matching entry of each container.\<close>

fun list_devices :: "string \<Rightarrow> string \<Rightarrow> ContainerDevices list \<Rightarrow> devmap \<Rightarrow> devmap" where
  "list_devices res cname [] m = m"
| "list_devices res cname (r # rs) m =
     list_devices res cname rs
       (if cd_ResourceName r = res then amap_put cname (Some (NewDevice (cd_DeviceIds r) res)) m else m)"

fun list_containers :: "string \<Rightarrow> ContainerResources list \<Rightarrow> devmap \<Rightarrow> devmap" where
  "list_containers res [] m = m"
| "list_containers res (c # cs) m =
     list_containers res cs (list_devices res (cr_Name c) (cr_Devices c) m)"

definition list_pod :: "string \<Rightarrow> PodResources \<Rightarrow> PodInfo" where
  "list_pod res p =
     (NewPI (pr_Namespace p) (pr_Name p))
       \<lparr>ContainerDeviceMap := Some (list_containers res (pr_Containers p) [])\<rparr>"

definition Locator_List :: "err + ListPodResourcesResponse \<Rightarrow> KubeletDeviceLocator \<Rightarrow> PodInfo list res" where
  "Locator_List answer k =
     (if \<not> loc_client k then Panic
      else case answer of Inl e \<Rightarrow> Fail e | Inr ans \<Rightarrow> Ok (map (list_pod (loc_resource k)) ans))"

text \<open>
  The connections that are open after a call: a new one is made before the old one is closed, and
  only \<open>Close\<close> closes one, the last.
\<close>

definition Locate_conns :: "err option \<Rightarrow> KubeletDeviceLocator \<Rightarrow> nat \<Rightarrow> nat" where
  "Locate_conns dial k conns = (if loc_err k \<noteq> None \<and> dial = None then Suc conns else conns)"

definition Locator_Close :: "err option \<Rightarrow> KubeletDeviceLocator \<Rightarrow> nat \<Rightarrow> unit res \<times> nat" where
  "Locator_Close close k conns =
     (if \<not> loc_client k then (Panic, conns)
      else (case close of Some e \<Rightarrow> Fail e | None \<Rightarrow> Ok (), conns - 1))"

fun locate_calls ::
  "(err option \<times> (err + ListPodResourcesResponse) \<times> Device) list \<Rightarrow> KubeletDeviceLocator \<times> nat
   \<Rightarrow> KubeletDeviceLocator \<times> nat"
where
  "locate_calls [] s = s"
| "locate_calls ((dial, answer, d) # cs) (k, conns) =
     locate_calls cs (snd (Locate dial answer d k), Locate_conns dial k conns)"

section \<open>The search as a specification\<close>

text \<open>
  The containers of an answer in its order, each with the ID lists of its entries for the
  resource; a container matches when one entry, or all of them together, hold exactly the IDs.
\<close>

definition entries_of :: "string \<Rightarrow> ContainerResources \<Rightarrow> string list list" where
  "entries_of res c = map cd_DeviceIds (filter (\<lambda>r. cd_ResourceName r = res) (cr_Devices c))"

definition holders :: "string \<Rightarrow> ListPodResourcesResponse \<Rightarrow> (PodContainer \<times> string list list) list" where
  "holders res ps =
     concat (map (\<lambda>p. map (\<lambda>c. (\<lparr>pc_Namespace = pr_Namespace p, pc_Name = pr_Name p, pc_Container = cr_Name c\<rparr>,
                                  entries_of res c)) (pr_Containers p)) ps)"

definition holds :: "string list \<Rightarrow> string list list \<Rightarrow> bool" where
  "holds ids es \<longleftrightarrow> (\<exists>e \<in> set es. mset e = mset ids) \<or> mset (concat es) = mset ids"

lemma scan_devices_None:
  "scan_devices (NewDevice ids res) res rs acc = None \<longleftrightarrow>
   (\<exists>r \<in> set rs. cd_ResourceName r = res \<and> mset (cd_DeviceIds r) = mset ids)"
  by (induction rs arbitrary: acc) (auto simp: NewDevice_eq_iff)

lemma scan_devices_Some:
  "scan_devices d res rs acc = Some ids' \<Longrightarrow>
   ids' = acc @ concat (map cd_DeviceIds (filter (\<lambda>r. cd_ResourceName r = res) rs))"
proof (induction rs arbitrary: acc)
  case (Cons r rs)
  then show ?case
    using Cons.IH [of "acc @ cd_DeviceIds r"] Cons.IH [of acc] by (simp split: if_splits)
qed simp

lemma holds_scan:
  "holds ids (entries_of res c) \<longleftrightarrow>
   (case scan_devices (NewDevice ids res) res (cr_Devices c) [] of
      None \<Rightarrow> True | Some ids' \<Rightarrow> NewDevice ids res = NewDevice ids' res)"
proof (cases "scan_devices (NewDevice ids res) res (cr_Devices c) []")
  case None
  then have "\<exists>r \<in> set (cr_Devices c). cd_ResourceName r = res \<and> mset (cd_DeviceIds r) = mset ids"
    by (simp only: scan_devices_None)
  then have "\<exists>e \<in> set (entries_of res c). mset e = mset ids" by (auto simp: entries_of_def)
  with None show ?thesis by (simp add: holds_def)
next
  case (Some ids')
  then have "\<not> (\<exists>r \<in> set (cr_Devices c). cd_ResourceName r = res \<and> mset (cd_DeviceIds r) = mset ids)"
    by (metis scan_devices_None option.distinct(1))
  then have "\<not> (\<exists>e \<in> set (entries_of res c). mset e = mset ids)" by (auto simp: entries_of_def)
  with Some scan_devices_Some [OF Some] show ?thesis
    by (auto simp: holds_def entries_of_def NewDevice_eq_iff)
qed

lemma scan_containers_find:
  "scan_containers (NewDevice ids res) res p cs =
   map_option fst (find (\<lambda>h. holds ids (snd h))
     (map (\<lambda>c. (\<lparr>pc_Namespace = pr_Namespace p, pc_Name = pr_Name p, pc_Container = cr_Name c\<rparr>, entries_of res c)) cs))"
  by (induction cs) (auto simp: Let_def holds_scan split: option.split)

lemma find_append: "find P (xs @ ys) = (case find P xs of Some x \<Rightarrow> Some x | None \<Rightarrow> find P ys)"
  by (induction xs) auto

lemma scan_pods_find:
  "scan_pods (NewDevice ids res) res ps = map_option fst (find (\<lambda>h. holds ids (snd h)) (holders res ps))"
  by (induction ps) (auto simp: holders_def scan_containers_find find_append split: option.split)

text \<open>Each device of the resource is listed once in the whole answer.\<close>

definition exclusive :: "string \<Rightarrow> ListPodResourcesResponse \<Rightarrow> bool" where
  "exclusive res ps \<longleftrightarrow> distinct (concat (map (concat \<circ> snd) (holders res ps)))"

lemma distinct_concat_share:
  "distinct (concat (map f xs)) \<Longrightarrow> x \<in> set xs \<Longrightarrow> y \<in> set xs \<Longrightarrow> a \<in> set (f x) \<Longrightarrow> a \<in> set (f y) \<Longrightarrow> x = y"
  by (induction xs) auto

lemma holds_set: "holds ids es \<Longrightarrow> set ids \<subseteq> set (concat es)"
  by (auto simp: holds_def dest: mset_eq_setD)

lemma Locate_find:
  assumes "loc_err k = None" and "loc_client k"
  shows "Locate dial (Inr response) (NewDevice ids (loc_resource k)) k =
    ((case find (\<lambda>h. holds ids (snd h)) (holders (loc_resource k) response) of
        Some (pc, _) \<Rightarrow> Ok pc | None \<Rightarrow> Fail ENoSuchPod), k)"
  using assms by (auto simp: Locate_def scan_pods_find split: option.split)

lemma find_holder:
  assumes "loc_err k = None" and "loc_client k"
    and "exclusive (loc_resource k) response"
    and "(pc, es) \<in> set (holders (loc_resource k) response)"
    and "holds ids es" and "ids \<noteq> []"
  shows "Locate dial (Inr response) (NewDevice ids (loc_resource k)) k = (Ok pc, k)"
proof -
  let ?hs = "holders (loc_resource k) response"
  obtain pc' es' where found: "find (\<lambda>h. holds ids (snd h)) ?hs = Some (pc', es')"
    using assms(4,5) by (cases "find (\<lambda>h. holds ids (snd h)) ?hs") (auto simp: find_None_iff)
  then have h: "(pc', es') \<in> set ?hs" "holds ids es'"
    by (auto simp: find_Some_iff in_set_conv_nth) (metis fst_conv nth_mem snd_conv)
  obtain a where "a \<in> set ids" using assms(6) by (cases ids) auto
  then have "a \<in> set (concat es)" "a \<in> set (concat es')"
    using holds_set assms(5) h(2) by blast+
  then have "(pc', es') = (pc, es)"
    using distinct_concat_share [of "concat \<circ> snd" ?hs "(pc', es')" "(pc, es)" a] assms(3,4) h(1)
    by (simp add: exclusive_def)
  with found assms(1,2) show ?thesis by (simp add: Locate_find)
qed

text \<open>An answer of the kubelet of version 1.21, for the instances of the properties.\<close>

definition demo_locator :: KubeletDeviceLocator where
  "demo_locator = NewKubeletDeviceLocator ''elasticgpu.io/gpu-core'' None"

definition demo_answer :: ListPodResourcesResponse where
  "demo_answer =
     [\<lparr>pr_Name = ''train-0'', pr_Namespace = ''default'',
       pr_Containers =
         [\<lparr>cr_Name = ''main'',
           cr_Devices =
             [\<lparr>cd_ResourceName = ''elasticgpu.io/gpu-core'', cd_DeviceIds = [''0-01'']\<rparr>,
              \<lparr>cd_ResourceName = ''elasticgpu.io/gpu-core'', cd_DeviceIds = [''0-00'']\<rparr>]\<rparr>]\<rparr>]"

definition demo_container :: PodContainer where
  "demo_container = \<lparr>pc_Namespace = ''default'', pc_Name = ''train-0'', pc_Container = ''main''\<rparr>"

lemma demo_locator_simps [simp]:
  "loc_err demo_locator = None" "loc_client demo_locator" "loc_resource demo_locator = ''elasticgpu.io/gpu-core''"
  by (simp_all add: demo_locator_def NewKubeletDeviceLocator_def)

lemma demo_holder:
  "(demo_container, [[''0-01''], [''0-00'']]) \<in> set (holders ''elasticgpu.io/gpu-core'' demo_answer)"
  "exclusive ''elasticgpu.io/gpu-core'' demo_answer"
  "holds [''0-00'', ''0-01''] [[''0-01''], [''0-00'']]"
  by (simp_all add: demo_answer_def holders_def entries_of_def demo_container_def exclusive_def holds_def)

section \<open>Properties\<close>

text \<open>
  C14: \<open>Locate\<close> returns the first container, in the order of the kubelet's answer, that has an
  entry with exactly the requested devices or whose entries together are exactly these
  devices, and the error \<open>not such pod\<close> when there is none; entries of other resources are
  ignored.
\<close>

theorem Locate_refines_find:
  assumes "loc_err k = None" and "loc_client k"
  shows "Locate dial (Inr response) (NewDevice ids (loc_resource k)) k =
    ((case find (\<lambda>h. holds ids (snd h)) (holders (loc_resource k) response) of
        Some (pc, _) \<Rightarrow> Ok pc | None \<Rightarrow> Fail ENoSuchPod), k)"
  using assms by (rule Locate_find)

theorem Locate_refines_find_witness:
  "fst (Locate None (Inr []) (NewDevice [''0-00''] (loc_resource demo_locator)) demo_locator) = Fail ENoSuchPod"
  using Locate_refines_find [of demo_locator None "[]" "[''0-00'']"] by (simp add: holders_def)

text \<open>
  C15: When the kubelet lists each device once, a container that holds exactly the requested
  devices is the one found, whether the kubelet reports its devices in one entry (before 1.21)
  or in one entry each, and in whatever order it was asked for them.
\<close>

theorem Locate_finds_holder:
  assumes "loc_err k = None" and "loc_client k"
    and "exclusive (loc_resource k) response"
    and "(pc, es) \<in> set (holders (loc_resource k) response)"
    and "holds ids es" and "ids \<noteq> []"
  shows "fst (Locate dial (Inr response) (NewDevice ids (loc_resource k)) k) = Ok pc"
  by (simp only: find_holder [OF assms] fst_conv)

theorem Locate_finds_holder_witness:
  "fst (Locate None (Inr demo_answer) (NewDevice [''0-00'', ''0-01''] (loc_resource demo_locator)) demo_locator)
     = Ok demo_container"
  using Locate_finds_holder [of demo_locator demo_answer demo_container "[[''0-01''], [''0-00'']]" "[''0-00'', ''0-01'']" None]
  by (simp add: demo_holder)

text \<open>
  A locator that has failed is not stuck: its next call dials again, and when the kubelet
  can be reached it answers as a fresh locator does; a call that fails is remembered, so that
  the call after it dials.
\<close>

lemma Locate_recovers:
  "Locate None answer d (k\<lparr>loc_err := Some e\<rparr>) =
     Locate None answer d (NewKubeletDeviceLocator (loc_resource k) None)
   \<and> (loc_err (snd (Locate (Some e') answer d (k\<lparr>loc_err := Some e\<rparr>))) = Some e')
   \<and> (loc_client k \<longrightarrow> loc_err (snd (Locate dial (Inl e') d (k\<lparr>loc_err := None\<rparr>))) = Some e')"
  by (cases k) (auto simp: Locate_def NewKubeletDeviceLocator_def split: sum.split option.split)

text \<open>Each answer that is an error costs a connection: the next call opens another.\<close>

lemma failed_answers_leak_connections:
  assumes "loc_client k"
  shows "snd (locate_calls (replicate (Suc n) (None, Inl e, d)) (k\<lparr>loc_err := None\<rparr>, conns)) = conns + n"
proof -
  have failed: "snd (Locate None (Inl e) d k') = k'\<lparr>loc_err := Some e\<rparr>" if "loc_client k'" for k'
    using that by (cases "loc_err k'") (simp_all add: Locate_def)
  have "snd (locate_calls (replicate n (None, Inl e, d)) (k'\<lparr>loc_err := Some e\<rparr>, conns)) = conns + n"
    if "loc_client k'" for k' conns
    using that by (induction n arbitrary: conns) (simp_all add: failed Locate_conns_def)
  with assms failed [of "k\<lparr>loc_err := None\<rparr>"] show ?thesis by (simp add: Locate_conns_def)
qed

section \<open>What the handlers rely on\<close>

text \<open>
  A locator that is ready stays so over any call, whatever it is answered, and a container it
  returns is one of the answer.
\<close>

locale device_locator =
  fixes locate :: "err option \<Rightarrow> 'a \<Rightarrow> Device \<Rightarrow> 'k \<Rightarrow> PodContainer res \<times> 'k"
    and ready :: "'k \<Rightarrow> bool"
    and listed :: "'a \<Rightarrow> PodContainer \<Rightarrow> bool"
  assumes ready_locate: "ready k \<Longrightarrow> locate dial a d k = (x, k') \<Longrightarrow> x \<noteq> Panic \<and> ready k'"
    and located_listed: "ready k \<Longrightarrow> locate dial a d k = (Ok pc, k') \<Longrightarrow> listed a pc"
begin

lemma ready_calls: "ready k \<Longrightarrow> ready (fold (\<lambda>(dial, a, d) k. snd (locate dial a d k)) calls k)"
proof (induction calls arbitrary: k)
  case (Cons c calls)
  obtain dial a d where c: "c = (dial, a, d)" by (cases c)
  have "ready (snd (locate dial a d k))"
    using ready_locate [OF Cons.prems] by (cases "locate dial a d k") simp
  with Cons.IH show ?case by (simp add: c)
qed simp

lemma located_after:
  assumes "ready k" "k' = fold (\<lambda>(dial, a, d) k. snd (locate dial a d k)) calls k"
  shows "fst (locate dial a d k') \<noteq> Panic \<and> (\<forall>pc. fst (locate dial a d k') = Ok pc \<longrightarrow> listed a pc)"
proof -
  have "ready k'" using ready_calls [OF assms(1)] assms(2) by blast
  then show ?thesis
    using ready_locate located_listed by (cases "locate dial a d k'") auto
qed

end

definition locator_ready :: "KubeletDeviceLocator \<Rightarrow> bool" where
  "locator_ready k \<longleftrightarrow> (loc_err k = None \<longrightarrow> loc_client k)"

definition listed_in :: "err + ListPodResourcesResponse \<Rightarrow> PodContainer \<Rightarrow> bool" where
  "listed_in answer pc \<longleftrightarrow>
     (case answer of
        Inl e \<Rightarrow> False
      | Inr ps \<Rightarrow>
          \<exists>p \<in> set ps. pc_Namespace pc = pr_Namespace p \<and> pc_Name pc = pr_Name p
            \<and> (\<exists>c \<in> set (pr_Containers p). pc_Container pc = cr_Name c))"

lemma scan_containers_from:
  "scan_containers d res p cs = Some pc \<Longrightarrow>
   pc_Namespace pc = pr_Namespace p \<and> pc_Name pc = pr_Name p \<and> (\<exists>c \<in> set cs. pc_Container pc = cr_Name c)"
  by (induction cs) (auto simp: Let_def split: option.splits if_splits)

lemma scan_pods_from: "scan_pods d res ps = Some pc \<Longrightarrow> listed_in (Inr ps) pc"
  by (induction ps) (auto simp: listed_in_def dest!: scan_containers_from split: option.splits)

interpretation kubelet: device_locator Locate locator_ready listed_in
  by unfold_locales
    (auto simp: Locate_def Let_def locator_ready_def scan_pods_from split: if_splits option.splits sum.splits)

lemma locate_calls_fold:
  "fst (locate_calls calls (k, n)) = fold (\<lambda>(dial, answer, d) k. snd (Locate dial answer d k)) calls k"
  by (induction calls arbitrary: k n) auto

text \<open>Whatever has happened to a locator since it was made, its next call does not panic.\<close>

lemma locator_never_panics:
  "fst (Locate dial' answer d (fst (locate_calls calls (NewKubeletDeviceLocator res dial, n)))) \<noteq> Panic"
proof -
  have "locator_ready (NewKubeletDeviceLocator res dial)"
    by (simp add: locator_ready_def NewKubeletDeviceLocator_def)
  from kubelet.located_after [OF this refl] show ?thesis unfolding locate_calls_fold by blast
qed

end
