(* ===== verification/Kube_Sitter.thy ===== *)
theory Kube_Sitter
  imports Go_Strings
begin

text \<open>
  \<open>pkg/kube/sitter.go\<close>: the agent's view of the pods of its node.  The informer's cache and the
  API server are the environment: \<open>lister\<close> is what the cache holds, \<open>api_pods\<close> what the server
  has, \<open>api_fault\<close> an error of the call other than the object's absence.  Of a pod the agent only
  reads the annotations.
\<close>

record Pod =
  Annotations :: "(string, string) amap"

record PodSitter =
  podInformer :: bool  \<comment> \<open>the informer is not nil\<close>
  synced :: bool
  selector :: string
  lister :: "string \<times> string \<Rightarrow> Pod option"
  api_pods :: "string \<times> string \<Rightarrow> Pod option"
  api_fault :: "string \<times> string \<Rightarrow> err option"

text \<open>\<open>fields.EscapeValue\<close> and the text of \<open>fields.OneTermEqualSelector\<close>.\<close>

definition EscapeValue :: "string \<Rightarrow> string" where
  "EscapeValue s =
     concat (map (\<lambda>c. if c = CHR 0x5C \<or> c = CHR '','' \<or> c = CHR ''='' then [CHR 0x5C, c] else [c]) s)"

definition NodeNameField :: string where "NodeNameField = ''spec.nodeName''"

definition nodeNameFilter :: "string \<Rightarrow> string" where
  "nodeNameFilter nodeName = NodeNameField @ ''='' @ EscapeValue nodeName"

definition NewSitter ::
  "string \<Rightarrow> (string \<times> string \<Rightarrow> Pod option) \<Rightarrow> (string \<times> string \<Rightarrow> err option) \<Rightarrow> PodSitter"
where
  "NewSitter nodeName pods fault =
     \<lparr>podInformer = True, synced = False, selector = nodeNameFilter nodeName,
      lister = (\<lambda>_. None), api_pods = pods, api_fault = fault\<rparr>"

definition HasSynced :: "PodSitter \<Rightarrow> bool" where
  "HasSynced p = (if \<not> podInformer p then False else synced p)"

definition GetPod :: "string \<Rightarrow> string \<Rightarrow> PodSitter \<Rightarrow> Pod res" where
  "GetPod namespace name p =
     (case lister p (namespace, name) of None \<Rightarrow> Fail ENotFound | Some pod \<Rightarrow> Ok pod)"

definition GetPodFromApiServer :: "string \<Rightarrow> string \<Rightarrow> PodSitter \<Rightarrow> Pod res" where
  "GetPodFromApiServer namespace name p =
     (case api_fault p (namespace, name) of
        Some e \<Rightarrow> Fail e
      | None \<Rightarrow> (case api_pods p (namespace, name) of None \<Rightarrow> Fail ENotFound | Some pod \<Rightarrow> Ok pod))"

text \<open>\<open>errors.IsNotFound\<close> on the error of a call.\<close>

fun IsNotFound :: "'a res \<Rightarrow> bool" where
  "IsNotFound (Fail e) \<longleftrightarrow> e = ENotFound"
| "IsNotFound _ \<longleftrightarrow> False"

section \<open>What the collector relies on\<close>

text \<open>
  The reads of a sitter: a pod the cache has is found there, and the server does not call a pod
  absent that it has or cannot tell of.
\<close>

locale sitter =
  fixes get_pod get_api :: "string \<Rightarrow> string \<Rightarrow> 's \<Rightarrow> 'p res"
    and cached served :: "'s \<Rightarrow> string \<Rightarrow> string \<Rightarrow> bool"
  assumes cached_found: "cached st ns n \<Longrightarrow> \<exists>pod. get_pod ns n st = Ok pod"
    and served_present: "served st ns n \<Longrightarrow> \<not> IsNotFound (get_api ns n st)"
begin

lemma absent_twice:
  assumes "\<forall>pod. get_pod ns n st \<noteq> Ok pod" "IsNotFound (get_api ns n st)"
  shows "\<not> cached st ns n \<and> \<not> served st ns n"
  using assms cached_found served_present by blast

end

definition in_cache :: "PodSitter \<Rightarrow> string \<Rightarrow> string \<Rightarrow> bool" where
  "in_cache st ns n \<longleftrightarrow> lister st (ns, n) \<noteq> None"

definition maybe_served :: "PodSitter \<Rightarrow> string \<Rightarrow> string \<Rightarrow> bool" where
  "maybe_served st ns n \<longleftrightarrow>
     (case api_fault st (ns, n) of None \<Rightarrow> api_pods st (ns, n) \<noteq> None | Some e \<Rightarrow> e \<noteq> ENotFound)"

interpretation kube: sitter GetPod GetPodFromApiServer in_cache maybe_served
  by unfold_locales
    (auto simp: GetPod_def GetPodFromApiServer_def in_cache_def maybe_served_def split: option.splits)

end
