(* ===== verification/Gpushare_Plugin.thy ===== *)
theory Gpushare_Plugin
  imports Gpu_Operator Bolt_Storage Kube_Locator Kube_Sitter
begin

text \<open>
  \<open>pkg/plugins/gpushare.go\<close> and the device plugin base of \<open>pkg/plugins/base.go\<close>: the devices the
  agent advertises for a GPU, the answer to an allocation, and \<open>PreStartContainer\<close>, which finds
  the container the kubelet gave a set of devices to, makes the links to the GPUs the scheduler
  chose for it and records the devices of the pod.
\<close>

section \<open>State\<close>

definition ResourceGPUCore :: string where "ResourceGPUCore = ''elasticgpu.io/gpu-core''"
definition ResourceGPUMemory :: string where "ResourceGPUMemory = ''elasticgpu.io/gpu-memory''"
definition GPUPercentEachCard :: nat where "GPUPercentEachCard = 100"
definition ElasticGPUContainerAnnotation :: string where
  "ElasticGPUContainerAnnotation = ''elasticgpu.io/container-%s''"
definition ElasticGPUAssumedAnnotation :: string where
  "ElasticGPUAssumedAnnotation = ''elasticgpu.io/assumed''"

text \<open>
  The shared state of the plugins: the fields of \<open>GPUPluginConfig\<close> that the operations use, and
  the host's file system, which the operator acts on.
\<close>

record agent =
  DeviceLocator :: "string \<Rightarrow> KubeletDeviceLocator option"
  Sitter :: PodSitter
  Storage :: boltdb
  Operator :: GPUOperator
  host :: host_fs

record pluginapi_Device =
  ID :: string
  Health :: string

record baseDevicePlugin =
  bp_ResourceName :: string
  bp_PreStartRequired :: bool
  bp_devices :: "pluginapi_Device list"

section \<open>The advertised devices\<close>

definition Healthy :: string where "Healthy = ''Healthy''"

text \<open>\<open>fmt.Sprintf("%d-%02d", i, j)\<close>.\<close>

definition device_id :: "nat \<Rightarrow> nat \<Rightarrow> string" where
  "device_id i j = itoa (int i) @ ''-'' @ fmt02d j"

definition card_devices :: "nat \<Rightarrow> nat \<Rightarrow> pluginapi_Device list" where
  "card_devices i n = map (\<lambda>j. \<lparr>ID = device_id i j, Health = Healthy\<rparr>) [0..<n]"

definition NewGPUShareCoreDevicePlugin :: "GPUOperator \<Rightarrow> nvml \<Rightarrow> baseDevicePlugin res" where
  "NewGPUShareCoreDevicePlugin oper nv =
     (case op_Devices oper nv of
        (_, Some e) \<Rightarrow> Fail e
      | (devs, None) \<Rightarrow>
          Ok \<lparr>bp_ResourceName = ResourceGPUCore, bp_PreStartRequired = False,
              bp_devices = concat (map (\<lambda>i. card_devices i GPUPercentEachCard) [0..<length devs])\<rparr>)"

definition NewGPUShareMemoryDevicePlugin :: "GPUOperator \<Rightarrow> nvml \<Rightarrow> baseDevicePlugin res" where
  "NewGPUShareMemoryDevicePlugin oper nv =
     (case op_Devices oper nv of
        (_, Some e) \<Rightarrow> Fail e
      | (devs, None) \<Rightarrow>
          Ok \<lparr>bp_ResourceName = ResourceGPUMemory, bp_PreStartRequired = False,
              bp_devices = concat (map (\<lambda>(i, d). card_devices i (unat (Memory d div 1024 div 1024)))
                             (enumerate 0 devs))\<rparr>)"

section \<open>Allocate\<close>

record DeviceSpec =
  ContainerPath :: string
  HostPath :: string
  Permissions :: string

record ContainerAllocateResponse =
  Envs :: "(string, string) amap"
  Devs :: "DeviceSpec list"

definition rwm :: "string \<Rightarrow> string \<Rightarrow> DeviceSpec" where
  "rwm c h = \<lparr>ContainerPath = c, HostPath = h, Permissions = ''rwm''\<rparr>"

definition nvidia_specs :: "DeviceSpec list" where
  "nvidia_specs =
     [rwm ''/host/dev/nvidiactl'' ''/dev/nvidiactl'',
      rwm ''/host/dev/nvidia-uvm'' ''/dev/nvidia-uvm'',
      rwm ''/host/dev/nvidia-uvm-tools'' ''/dev/nvidia-uvm-tools'']"

definition elastic_spec :: "string \<Rightarrow> nat \<Rightarrow> DeviceSpec" where
  "elastic_spec faker i =
     rwm (''/host/dev/elastic-gpu-'' @ faker @ ''-'' @ itoa (int i))
         (''/dev/elastic-gpu-'' @ faker @ ''-'' @ itoa (int i))"

definition gpu_envs :: "string \<Rightarrow> (string, string) amap" where
  "gpu_envs faker = [(''GPU'', faker), (''NVIDIA_VISIBLE_DEVICES'', ''none'')]"

text \<open>
  A request is the device IDs of each of its containers; the answer is always for one
  container.  The empty answer that accompanies an error is left out.
\<close>

definition Allocate_core :: "baseDevicePlugin \<Rightarrow> string list list \<Rightarrow> ContainerAllocateResponse list res" where
  "Allocate_core c request =
     (let devicesIDs = concat request
      in if length devicesIDs = 0 then Fail EDevicesEmpty
         else
           let faker = Hash (NewDevice devicesIDs (bp_ResourceName c));
               devices = nvidia_specs @
                 (if length devicesIDs > 100
                  then map (elastic_spec faker) [0..<length devicesIDs div 100]
                  else [elastic_spec faker 0])
           in Ok [\<lparr>Envs = gpu_envs faker, Devs = devices\<rparr>])"

definition Allocate_mem :: "baseDevicePlugin \<Rightarrow> string list list \<Rightarrow> ContainerAllocateResponse list res" where
  "Allocate_mem c request =
     (let devicesIDs = concat request
      in if length devicesIDs = 0 then Fail EDevicesEmpty
         else
           let faker = Hash (NewDevice devicesIDs (bp_ResourceName c))
           in Ok [\<lparr>Envs = gpu_envs faker, Devs = elastic_spec faker 0 # nvidia_specs\<rparr>])"

section \<open>PreStartContainer\<close>

text \<open>The kubelet as one call sees it: the error of dialling it and its answer.\<close>

record kubelet =
  dial_err :: "err option"
  answer :: "err + ListPodResourcesResponse"

text \<open>
  From the device list to the container and the value of its annotation: the locator, the
  sitter, the two annotations.
\<close>

definition locate_assumed ::
  "kubelet \<Rightarrow> Device \<Rightarrow> string \<Rightarrow> agent \<Rightarrow> (PodContainer \<times> string) res \<times> agent"
where
  "locate_assumed kl devices resName ag =
     (case DeviceLocator ag resName of
        None \<Rightarrow> (Panic, ag)
      | Some k \<Rightarrow>
          (case Locate (dial_err kl) (answer kl) devices k of
             (r, k') \<Rightarrow>
               let ag' = ag\<lparr>DeviceLocator := (DeviceLocator ag)(resName \<mapsto> k')\<rparr>
               in case r of
                    Panic \<Rightarrow> (Panic, ag')
                  | Fail e \<Rightarrow> (Fail e, ag')
                  | Ok cur \<Rightarrow>
                      (case GetPod (pc_Namespace cur) (pc_Name cur) (Sitter ag') of
                         Panic \<Rightarrow> (Panic, ag')
                       | Fail e \<Rightarrow> (Fail e, ag')
                       | Ok pod \<Rightarrow>
                           if map_of (Annotations pod) ElasticGPUAssumedAnnotation = None
                           then (Fail (ENoAnnotation ElasticGPUAssumedAnnotation), ag')
                           else
                             let containerAssumedKey =
                                   sprintf1 ElasticGPUContainerAnnotation (pc_Container cur)
                             in (case map_of (Annotations pod) containerAssumedKey of
                                   None \<Rightarrow> (Fail (ENoAnnotation containerAssumedKey), ag')
                                 | Some val \<Rightarrow> (Ok (cur, val), ag')))))"

text \<open>The loop that reads the GPU indexes of the annotation; \<open>None\<close> where \<open>Atoi\<close> fails.\<close>

fun parse_ids :: "string list \<Rightarrow> int list \<Rightarrow> int list option" where
  "parse_ids [] idInts = Some idInts"
| "parse_ids (s # ss) idInts =
     (case atoi s of None \<Rightarrow> None | Some i \<Rightarrow> parse_ids ss (idInts @ [i]))"

text \<open>\<open>fmt.Sprintf("%s-%d", hash, i)\<close>.\<close>

definition link_id :: "string \<Rightarrow> nat \<Rightarrow> string" where
  "link_id h i = h @ ''-'' @ itoa (int i)"

text \<open>The loop that makes the links, from index \<open>i\<close> on; the first error ends it.\<close>

fun create_loop :: "GPUOperator \<Rightarrow> string \<Rightarrow> nat \<Rightarrow> int list \<Rightarrow> host_fs \<Rightarrow> err option \<times> host_fs" where
  "create_loop oper h i [] fs = (None, fs)"
| "create_loop oper h i (g # gs) fs =
     (case op_Create oper g (link_id h i) fs of
        (Some e, fs) \<Rightarrow> (Some e, fs)
      | (None, fs) \<Rightarrow> create_loop oper h (Suc i) gs fs)"

text \<open>The loop of the deferred function that removes them again; its errors are logged only.\<close>

fun cleanup_loop :: "GPUOperator \<Rightarrow> string \<Rightarrow> nat \<Rightarrow> int list \<Rightarrow> host_fs \<Rightarrow> host_fs" where
  "cleanup_loop oper h i [] fs = fs"
| "cleanup_loop oper h i (g # gs) fs =
     cleanup_loop oper h (Suc i) gs (snd (op_Delete oper g (link_id h i) fs))"

text \<open>Recording the devices of a container; assigning into a nil map panics.\<close>

definition record_device :: "PodContainer \<Rightarrow> Device \<Rightarrow> boltdb \<Rightarrow> unit res \<times> boltdb" where
  "record_device cur devices db =
     (case LoadOrCreate (pc_Namespace cur) (pc_Name cur) db of
        Ok pif \<Rightarrow>
          (case ContainerDeviceMap pif of
             None \<Rightarrow> (Panic, db)
           | Some m \<Rightarrow>
               Save (pif\<lparr>ContainerDeviceMap := Some (amap_put (pc_Container cur) (Some devices) m)\<rparr>) db)
      | Fail e \<Rightarrow> (Fail e, db)
      | Panic \<Rightarrow> (Panic, db))"

text \<open>
  The end of both handlers: the links, the record, and the deferred clean-up when \<open>Save\<close> has
  failed.  The handler returns a nil error in that case too.
\<close>

definition link_and_record :: "PodContainer \<Rightarrow> Device \<Rightarrow> int list \<Rightarrow> agent \<Rightarrow> unit res \<times> agent" where
  "link_and_record cur devices idInts ag =
     (case create_loop (Operator ag) (Hash devices) 0 idInts (host ag) of
        (Some e, fs) \<Rightarrow> (Fail e, ag\<lparr>host := fs\<rparr>)
      | (None, fs) \<Rightarrow>
          (case record_device cur devices (Storage ag) of
             (Ok _, db) \<Rightarrow> (Ok (), ag\<lparr>host := fs, Storage := db\<rparr>)
           | (Fail e, db) \<Rightarrow>
               (Ok (), ag\<lparr>host := cleanup_loop (Operator ag) (Hash devices) 0 idInts fs, Storage := db\<rparr>)
           | (Panic, db) \<Rightarrow> (Panic, ag\<lparr>host := fs, Storage := db\<rparr>)))"

definition PreStartContainer_core ::
  "baseDevicePlugin \<Rightarrow> kubelet \<Rightarrow> string list \<Rightarrow> agent \<Rightarrow> unit res \<times> agent"
where
  "PreStartContainer_core c kl devicesIDs ag =
     (if length devicesIDs = 0 then (Fail EEmptyDeviceList, ag)
      else
        let devices = NewDevice devicesIDs (bp_ResourceName c)
        in case locate_assumed kl devices (bp_ResourceName c) ag of
             (Fail e, ag) \<Rightarrow> (Fail e, ag)
           | (Panic, ag) \<Rightarrow> (Panic, ag)
           | (Ok (cur, val), ag) \<Rightarrow>
               (case parse_ids (split_on CHR '','' val) [] of
                  None \<Rightarrow> (Fail (ENotIndex val), ag)
                | Some idInts \<Rightarrow> link_and_record cur devices idInts ag))"

definition PreStartContainer_mem ::
  "baseDevicePlugin \<Rightarrow> kubelet \<Rightarrow> string list \<Rightarrow> agent \<Rightarrow> unit res \<times> agent"
where
  "PreStartContainer_mem c kl devicesIDs ag =
     (if length devicesIDs = 0 then (Fail EEmptyDeviceList, ag)
      else
        let devices = NewDevice devicesIDs (bp_ResourceName c)
        in case locate_assumed kl devices (bp_ResourceName c) ag of
             (Fail e, ag) \<Rightarrow> (Fail e, ag)
           | (Panic, ag) \<Rightarrow> (Panic, ag)
           | (Ok (cur, val), ag) \<Rightarrow>
               (case atoi val of
                  None \<Rightarrow> (Fail (ENotIndex val), ag)
                | Some i \<Rightarrow> link_and_record cur devices [i] ag))"

section \<open>Lemmas: the advertised devices\<close>

lemma core_not_memory [simp]: "ResourceGPUCore \<noteq> ResourceGPUMemory" "ResourceGPUMemory \<noteq> ResourceGPUCore"
  by (simp_all add: ResourceGPUCore_def ResourceGPUMemory_def)

lemma device_id_inj [simp]: "device_id i j = device_id i' j' \<longleftrightarrow> i = i' \<and> j = j'"
proof
  assume "device_id i j = device_id i' j'"
  then have "split_on CHR ''-'' (device_id i j) = split_on CHR ''-'' (device_id i' j')" by simp
  moreover have "CHR ''-'' \<notin> set (fmt02d n)" for n
    using fmt02d_digits not_digit_chars(1) by blast
  ultimately show "i = i' \<and> j = j'"
    by (auto simp: device_id_def split_on_append split_on_fresh)
qed simp

definition all_cards :: "(nat \<Rightarrow> nat) \<Rightarrow> nat \<Rightarrow> pluginapi_Device list" where
  "all_cards f n = concat (map (\<lambda>i. card_devices i (f i)) [0..<n])"

lemma all_cards_Suc [simp]: "all_cards f (Suc n) = all_cards f n @ card_devices n (f n)"
  by (simp add: all_cards_def)

lemma all_cards_0 [simp]: "all_cards f 0 = []"
  by (simp add: all_cards_def)

lemma length_all_cards: "length (all_cards f n) = (\<Sum>i < n. f i)"
  by (induction n) (simp_all add: card_devices_def)

lemma all_cards_ids: "x \<in> set (map ID (all_cards f n)) \<longleftrightarrow> (\<exists>i < n. \<exists>j < f i. x = device_id i j)"
  by (induction n) (auto simp: card_devices_def less_Suc_eq)

lemma distinct_all_cards: "distinct (map ID (all_cards f n))"
proof (induction n)
  case (Suc n)
  have "distinct (map (device_id n) [0..<f n])" by (simp add: distinct_map inj_on_def)
  then have "distinct (map ID (card_devices n (f n)))" by (simp add: card_devices_def o_def)
  moreover have "set (map ID (all_cards f n)) \<inter> set (map ID (card_devices n (f n))) = {}"
    by (auto simp: card_devices_def) (metis all_cards_ids device_id_inj image_eqI less_irrefl set_map)
  ultimately show ?case using Suc by simp
qed simp

lemma core_devices:
  "op_Devices oper nv = (devs, None) \<Longrightarrow>
   NewGPUShareCoreDevicePlugin oper nv =
     Ok \<lparr>bp_ResourceName = ResourceGPUCore, bp_PreStartRequired = False,
         bp_devices = all_cards (\<lambda>i. GPUPercentEachCard) (length devs)\<rparr>"
  by (simp add: NewGPUShareCoreDevicePlugin_def all_cards_def)

lemma mem_devices:
  "op_Devices oper nv = (devs, None) \<Longrightarrow>
   NewGPUShareMemoryDevicePlugin oper nv =
     Ok \<lparr>bp_ResourceName = ResourceGPUMemory, bp_PreStartRequired = False,
         bp_devices = all_cards (\<lambda>i. unat (Memory (devs ! i)) div 2 ^ 20) (length devs)\<rparr>"
proof -
  have div: "unat (m div 1024 div 1024 :: 64 word) = unat m div 2 ^ 20" for m
    by (simp add: unat_div div_mult2_eq [symmetric])
  have "concat (map (\<lambda>(i, d). card_devices i (unat (Memory d div 1024 div 1024))) (enumerate 0 devs))
      = all_cards (\<lambda>i. unat (Memory (devs ! i)) div 2 ^ 20) (length devs)"
    unfolding all_cards_def div
    by (intro arg_cong [where f = concat] nth_equalityI) (simp_all add: nth_enumerate_eq)
  then show "op_Devices oper nv = (devs, None) \<Longrightarrow> ?thesis"
    by (simp add: NewGPUShareMemoryDevicePlugin_def)
qed

lemma elastic_spec_path [simp]: "ContainerPath (elastic_spec h i) = sym_link (h @ CHR ''-'' # nat_dec i)"
  by (simp add: elastic_spec_def rwm_def sym_link_def)

section \<open>Lemmas: the links of a device\<close>

lemma link_id_inj [simp]: "link_id h i = link_id h j \<longleftrightarrow> i = j"
  by (simp add: link_id_def)

lemma link_id_hash:
  assumes "CHR ''-'' \<notin> set h" "CHR ''-'' \<notin> set h'"
  shows "link_id h i = link_id h' j \<longleftrightarrow> h = h' \<and> i = j"
proof
  assume eq: "link_id h i = link_id h' j"
  then have "split_on CHR ''-'' (link_id h i) = split_on CHR ''-'' (link_id h' j)" by simp
  then have "h = h'" using assms by (simp add: link_id_def split_on_append split_on_fresh)
  with eq show "h = h' \<and> i = j" by simp
qed simp

context gpu_operator
begin

lemma create_loop_frame:
  "\<forall>k < length gs. a \<noteq> link_id h (i + k) \<Longrightarrow>
   view (snd (create_loop oper h i gs fs)) a = view fs a"
proof (induction gs arbitrary: i fs)
  case (Cons g gs)
  have "a \<noteq> link_id h i" "\<forall>k < length gs. a \<noteq> link_id h (Suc i + k)"
    using Cons.prems by (force, fastforce)
  with Cons.IH create_frame [of a "link_id h i" g fs] show ?case
    by (auto split: prod.split option.split)
qed simp

lemma cleanup_loop_frame:
  "\<forall>k < length gs. a \<noteq> link_id h (i + k) \<Longrightarrow>
   view (cleanup_loop oper h i gs fs) a = view fs a"
proof (induction gs arbitrary: i fs)
  case (Cons g gs)
  have "a \<noteq> link_id h i" "\<forall>k < length gs. a \<noteq> link_id h (Suc i + k)"
    using Cons.prems by (force, fastforce)
  with Cons.IH delete_frame [of a "link_id h i" g fs] show ?case by simp
qed simp

lemma create_loop_made:
  assumes "ready fs" and "\<forall>k < length gs. view fs (link_id h (i + k)) = absent"
  shows "fst (create_loop oper h i gs fs) = None"
    and "ready (snd (create_loop oper h i gs fs))"
    and "\<forall>k < length gs. view (snd (create_loop oper h i gs fs)) (link_id h (i + k)) = made (gs ! k)"
proof -
  have "fst (create_loop oper h i gs fs) = None \<and> ready (snd (create_loop oper h i gs fs))
    \<and> (\<forall>k < length gs. view (snd (create_loop oper h i gs fs)) (link_id h (i + k)) = made (gs ! k))"
    using assms
  proof (induction gs arbitrary: i fs)
    case (Cons g gs)
    obtain fs1 where fs1: "op_Create oper g (link_id h i) fs = (None, fs1)"
      using create_succeeds [of fs "link_id h i" g] Cons.prems by (metis add.right_neutral eq_fst_iff length_Cons zero_less_Suc)
    have r: "ready fs1" using create_ready [of fs g "link_id h i"] Cons.prems fs1 by simp
    have "view fs1 (link_id h (Suc i + k)) = absent" if "k < length gs" for k
      using create_frame [of "link_id h (Suc i + k)" "link_id h i" g fs] fs1 Cons.prems that by fastforce
    then have IH: "fst (create_loop oper h (Suc i) gs fs1) = None"
        "ready (snd (create_loop oper h (Suc i) gs fs1))"
        "\<forall>k < length gs. view (snd (create_loop oper h (Suc i) gs fs1)) (link_id h (Suc i + k)) = made (gs ! k)"
      using Cons.IH [of fs1 "Suc i"] r by auto
    have "view (snd (create_loop oper h (Suc i) gs fs1)) (link_id h i) = made g"
      using create_loop_frame [of gs "link_id h i" h "Suc i" fs1] create_made [of fs "link_id h i" g] fs1 Cons.prems
      by fastforce
    with IH fs1 show ?case
      by (auto simp: nth_Cons split: nat.split)
  qed simp
  then show "fst (create_loop oper h i gs fs) = None" "ready (snd (create_loop oper h i gs fs))"
    "\<forall>k < length gs. view (snd (create_loop oper h i gs fs)) (link_id h (i + k)) = made (gs ! k)"
    by auto
qed

lemma cleanup_loop_absent:
  assumes "ready fs" and "\<forall>k < length gs. \<exists>g. view fs (link_id h (i + k)) = made g"
  shows "\<forall>k < length gs. view (cleanup_loop oper h i gs fs) (link_id h (i + k)) = absent"
  using assms
proof (induction gs arbitrary: i fs)
  case (Cons g gs)
  let ?fs1 = "snd (op_Delete oper g (link_id h i) fs)"
  have r: "ready ?fs1" using delete_ready Cons.prems by blast
  have gone: "view ?fs1 (link_id h i) = absent"
    using delete_absent [of fs "link_id h i"] Cons.prems by fastforce
  have "\<exists>g. view ?fs1 (link_id h (Suc i + k)) = made g" if "k < length gs" for k
    using delete_frame [of "link_id h (Suc i + k)" "link_id h i" g fs] Cons.prems that by fastforce
  then have IH: "\<forall>k < length gs. view (cleanup_loop oper h (Suc i) gs ?fs1) (link_id h (Suc i + k)) = absent"
    using Cons.IH [of ?fs1 "Suc i"] r by blast
  have "view (cleanup_loop oper h (Suc i) gs ?fs1) (link_id h i) = absent"
    using cleanup_loop_frame [of gs "link_id h i" h "Suc i" ?fs1] gone by fastforce
  with IH show ?case by (auto simp: less_Suc_eq_0_disj)
qed simp

text \<open>Making the links of a device and removing them again restores the view.\<close>

lemma create_cleanup_view:
  assumes "ready fs" and "\<forall>k < length gs. view fs (link_id h k) = absent"
  shows "view (cleanup_loop oper h 0 gs (snd (create_loop oper h 0 gs fs))) = view fs"
proof
  fix a
  let ?fs1 = "snd (create_loop oper h 0 gs fs)"
  have made: "ready ?fs1" "\<forall>k < length gs. view ?fs1 (link_id h (0 + k)) = made (gs ! k)"
    using create_loop_made [of fs gs h 0] assms by auto
  show "view (cleanup_loop oper h 0 gs ?fs1) a = view fs a"
  proof (cases "\<exists>k < length gs. a = link_id h k")
    case True
    with assms cleanup_loop_absent [of ?fs1 gs h 0] made show ?thesis by fastforce
  next
    case False
    with create_loop_frame [of gs a h 0 fs] cleanup_loop_frame [of gs a h 0 ?fs1] show ?thesis by auto
  qed
qed

end

section \<open>Lemmas: PreStartContainer\<close>

text \<open>What the loops leave unchanged in the file system when the operator is the GPU-share one.\<close>

lemma create_loop_nodes [frame_simps]:
  "\<forall>k < length gs. p \<noteq> sym_link (link_id h (i + k)) \<and> p \<noteq> ctl_link (link_id h (i + k)) \<Longrightarrow>
   node_at (snd (create_loop gpushare_operator h i gs fs)) p = node_at fs p"
proof (induction gs arbitrary: i fs)
  case (Cons g gs)
  have "p \<noteq> sym_link (link_id h i) \<and> p \<noteq> ctl_link (link_id h i)"
    "\<forall>k < length gs. p \<noteq> sym_link (link_id h (Suc i + k)) \<and> p \<noteq> ctl_link (link_id h (Suc i + k))"
    using Cons.prems by (force, fastforce)
  with Cons.IH Create_other [of p "link_id h i" NewGPUShareOperator g fs] show ?case
    by (auto split: prod.split option.split)
qed simp

lemma cleanup_loop_nodes [frame_simps]:
  "\<forall>k < length gs. p \<noteq> sym_link (link_id h (i + k)) \<and> p \<noteq> ctl_link (link_id h (i + k)) \<Longrightarrow>
   node_at (cleanup_loop gpushare_operator h i gs fs) p = node_at fs p"
proof (induction gs arbitrary: i fs)
  case (Cons g gs)
  have "p \<noteq> sym_link (link_id h i) \<and> p \<noteq> ctl_link (link_id h i)"
    "\<forall>k < length gs. p \<noteq> sym_link (link_id h (Suc i + k)) \<and> p \<noteq> ctl_link (link_id h (Suc i + k))"
    using Cons.prems by (force, fastforce)
  with Cons.IH Delete_other [of p "link_id h i" NewGPUShareOperator g fs] show ?case by simp
qed simp

lemma create_loop_fs [wf_intros]:
  "fault (snd (create_loop gpushare_operator h i gs fs)) = fault fs"
  "fs_ok fs \<Longrightarrow> fs_ok (snd (create_loop gpushare_operator h i gs fs))"
proof -
  have "fault (snd (create_loop gpushare_operator h i gs fs)) = fault fs
    \<and> (fs_ok fs \<longrightarrow> fs_ok (snd (create_loop gpushare_operator h i gs fs)))"
  proof (induction gs arbitrary: i fs)
    case (Cons g gs)
    obtain e fs1 where fs1: "GPUShare_Create NewGPUShareOperator g (link_id h i) fs = (e, fs1)" by force
    then have "fault fs1 = fault fs" "fs_ok fs \<longrightarrow> fs_ok fs1"
      using Create_fault Create_fs_ok by (metis snd_conv)+
    with Cons fs1 show ?case by (auto split: option.split)
  qed simp
  then show "fault (snd (create_loop gpushare_operator h i gs fs)) = fault fs"
    "fs_ok fs \<Longrightarrow> fs_ok (snd (create_loop gpushare_operator h i gs fs))" by auto
qed

lemma cleanup_loop_fs [wf_intros]:
  "fault (cleanup_loop gpushare_operator h i gs fs) = fault fs"
  "fs_ok fs \<Longrightarrow> fs_ok (cleanup_loop gpushare_operator h i gs fs)"
  by (induction gs arbitrary: i fs) (auto simp: Delete_fs_ok)

text \<open>A link to a GPU that is there is kept.\<close>

lemma Create_again:
  assumes "links_writable fs" "node_at fs (sym_link eid) = Some (Symlink (gpu_node g))" "gpu_present g fs"
  shows "GPUShare_Create NewGPUShareOperator i eid fs = (None, fs)"
proof -
  have "os_Stat fs (sym_link eid) = None"
    using assms by (intro os_Stat_link) (auto simp: links_writableD gpu_present_def link_absolute)
  then show ?thesis by (simp add: GPUShare_Create_def IsExist_def Let_def)
qed

lemma gpu_present_cong:
  "gpu_present g fs \<Longrightarrow> (\<And>p. \<not> is_link_path p \<Longrightarrow> node_at fs' p = node_at fs p) \<Longrightarrow> gpu_present g fs'"
  by (simp add: gpu_present_def)

text \<open>The loop when each link is missing or made by an earlier call: it succeeds and all are there.\<close>

lemma create_loop_links:
  assumes "links_writable fs"
    and "\<forall>k < length gs. links_of fs (link_id h (i + k)) = (None, None)
      \<or> (\<exists>g. links_of fs (link_id h (i + k)) = links_to g \<and> gpu_present g fs)"
  shows "fst (create_loop gpushare_operator h i gs fs) = None
    \<and> (\<forall>k < length gs. \<exists>g. links_of (snd (create_loop gpushare_operator h i gs fs)) (link_id h (i + k)) = links_to g)"
  using assms
proof (induction gs arbitrary: i fs)
  case (Cons g gs)
  let ?fs1 = "snd (GPUShare_Create NewGPUShareOperator g (link_id h i) fs)"
  have first: "links_of fs (link_id h i) = (None, None)
      \<or> (\<exists>g. links_of fs (link_id h i) = links_to g \<and> gpu_present g fs)"
    using Cons.prems(2) by (metis add.right_neutral length_Cons zero_less_Suc)
  have made: "fst (GPUShare_Create NewGPUShareOperator g (link_id h i) fs) = None \<and> (\<exists>g'. links_of ?fs1 (link_id h i) = links_to g')"
    using first
  proof
    assume "links_of fs (link_id h i) = (None, None)"
    from Create_fresh_links [OF Cons.prems(1) this] show ?thesis by blast
  next
    assume "\<exists>g. links_of fs (link_id h i) = links_to g \<and> gpu_present g fs"
    then obtain g' where g': "links_of fs (link_id h i) = links_to g'" "gpu_present g' fs" by blast
    then have "node_at fs (sym_link (link_id h i)) = Some (Symlink (gpu_node g'))" by (simp add: links_of_def links_to_def)
    from Create_again [OF Cons.prems(1) this g'(2)] g'(1) show ?thesis by auto
  qed
  have w: "links_writable ?fs1" using Cons.prems(1) by (simp add: links_writable_def)
  have keep: "gpu_present g' ?fs1" if "gpu_present g' fs" for g'
    using that by (rule gpu_present_cong) (auto simp: is_link_path_def intro!: Create_other)
  have "links_of ?fs1 (link_id h (Suc i + k)) = links_of fs (link_id h (Suc i + k))" for k
    using gpushare.create_frame [of "link_id h (Suc i + k)" "link_id h i" g fs] by simp
  then have "\<forall>k < length gs. links_of ?fs1 (link_id h (Suc i + k)) = (None, None)
      \<or> (\<exists>g. links_of ?fs1 (link_id h (Suc i + k)) = links_to g \<and> gpu_present g ?fs1)"
    using Cons.prems(2) keep by (metis Suc_less_eq add_Suc_shift length_Cons)
  note IH = Cons.IH [OF w this]
  have "links_of (snd (create_loop gpushare_operator h (Suc i) gs ?fs1)) (link_id h i) = links_of ?fs1 (link_id h i)"
    by (rule gpushare.create_loop_frame) auto
  then have "\<forall>k < length (g # gs). \<exists>g. links_of (snd (create_loop gpushare_operator h (Suc i) gs ?fs1)) (link_id h (i + k)) = links_to g"
    using made IH by (auto simp: less_Suc_eq_0_disj)
  with made IH show ?case by (auto split: prod.split option.split)
qed simp

text \<open>The clean-up after a failed \<open>Save\<close> gives back the very file system there was before.\<close>

lemma create_cleanup_host:
  assumes "links_writable fs" "fs_ok fs" "\<forall>k < length gs. links_of fs (link_id h k) = (None, None)"
  shows "cleanup_loop gpushare_operator h 0 gs (snd (create_loop gpushare_operator h 0 gs fs)) = fs"
proof (rule host_fs_eqI)
  let ?fs' = "cleanup_loop gpushare_operator h 0 gs (snd (create_loop gpushare_operator h 0 gs fs))"
  show "fs_ok ?fs'" "fs_ok fs" "fault ?fs' = fault fs" using assms by (simp_all add: wf_intros)
  fix p
  show "node_at ?fs' p = node_at fs p"
  proof (cases "is_link_path p")
    case True
    then obtain eid where "p = sym_link eid \<or> p = ctl_link eid" by (auto simp: is_link_path_def)
    moreover have "links_of ?fs' eid = links_of fs eid"
      using gpushare.create_cleanup_view [OF assms(1,3)] by simp
    ultimately show ?thesis by (auto simp: links_of_def)
  next
    case False
    then have "p \<noteq> sym_link eid \<and> p \<noteq> ctl_link eid" for eid by (auto simp: is_link_path_def)
    then show ?thesis by (simp add: frame_simps)
  qed
qed

text \<open>
  The kubelet gave the devices \<open>ids\<close> of a resource to the container \<open>pc\<close>, and the annotations of
  its pod say it is assumed and was given the GPUs \<open>val\<close>.
\<close>

definition assigned :: "kubelet \<Rightarrow> string \<Rightarrow> string list \<Rightarrow> agent \<Rightarrow> PodContainer \<Rightarrow> string \<Rightarrow> bool" where
  "assigned kl resName ids ag pc val \<longleftrightarrow>
     (\<exists>k response es pod.
        DeviceLocator ag resName = Some k \<and> loc_err k = None \<and> loc_client k \<and> loc_resource k = resName
        \<and> answer kl = Inr response \<and> exclusive resName response
        \<and> (pc, es) \<in> set (holders resName response) \<and> holds ids es
        \<and> lister (Sitter ag) (pc_Namespace pc, pc_Name pc) = Some pod
        \<and> map_of (Annotations pod) ElasticGPUAssumedAnnotation \<noteq> None
        \<and> map_of (Annotations pod) (''elasticgpu.io/container-'' @ pc_Container pc) = Some val)"

lemma container_key [simp]:
  "sprintf1 ElasticGPUContainerAnnotation c = ''elasticgpu.io/container-'' @ c"
  by (simp add: ElasticGPUContainerAnnotation_def)

lemma locate_assumed_ok:
  assumes "assigned kl resName ids ag pc val" and "ids \<noteq> []"
  shows "locate_assumed kl (NewDevice ids resName) resName ag = (Ok (pc, val), ag)"
proof -
  obtain k response es pod where k: "DeviceLocator ag resName = Some k" "loc_err k = None" "loc_client k"
      "loc_resource k = resName" "answer kl = Inr response" "exclusive resName response"
      "(pc, es) \<in> set (holders resName response)" "holds ids es"
      "lister (Sitter ag) (pc_Namespace pc, pc_Name pc) = Some pod"
      "map_of (Annotations pod) ElasticGPUAssumedAnnotation \<noteq> None"
      "map_of (Annotations pod) (''elasticgpu.io/container-'' @ pc_Container pc) = Some val"
    using assms(1) unfolding assigned_def by blast
  have "Locate (dial_err kl) (answer kl) (NewDevice ids resName) k = (Ok pc, k)"
    using find_holder [OF k(2,3), of response pc es ids "dial_err kl"] k assms(2) by simp
  moreover have "(DeviceLocator ag)(resName \<mapsto> k) = DeviceLocator ag"
    using k(1) by (simp add: fun_upd_idem)
  ultimately show ?thesis
    using k by (auto simp: locate_assumed_def GetPod_def simp del: sprintf1.simps)
qed

lemma locate_assumed_frame [frame_simps]:
  assumes "locate_assumed kl d r ag = (x, ag')"
  shows "Sitter ag' = Sitter ag" "Storage ag' = Storage ag" "Operator ag' = Operator ag" "host ag' = host ag"
  using assms
  by (auto simp: locate_assumed_def Let_def split: option.splits prod.splits res.splits if_splits)

lemma parse_ids_acc: "parse_ids ss acc = map_option ((@) acc) (parse_ids ss [])"
proof (induction ss arbitrary: acc)
  case (Cons s ss)
  show ?case
  proof (cases "atoi s")
    case (Some i)
    with Cons.IH [of "acc @ [i]"] Cons.IH [of "[i]"] show ?thesis
      by (simp add: option.map_comp comp_def)
  qed simp
qed simp

text \<open>The annotation the scheduler writes for the GPUs \<open>gs\<close>.\<close>

definition gpus_text :: "int list \<Rightarrow> string" where
  "gpus_text gs = join '','' (map itoa gs)"

lemma parse_gpus_text:
  assumes "gs \<noteq> []" "\<forall>g \<in> set gs. - (2 ^ 63) \<le> g \<and> g < 2 ^ 63"
  shows "parse_ids (split_on CHR '','' (gpus_text gs)) [] = Some gs"
proof -
  have "parse_ids (map itoa hs) [] = Some hs" if "\<forall>g \<in> set hs. - (2 ^ 63) \<le> g \<and> g < 2 ^ 63" for hs
    using that by (induction hs) (auto simp: atoi_itoa parse_ids_acc [of _ "[_]"])
  moreover have "split_on CHR '','' (gpus_text gs) = map itoa gs"
    unfolding gpus_text_def using assms(1) by (intro split_on_join) auto
  ultimately show ?thesis using assms(2) by simp
qed

text \<open>The record of a pod, and the record with the devices of one more container.\<close>

definition record_of :: "boltdb \<Rightarrow> PodContainer \<Rightarrow> PodInfo" where
  "record_of db pc =
     (case pods_of db (pc_Namespace pc, pc_Name pc) of
        Some i \<Rightarrow> i | None \<Rightarrow> NewPI (pc_Namespace pc) (pc_Name pc))"

definition with_device :: "boltdb \<Rightarrow> PodContainer \<Rightarrow> Device \<Rightarrow> PodInfo" where
  "with_device db pc d =
     (record_of db pc)
       \<lparr>ContainerDeviceMap :=
          map_option (amap_put (pc_Container pc) (Some d)) (ContainerDeviceMap (record_of db pc))\<rparr>"

definition recordable :: "boltdb \<Rightarrow> PodContainer \<Rightarrow> Device \<Rightarrow> bool" where
  "recordable db pc d \<longleftrightarrow>
     usable db \<and> plain_elem (pc_Namespace pc) \<and> plain_elem (pc_Name pc)
     \<and> ContainerDeviceMap (record_of db pc) \<noteq> None \<and> storable (with_device db pc d)"

lemma record_of_names:
  "Namespace (record_of db pc) = pc_Namespace pc" "Name (record_of db pc) = pc_Name pc"
  using pods_of_named by (auto simp: record_of_def split: option.split)

lemma LoadOrCreate_record:
  "usable db \<Longrightarrow> plain_elem (pc_Namespace pc) \<Longrightarrow> plain_elem (pc_Name pc) \<Longrightarrow>
   LoadOrCreate (pc_Namespace pc) (pc_Name pc) db = Ok (record_of db pc)"
  using bolt.load_or_create_view by (simp add: record_of_def)

lemma record_device_save:
  assumes "recordable db pc d"
  shows "record_device pc d db = Save (with_device db pc d) db"
  using assms by (auto simp: record_device_def recordable_def LoadOrCreate_record with_device_def)

lemma record_device_ok:
  assumes "recordable db pc d"
  shows "fst (record_device pc d db) = Ok ()"
    and "pods_of (snd (record_device pc d db)) = (pods_of db)((pc_Namespace pc, pc_Name pc) \<mapsto> with_device db pc d)"
    and "usable (snd (record_device pc d db))"
proof -
  have r: "usable db" "storable (with_device db pc d)" using assms by (simp_all add: recordable_def)
  have n: "Namespace (with_device db pc d) = pc_Namespace pc" "Name (with_device db pc d) = pc_Name pc"
    by (simp_all add: with_device_def record_of_names)
  show "fst (record_device pc d db) = Ok ()"
    "pods_of (snd (record_device pc d db)) = (pods_of db)((pc_Namespace pc, pc_Name pc) \<mapsto> with_device db pc d)"
    "usable (snd (record_device pc d db))"
    using bolt.save_ok [OF r] bolt.save_view [OF r] bolt.save_ready [OF r] n
    by (simp_all add: record_device_save [OF assms])
qed

lemma record_device_failed: "fst (record_device pc d db) \<noteq> Ok () \<Longrightarrow> snd (record_device pc d db) = db"
  using db_Update_failed
  by (fastforce simp: record_device_def Save_def split: res.splits option.splits)

text \<open>
  A call that makes the links of its devices for the first time: the container is assigned the
  GPUs \<open>gs\<close>, and none of the links is there yet.
\<close>

definition fresh_start :: "kubelet \<Rightarrow> string \<Rightarrow> string list \<Rightarrow> int list \<Rightarrow> PodContainer \<Rightarrow> agent \<Rightarrow> bool" where
  "fresh_start kl resName ids gs pc ag \<longleftrightarrow>
     ids \<noteq> [] \<and> gs \<noteq> [] \<and> (\<forall>g \<in> set gs. - (2 ^ 63) \<le> g \<and> g < 2 ^ 63)
     \<and> assigned kl resName ids ag pc (gpus_text gs)
     \<and> Operator ag = gpushare_operator \<and> fs_ok (host ag) \<and> links_writable (host ag)
     \<and> (\<forall>k < length gs. links_of (host ag) (link_id (hash (sort ids)) k) = (None, None))"

lemma PreStart_core_reduce:
  assumes "ids \<noteq> []" "gs \<noteq> []" "\<forall>g \<in> set gs. - (2 ^ 63) \<le> g \<and> g < 2 ^ 63"
    and "assigned kl (bp_ResourceName c) ids ag pc (gpus_text gs)"
  shows "PreStartContainer_core c kl ids ag = link_and_record pc (NewDevice ids (bp_ResourceName c)) gs ag"
  using assms locate_assumed_ok [OF assms(4,1)] parse_gpus_text [OF assms(2,3)]
  by (simp add: PreStartContainer_core_def Let_def)

lemma gpus_text_single [simp]: "gpus_text [g] = itoa g"
  by (simp add: gpus_text_def)

lemma PreStart_mem_reduce:
  assumes "ids \<noteq> []" "- (2 ^ 63) \<le> g" "g < 2 ^ 63"
    and "assigned kl (bp_ResourceName c) ids ag pc (gpus_text [g])"
  shows "PreStartContainer_mem c kl ids ag = link_and_record pc (NewDevice ids (bp_ResourceName c)) [g] ag"
  using assms locate_assumed_ok [OF assms(4,1)] atoi_itoa [OF assms(2,3)]
  by (simp add: PreStartContainer_mem_def Let_def)

lemma link_and_record_ok:
  assumes "Operator ag = gpushare_operator" "links_writable (host ag)"
    and "\<forall>k < length gs. links_of (host ag) (link_id (Hash d) k) = (None, None)"
    and "recordable (Storage ag) pc d"
  shows "link_and_record pc d gs ag =
    (Ok (), ag\<lparr>host := snd (create_loop gpushare_operator (Hash d) 0 gs (host ag)),
               Storage := snd (record_device pc d (Storage ag))\<rparr>)"
proof -
  have "fst (create_loop gpushare_operator (Hash d) 0 gs (host ag)) = None"
    using gpushare.create_loop_made(1) [of "host ag" gs "Hash d" 0] assms by simp
  moreover have "fst (record_device pc d (Storage ag)) = Ok ()"
    using record_device_ok assms(4) by blast
  ultimately show ?thesis
    using assms(1) by (auto simp: link_and_record_def split: prod.split option.split res.split)
qed

lemma PreStart_core_state:
  assumes "fresh_start kl (bp_ResourceName c) ids gs pc ag"
    and "recordable (Storage ag) pc (NewDevice ids (bp_ResourceName c))"
  shows "PreStartContainer_core c kl ids ag =
    (Ok (), ag\<lparr>host := snd (create_loop gpushare_operator (hash (sort ids)) 0 gs (host ag)),
               Storage := snd (record_device pc (NewDevice ids (bp_ResourceName c)) (Storage ag))\<rparr>)"
  using assms link_and_record_ok [of ag gs "NewDevice ids (bp_ResourceName c)" pc]
  by (auto simp: fresh_start_def PreStart_core_reduce)

lemma PreStart_mem_state:
  assumes "fresh_start kl (bp_ResourceName c) ids [g] pc ag"
    and "recordable (Storage ag) pc (NewDevice ids (bp_ResourceName c))"
  shows "PreStartContainer_mem c kl ids ag =
    (Ok (), ag\<lparr>host := snd (create_loop gpushare_operator (hash (sort ids)) 0 [g] (host ag)),
               Storage := snd (record_device pc (NewDevice ids (bp_ResourceName c)) (Storage ag))\<rparr>)"
proof -
  have "PreStartContainer_mem c kl ids ag = link_and_record pc (NewDevice ids (bp_ResourceName c)) [g] ag"
    using assms(1) by (intro PreStart_mem_reduce) (auto simp: fresh_start_def)
  moreover have "Operator ag = gpushare_operator" "links_writable (host ag)"
      "\<forall>k < length [g]. links_of (host ag) (link_id (Hash (NewDevice ids (bp_ResourceName c))) k) = (None, None)"
    using assms(1) by (auto simp: fresh_start_def)
  ultimately show ?thesis using link_and_record_ok [OF _ _ _ assms(2)] by simp
qed

lemma link_and_record_frame:
  assumes "Operator ag = gpushare_operator"
    and "\<forall>k. p \<noteq> sym_link (link_id (Hash d) k) \<and> p \<noteq> ctl_link (link_id (Hash d) k)"
  shows "node_at (host (snd (link_and_record pc d gs ag))) p = node_at (host ag) p"
proof -
  obtain e fs where fs: "create_loop gpushare_operator (Hash d) 0 gs (host ag) = (e, fs)" by force
  then have "node_at fs p = node_at (host ag) p"
    using create_loop_nodes [of gs p "Hash d" 0 "host ag"] assms(2) by simp
  moreover have "node_at (cleanup_loop gpushare_operator (Hash d) 0 gs fs) p = node_at fs p"
    using cleanup_loop_nodes assms(2) by simp
  ultimately show ?thesis
    using fs assms(1) by (auto simp: link_and_record_def split: option.split prod.split res.split)
qed

text \<open>A node with one GPU and one pod, for the instances of the properties.\<close>

definition demo_nvml :: nvml where
  "demo_nvml =
     \<lparr>nv_Init = 0, nv_Shutdown = 0, nv_DeviceGetCount = (1, 0), nv_DeviceGetHandleByIndex = (\<lambda>i. 0),
      nv_GetUUID = (\<lambda>i. (''GPU-1'', 0)), nv_GetIndex = (\<lambda>i. (i, 0)), nv_GetMemoryInfo = (\<lambda>i. (16777216, 0))\<rparr>"

definition demo_core :: baseDevicePlugin where
  "demo_core = \<lparr>bp_ResourceName = ''elasticgpu.io/gpu-core'', bp_PreStartRequired = False, bp_devices = []\<rparr>"

definition demo_kubelet :: kubelet where
  "demo_kubelet = \<lparr>dial_err = None, answer = Inr demo_answer\<rparr>"

definition demo_host :: host_fs where
  "demo_host =
     \<lparr>nodes = [(''/dev/nvidia0'', DevNode), (''/dev/nvidia1'', DevNode), (''/dev/nvidiactl'', DevNode)],
      fault = (\<lambda>oper p. None)\<rparr>"

definition demo_sitter :: PodSitter where
  "demo_sitter =
     (NewSitter ''node-1'' (\<lambda>_. None) (\<lambda>_. None))
       \<lparr>lister := [(''default'', ''train-0'') \<mapsto>
          \<lparr>Annotations = [(''elasticgpu.io/assumed'', ''true''), (''elasticgpu.io/container-main'', ''0'')]\<rparr>]\<rparr>"

definition demo_agent :: agent where
  "demo_agent =
     \<lparr>DeviceLocator = [''elasticgpu.io/gpu-core'' \<mapsto> demo_locator], Sitter = demo_sitter, Storage = demo_db,
      Operator = gpushare_operator, host = demo_host\<rparr>"

abbreviation demo_ids :: "string list" where "demo_ids \<equiv> [''0-00'', ''0-01'']"

lemma demo_agent_simps [simp]:
  "Sitter demo_agent = demo_sitter" "Storage demo_agent = demo_db" "Operator demo_agent = gpushare_operator"
  "host demo_agent = demo_host" "bp_ResourceName demo_core = ''elasticgpu.io/gpu-core''"
  by (simp_all add: demo_agent_def demo_core_def)

lemma demo_host_links: "links_of demo_host eid = (None, None)"
  by (simp add: links_of_def node_at_def demo_host_def sym_link_def ctl_link_def)

lemma demo_host_ok: "links_writable demo_host" "fs_ok demo_host" "gpu_present 0 demo_host" "gpu_present 1 demo_host"
proof -
  show "fs_ok demo_host" unfolding fs_ok_def demo_host_def by code_simp
  have "gpu_node 0 = ''/dev/nvidia0''" "gpu_node 1 = ''/dev/nvidia1''" by code_simp+
  then show "gpu_present 0 demo_host" "gpu_present 1 demo_host"
    by (simp_all add: gpu_present_def node_at_def demo_host_def GPUCtlPath_def)
qed (simp add: links_writable_def demo_host_def)

lemma demo_assigned:
  "assigned demo_kubelet ''elasticgpu.io/gpu-core'' demo_ids demo_agent demo_container (gpus_text [0])"
proof -
  have zero: "gpus_text [0] = ''0''" by code_simp
  have "assigned demo_kubelet ''elasticgpu.io/gpu-core'' demo_ids demo_agent demo_container ''0''"
    unfolding assigned_def
    by (rule exI [of _ demo_locator], rule exI [of _ demo_answer], rule exI [of _ "[[''0-01''], [''0-00'']]"],
        rule exI [of _ "\<lparr>Annotations = [(''elasticgpu.io/assumed'', ''true''), (''elasticgpu.io/container-main'', ''0'')]\<rparr>"])
      (simp add: demo_holder [unfolded demo_container_def] demo_agent_def demo_kubelet_def demo_sitter_def NewSitter_def
        demo_container_def ElasticGPUAssumedAnnotation_def)
  then show ?thesis unfolding zero .
qed

lemma demo_fresh_start:
  "fresh_start demo_kubelet (bp_ResourceName demo_core) demo_ids [0] demo_container demo_agent"
  using demo_assigned by (simp add: fresh_start_def demo_host_ok demo_host_links del: gpus_text_single)

lemma demo_with_device:
  "with_device demo_db demo_container d =
     \<lparr>Namespace = ''default'', Name = ''train-0'', ContainerDeviceMap = Some [(''main'', Some d)]\<rparr>"
  by (simp add: with_device_def record_of_def demo_container_def pods_of_def root_of_def demo_db_def
      plain_elem_def NewPI_def)

lemma demo_recordable: "recordable demo_db demo_container (NewDevice demo_ids ''elasticgpu.io/gpu-core'')"
proof -
  let ?d = "NewDevice demo_ids ''elasticgpu.io/gpu-core''"
  let ?i = "with_device demo_db demo_container ?d"
  have "device_ok ?d"
    by (simp add: device_ok_def) code_simp
  then have ok: "pod_ok ?i"
    by (simp add: pod_ok_def demo_with_device devmap_ok_def plain_elem_def amap_ok_def utf8_len_ascii)
  have "length (Val ?i) \<le> 600"
    using length_Val [of ?i] by (simp add: demo_with_device devmap_size_def device_size_def)
  moreover have "length (Key ?i) \<le> 100"
    using pod_ok_Key [OF ok] by (simp add: demo_with_device)
  ultimately show ?thesis
    using ok demo_db_usable
    by (simp add: recordable_def storable_def MaxKeySize_def MaxValueSize_def demo_container_def plain_elem_def
        record_of_def pods_of_def root_of_def demo_db_def)
qed

section \<open>Properties\<close>

text \<open>
  C34: The core plugin advertises one hundred devices for each GPU and the memory plugin one for
  each whole mebibyte of each GPU's memory, with the IDs \<open>card-unit\<close> and nothing else; no ID is
  advertised twice.
\<close>

theorem advertised_devices:
  assumes "Devices nv = (devs, None)"
  shows "\<exists>c m. NewGPUShareCoreDevicePlugin gpushare_operator nv = Ok c
    \<and> NewGPUShareMemoryDevicePlugin gpushare_operator nv = Ok m
    \<and> length (bp_devices c) = 100 * length devs
    \<and> length (bp_devices m) = (\<Sum>i < length devs. unat (Memory (devs ! i)) div 2 ^ 20)
    \<and> distinct (map ID (bp_devices c)) \<and> distinct (map ID (bp_devices m))
    \<and> set (map ID (bp_devices c)) = {device_id i j | i j. i < length devs \<and> j < 100}
    \<and> set (map ID (bp_devices m)) =
        {device_id i j | i j. i < length devs \<and> j < unat (Memory (devs ! i)) div 2 ^ 20}"
  using assms
  by (auto simp: core_devices mem_devices length_all_cards distinct_all_cards all_cards_ids GPUPercentEachCard_def
      simp del: set_map)

theorem advertised_devices_witness:
  "\<exists>m. NewGPUShareMemoryDevicePlugin gpushare_operator demo_nvml = Ok m \<and> length (bp_devices m) = 16"
proof -
  have "Devices demo_nvml = ([\<lparr>UUID = ''GPU-1'', GPUIndex = ''0'', Paths = [], Memory = 16777216\<rparr>], None)"
    by code_simp
  from advertised_devices [OF this] show ?thesis by auto
qed

text \<open>
  C35: The container is given exactly the devices \<open>nvidiactl\<close>, \<open>nvidia-uvm\<close> and \<open>nvidia-uvm-tools\<close>
  and the links of the card indexes below \<open>max 1 (n div 100)\<close>, \<open>n\<close> the number of core devices the
  kubelet picked: each at its path under \<open>/dev\<close>, which the container finds below \<open>/host\<close>, where the
  agent makes the links, with all permissions; and exactly two variables, \<open>GPU\<close> with the hash the
  links are named with and \<open>NVIDIA_VISIBLE_DEVICES\<close> with \<open>none\<close>.
\<close>

theorem Allocate_core_links:
  assumes "concat request \<noteq> []"
  defines "h \<equiv> hash (sort (concat request))"
  shows "\<exists>resp. Allocate_core c request = Ok [resp]
    \<and> map_of (Envs resp) = [''GPU'' \<mapsto> h, ''NVIDIA_VISIBLE_DEVICES'' \<mapsto> ''none'']
    \<and> map ContainerPath (Devs resp) =
        [''/host/dev/nvidiactl'', ''/host/dev/nvidia-uvm'', ''/host/dev/nvidia-uvm-tools'']
        @ map (\<lambda>i. sym_link (link_id h i)) [0..<max 1 (length (concat request) div 100)]
    \<and> list_all (\<lambda>s. ContainerPath s = ''/host'' @ HostPath s \<and> Permissions s = ''rwm'') (Devs resp)"
proof -
  let ?n = "length (concat request)"
  let ?specs = "if ?n > 100 then map (elastic_spec h) [0..<?n div 100] else [elastic_spec h 0]"
  have "max 1 (?n div 100) = (if ?n > 100 then ?n div 100 else 1)"
  proof (cases "?n > 100")
    case True
    then show ?thesis by (simp add: max_def)
  next
    case False
    then have "?n div 100 \<le> 1" using div_le_mono [of ?n 100 100] by simp
    with False show ?thesis by (simp add: max_absorb1)
  qed
  then have "map ContainerPath ?specs = map (\<lambda>i. sym_link (link_id h i)) [0..<max 1 (?n div 100)]"
    by (simp add: link_id_def)
  moreover have "Allocate_core c request = Ok [\<lparr>Envs = gpu_envs h, Devs = nvidia_specs @ ?specs\<rparr>]"
    using assms by (simp add: Allocate_core_def Let_def del: length_concat)
  moreover have "map ContainerPath nvidia_specs = [''/host/dev/nvidiactl'', ''/host/dev/nvidia-uvm'', ''/host/dev/nvidia-uvm-tools'']"
    by (simp add: nvidia_specs_def rwm_def)
  moreover have "list_all (\<lambda>s. ContainerPath s = ''/host'' @ HostPath s \<and> Permissions s = ''rwm'') (nvidia_specs @ ?specs)"
    by (simp add: nvidia_specs_def list_all_iff rwm_def elastic_spec_def)
  moreover have "map_of (gpu_envs h) = [''GPU'' \<mapsto> h, ''NVIDIA_VISIBLE_DEVICES'' \<mapsto> ''none'']"
    by (simp add: gpu_envs_def fun_eq_iff)
  ultimately show ?thesis by (intro exI [of _ "\<lparr>Envs = gpu_envs h, Devs = nvidia_specs @ ?specs\<rparr>"]) simp
qed

theorem Allocate_core_links_witness:
  "\<exists>resp. Allocate_core demo_core [[''0-01''], [''0-00'']] = Ok [resp]
     \<and> map_of (Envs resp) ''GPU'' = Some (hash (sort [''0-01'', ''0-00'']))"
  using Allocate_core_links [of "[[''0-01''], [''0-00'']]" demo_core] by auto

text \<open>
  C12: When the kubelet gave core devices to a container that the scheduler assumed on the GPUs
  \<open>gs\<close> and nothing stands in the way, \<open>PreStartContainer\<close> succeeds; link \<open>k\<close> of the devices' hash
  then points to the \<open>k\<close>-th of these GPUs, with its control link, and the pod's record holds the
  devices for that container and is otherwise as before.
\<close>

theorem PreStart_core_success:
  assumes "fresh_start kl (bp_ResourceName c) ids gs pc ag"
    and "recordable (Storage ag) pc (NewDevice ids (bp_ResourceName c))"
  shows "\<exists>ag'. PreStartContainer_core c kl ids ag = (Ok (), ag')
    \<and> (\<forall>k < length gs. links_of (host ag') (link_id (hash (sort ids)) k) = links_to (gs ! k))
    \<and> pods_of (Storage ag') = (pods_of (Storage ag))
        ((pc_Namespace pc, pc_Name pc) \<mapsto> with_device (Storage ag) pc (NewDevice ids (bp_ResourceName c)))"
  using assms link_and_record_ok [of ag gs "NewDevice ids (bp_ResourceName c)" pc]
    gpushare.create_loop_made(3) [of "host ag" gs "hash (sort ids)" 0] record_device_ok(2)
  by (auto simp: fresh_start_def PreStart_core_reduce)

theorem PreStart_core_success_witness:
  "\<exists>ag'. PreStartContainer_core demo_core demo_kubelet demo_ids demo_agent = (Ok (), ag')
     \<and> links_of (host ag') (link_id (hash (sort demo_ids)) 0) = links_to 0"
  using PreStart_core_success [OF demo_fresh_start] demo_recordable by fastforce

text \<open>
  The memory plugin does the same for the one GPU of its annotation.
\<close>

lemma PreStart_mem_success:
  assumes "fresh_start kl (bp_ResourceName c) ids [g] pc ag"
    and "recordable (Storage ag) pc (NewDevice ids (bp_ResourceName c))"
  shows "\<exists>ag'. PreStartContainer_mem c kl ids ag = (Ok (), ag')
    \<and> links_of (host ag') (link_id (hash (sort ids)) 0) = links_to g
    \<and> pods_of (Storage ag') = (pods_of (Storage ag))
        ((pc_Namespace pc, pc_Name pc) \<mapsto> with_device (Storage ag) pc (NewDevice ids (bp_ResourceName c)))"
  using assms link_and_record_ok [of ag "[g]" "NewDevice ids (bp_ResourceName c)" pc]
    gpushare.create_loop_made(3) [of "host ag" "[g]" "hash (sort ids)" 0] record_device_ok(2)
  by (auto simp: fresh_start_def PreStart_mem_reduce)

text \<open>
  C20: Whatever the kubelet, the API and the file system answer, and whatever the call returns, it
  changes no file but the links named with the hash of the devices it was called for.
\<close>

theorem PreStart_core_frame:
  assumes "Operator ag = gpushare_operator"
    and "\<forall>k. p \<noteq> sym_link (link_id (hash (sort ids)) k) \<and> p \<noteq> ctl_link (link_id (hash (sort ids)) k)"
  shows "node_at (host (snd (PreStartContainer_core c kl ids ag))) p = node_at (host ag) p"
proof (cases "locate_assumed kl (NewDevice ids (bp_ResourceName c)) (bp_ResourceName c) ag")
  case (Pair r ag1)
  note frame = locate_assumed_frame [OF this]
  with Pair assms link_and_record_frame [of ag1 p "NewDevice ids (bp_ResourceName c)"] show ?thesis
    by (auto simp: PreStartContainer_core_def Let_def split: res.split option.split)
qed

theorem PreStart_core_frame_witness:
  "node_at (host (snd (PreStartContainer_core demo_core demo_kubelet demo_ids demo_agent))) ''/dev/nvidia1'' = Some DevNode"
proof -
  have "node_at (host demo_agent) ''/dev/nvidia1'' = Some DevNode"
    by (simp add: node_at_def demo_host_def)
  then show ?thesis
    using PreStart_core_frame [where ag = demo_agent and p = "''/dev/nvidia1''" and ids = demo_ids and c = demo_core and kl = demo_kubelet]
    by (simp add: sym_link_def ctl_link_def)
qed

text \<open>
  C28: When each link of a call is missing or leads to a GPU that is there, and the record cannot be
  saved, the links of the call are removed, the database is as before, and the call still returns a nil error: the kubelet starts a container whose links do not exist.
  A first start leaves the very file system there was before.  But a start that is repeated, for
  devices whose links and record are there, loses these links too, while the record stays.
\<close>

theorem PreStart_core_save_failure:
  assumes "ids \<noteq> []" and "gs \<noteq> []" and "\<forall>g \<in> set gs. - (2 ^ 63) \<le> g \<and> g < 2 ^ 63"
    and "assigned kl (bp_ResourceName c) ids ag pc (gpus_text gs)"
    and "Operator ag = gpushare_operator" and "fs_ok (host ag)" and "links_writable (host ag)"
    and "\<forall>k < length gs. links_of (host ag) (link_id (hash (sort ids)) k) = (None, None)
      \<or> (\<exists>g. links_of (host ag) (link_id (hash (sort ids)) k) = links_to g \<and> gpu_present g (host ag))"
    and "fst (record_device pc (NewDevice ids (bp_ResourceName c)) (Storage ag)) = Fail e"
  shows "\<exists>fs. PreStartContainer_core c kl ids ag = (Ok (), ag\<lparr>host := fs\<rparr>)
    \<and> (\<forall>k < length gs. links_of fs (link_id (hash (sort ids)) k) = (None, None))
    \<and> ((\<forall>k < length gs. links_of (host ag) (link_id (hash (sort ids)) k) = (None, None)) \<longrightarrow> fs = host ag)"
proof -
  let ?d = "NewDevice ids (bp_ResourceName c)" and ?h = "hash (sort ids)"
  obtain fs1 where fs1: "create_loop gpushare_operator ?h 0 gs (host ag) = (None, fs1)"
    using create_loop_links [of "host ag" gs ?h 0] assms(7,8) by (metis add_0 prod.collapse)
  let ?fs = "cleanup_loop gpushare_operator ?h 0 gs fs1"
  have "record_device pc ?d (Storage ag) = (Fail e, Storage ag)"
    using record_device_failed [of pc ?d "Storage ag"] assms(9) by (metis prod.collapse res.distinct(1))
  with fs1 assms(1-5) have "PreStartContainer_core c kl ids ag = (Ok (), ag\<lparr>host := ?fs\<rparr>)"
    by (simp add: PreStart_core_reduce link_and_record_def)
  moreover have "\<forall>k < length gs. links_of ?fs (link_id ?h k) = (None, None)"
  proof -
    have "links_writable fs1" "\<forall>k < length gs. \<exists>g. links_of fs1 (link_id ?h (0 + k)) = links_to g"
      using create_loop_links [of "host ag" gs ?h 0] create_loop_fs(1) [of ?h 0 gs "host ag"] assms(7,8) fs1
      by (simp_all add: links_writable_def)
    from gpushare.cleanup_loop_absent [OF this] show ?thesis by simp
  qed
  moreover have "?fs = host ag" if "\<forall>k < length gs. links_of (host ag) (link_id ?h k) = (None, None)"
    using create_cleanup_host [OF assms(7,6) that] fs1 by simp
  ultimately show ?thesis by blast
qed

theorem PreStart_core_save_failure_witness:
  "\<exists>ag fs. PreStartContainer_core demo_core demo_kubelet demo_ids ag = (Ok (), ag\<lparr>host := fs\<rparr>)
     \<and> links_of (host ag) (link_id (hash (sort demo_ids)) 0) = links_to 1
     \<and> links_of fs (link_id (hash (sort demo_ids)) 0) = (None, None)"
proof -
  let ?id = "link_id (hash (sort demo_ids)) 0"
  let ?fs = "snd (GPUShare_Create NewGPUShareOperator 1 ?id demo_host)"
  let ?ag = "demo_agent\<lparr>host := ?fs, Storage := demo_db\<lparr>opened := False\<rparr>\<rparr>"
  have link: "links_of ?fs ?id = links_to 1"
    using Create_fresh_links(2) [OF demo_host_ok(1) demo_host_links] .
  have host: "links_writable ?fs" "fs_ok ?fs"
    using demo_host_ok(1,2) by (simp_all add: links_writable_def wf_intros)
  have gpu: "gpu_present 1 ?fs"
    using demo_host_ok(4) by (rule gpu_present_cong) (auto simp: is_link_path_def intro!: Create_other)
  have asg: "assigned demo_kubelet (bp_ResourceName demo_core) demo_ids ?ag demo_container (gpus_text [0])"
    using demo_assigned by (simp add: assigned_def)
  have fail: "fst (record_device demo_container (NewDevice demo_ids (bp_ResourceName demo_core)) (Storage ?ag)) = Fail EDbClosed"
    by (simp add: record_device_def LoadOrCreate_def Load_def db_View_def Save_def db_Update_def
        demo_db_def NewPI_def Let_def)
  obtain fs where "PreStartContainer_core demo_core demo_kubelet demo_ids ?ag = (Ok (), ?ag\<lparr>host := fs\<rparr>)"
      "\<forall>k < length [0::int]. links_of fs (link_id (hash (sort demo_ids)) k) = (None, None)"
    using PreStart_core_save_failure [OF _ _ _ asg _ _ _ _ fail] link host gpu by auto
  then show ?thesis using link by (intro exI [of _ ?ag] exI [of _ fs]) simp
qed

text \<open>
  For an annotation that names one GPU the two plugins' handlers are the same function of
  everything else.
\<close>

theorem PreStart_core_mem_agree:
  assumes "\<forall>pc val ag'. locate_assumed kl (NewDevice ids (bp_ResourceName c)) (bp_ResourceName c) ag = (Ok (pc, val), ag')
    \<longrightarrow> CHR '','' \<notin> set val"
  shows "PreStartContainer_core c kl ids ag = PreStartContainer_mem c kl ids ag"
  using assms
  by (auto simp: PreStartContainer_core_def PreStartContainer_mem_def Let_def split_on_fresh
      split: prod.split res.split option.split)

text \<open>
  A link that is already there is kept whatever it points to: if another container left a
  link for the same devices to card \<open>g'\<close>, a container assumed on card \<open>g\<close> is started with
  success on card \<open>g'\<close>.
\<close>

lemma PreStart_core_keeps_stale_link:
  assumes "ids \<noteq> []" and "- (2 ^ 63) \<le> g" and "g < 2 ^ 63"
    and "assigned kl (bp_ResourceName c) ids ag pc (gpus_text [g])"
    and "Operator ag = gpushare_operator" and "links_writable (host ag)"
    and "links_of (host ag) (link_id (hash (sort ids)) 0) = links_to g'" and "gpu_present g' (host ag)"
    and "recordable (Storage ag) pc (NewDevice ids (bp_ResourceName c))"
  shows "fst (PreStartContainer_core c kl ids ag) = Ok ()
    \<and> links_of (host (snd (PreStartContainer_core c kl ids ag))) (link_id (hash (sort ids)) 0) = links_to g'"
proof -
  have "os_Stat (host ag) (sym_link (link_id (hash (sort ids)) 0)) = None"
    using Check_made [OF assms(6-8)] by (simp add: GPUShare_Check_def)
  then have "GPUShare_Create NewGPUShareOperator g (link_id (hash (sort ids)) 0) (host ag) = (None, host ag)"
    by (simp add: GPUShare_Create_def IsExist_def Let_def)
  moreover have "PreStartContainer_core c kl ids ag = link_and_record pc (NewDevice ids (bp_ResourceName c)) [g] ag"
    using PreStart_core_reduce [of ids "[g]" kl c ag pc] assms by simp
  ultimately show ?thesis
    using assms record_device_ok(1) [OF assms(9)]
    by (auto simp: link_and_record_def split: prod.split res.split)
qed

end
