(* ===== verification/Plugin_Server.thy ===== *)
theory Plugin_Server
  imports Gpushare_Plugin
begin

text \<open>
  The life of a device plugin, \<open>DevicePluginServer\<close> of \<open>pkg/plugins/base.go\<close>: \<open>Run\<close> serves the
  plugin's socket, waits until it can be dialled, registers with the kubelet and starts over when
  the registration fails or the kubelet's socket is made anew.  \<open>Run\<close> is a state machine with one
  location for each point where the environment acts; channels are numbered in the order they are
  made, and the goroutines that \<open>Serve\<close> starts are the steps of the servers.
\<close>

section \<open>Data\<close>

record DevicePluginServer =
  dp_Endpoint :: string
  dp_ResourceName :: string
  dp_PreStartRequired :: bool

record RegisterRequest =
  rq_Version :: string
  rq_Endpoint :: string
  rq_ResourceName :: string
  rq_PreStartRequired :: bool

datatype crash = CloseOfClosed | ListenFailed

datatype dp_loc =
    AtRestart       \<comment> \<open>the label \<open>restart\<close>\<close>
  | AtSleep         \<comment> \<open>the stop channel is closed, a new one is about to be made\<close>
  | AtWait
  | AtRegister
  | AtSend err      \<comment> \<open>sending into \<open>errChan\<close>\<close>
  | AtSelect
  | Returned
  | Crashed crash

record dp_state =
  loc :: dp_loc
  stoChan :: nat
  closed :: "nat list"
  fresh :: nat                       \<comment> \<open>the next channel\<close>
  errChan :: "err list"
  servers :: "nat list"              \<comment> \<open>the running servers, by their stop channels\<close>
  socket :: "nat option"             \<comment> \<open>the server behind the plugin's socket file\<close>
  requests :: "RegisterRequest list" \<comment> \<open>the registrations sent to the kubelet\<close>

text \<open>
  What the environment does: the outcomes of listening, of dialling the own socket and closing
  the connection, of dialling the kubelet and of the call; the events of \<open>select\<close>; a server that
  has seen its stop channel closed and ends.
\<close>

datatype dp_event =
    EvClose
  | EvServe "errno option"
  | EvWait "err option" "err option"
  | EvRegister "err option" "err option"
  | EvSend
  | EvRecvErr
  | EvKubeletSocket
  | EvOtherFile
  | EvStop
  | EvServerEnds nat

section \<open>The operations\<close>

definition Version :: string where "Version = ''v1beta1''"

definition register_request :: "DevicePluginServer \<Rightarrow> RegisterRequest" where
  "register_request p =
     \<lparr>rq_Version = Version, rq_Endpoint = dp_Endpoint p, rq_ResourceName = dp_ResourceName p,
      rq_PreStartRequired = dp_PreStartRequired p\<rparr>"

text \<open>\<open>Register\<close>: the error it returns and the requests it sends.\<close>

definition Register :: "DevicePluginServer \<Rightarrow> err option \<Rightarrow> err option \<Rightarrow> err option \<times> RegisterRequest list" where
  "Register p dial reply =
     (case dial of
        Some e \<Rightarrow> (Some e, [])
      | None \<Rightarrow> (reply, [register_request p]))"

definition Wait :: "err option \<Rightarrow> err option \<Rightarrow> err option" where
  "Wait dial close = (case dial of Some e \<Rightarrow> Some e | None \<Rightarrow> close)"

text \<open>\<open>close(stoChan)\<close>: closing a closed channel panics.\<close>

definition close_stoChan :: "dp_loc \<Rightarrow> dp_state \<Rightarrow> dp_state" where
  "close_stoChan l s =
     (if stoChan s \<in> set (closed s) then s\<lparr>loc := Crashed CloseOfClosed\<rparr>
      else s\<lparr>closed := closed s @ [stoChan s], loc := l\<rparr>)"

text \<open>
  \<open>stoChan = make(chan struct{})\<close> and \<open>Serve\<close>: the socket file is removed and made again for the
  new server, whose goroutines run from then on; an error of \<open>net.Listen\<close> panics.
\<close>

definition Serve :: "errno option \<Rightarrow> dp_state \<Rightarrow> dp_state" where
  "Serve listen s =
     (case listen of
        Some e \<Rightarrow> s\<lparr>stoChan := fresh s, fresh := Suc (fresh s), socket := None, loc := Crashed ListenFailed\<rparr>
      | None \<Rightarrow> s\<lparr>stoChan := fresh s, fresh := Suc (fresh s), socket := Some (fresh s),
                 servers := servers s @ [fresh s], loc := AtWait\<rparr>)"

text \<open>
  The end of a server: \<open>GracefulStop\<close> closes its listener, which unlinks the socket file by its
  name, whichever server it belongs to.
\<close>

definition server_ends :: "nat \<Rightarrow> dp_state \<Rightarrow> dp_state" where
  "server_ends c s = s\<lparr>servers := remove1 c (servers s), socket := None\<rparr>"

text \<open>One step of \<open>Run\<close> or of a server; \<open>None\<close> where the event cannot happen.\<close>

fun dp_next :: "DevicePluginServer \<Rightarrow> dp_event \<Rightarrow> dp_state \<Rightarrow> dp_state option" where
  "dp_next p EvClose s = (if loc s = AtRestart then Some (close_stoChan AtSleep s) else None)"
| "dp_next p (EvServe listen) s = (if loc s = AtSleep then Some (Serve listen s) else None)"
| "dp_next p (EvWait dial close) s =
     (if loc s = AtWait \<and> (dial = None \<longrightarrow> socket s \<noteq> None)
      then Some (s\<lparr>loc := if Wait dial close = None then AtRegister else AtRestart\<rparr>) else None)"
| "dp_next p (EvRegister dial reply) s =
     (if loc s = AtRegister
      then (case Register p dial reply of
              (None, rs) \<Rightarrow> Some (s\<lparr>loc := AtSelect, requests := requests s @ rs\<rparr>)
            | (Some e, rs) \<Rightarrow> Some (s\<lparr>loc := AtSend e, requests := requests s @ rs\<rparr>))
      else None)"
| "dp_next p EvSend s =
     (case loc s of
        AtSend e \<Rightarrow> if length (errChan s) < 1 then Some (s\<lparr>errChan := errChan s @ [e], loc := AtSelect\<rparr>) else None
      | _ \<Rightarrow> None)"
| "dp_next p EvRecvErr s =
     (if loc s = AtSelect \<and> errChan s \<noteq> [] then Some (s\<lparr>errChan := tl (errChan s), loc := AtRestart\<rparr>) else None)"
| "dp_next p EvKubeletSocket s = (if loc s = AtSelect then Some (s\<lparr>loc := AtRestart\<rparr>) else None)"
| "dp_next p EvOtherFile s = (if loc s = AtSelect then Some s else None)"
| "dp_next p EvStop s = (if loc s = AtSelect then Some (close_stoChan Returned s) else None)"
| "dp_next p (EvServerEnds c) s =
     (if c \<in> set (servers s) \<and> c \<in> set (closed s) then Some (server_ends c s) else None)"

text \<open>The start of \<open>Run\<close>, once the watcher has been made.\<close>

definition dp_init :: dp_state where
  "dp_init =
     \<lparr>loc = AtRestart, stoChan = 0, closed = [], fresh = 1, errChan = [], servers = [], socket = None, requests = []\<rparr>"

text \<open>The steps, and the states reached when the environment keeps to \<open>ok\<close>.\<close>

inductive dp_step :: "DevicePluginServer \<Rightarrow> (dp_state \<Rightarrow> dp_event \<Rightarrow> bool) \<Rightarrow> dp_state \<Rightarrow> dp_state \<Rightarrow> bool"
  for p ok
where
  dp_stepI: "ok s ev \<Longrightarrow> dp_next p ev s = Some s' \<Longrightarrow> dp_step p ok s s'"

inductive_cases dp_stepE: "dp_step p ok s s'"

definition dp_reach :: "DevicePluginServer \<Rightarrow> (dp_state \<Rightarrow> dp_event \<Rightarrow> bool) \<Rightarrow> dp_state \<Rightarrow> bool" where
  "dp_reach p ok s \<longleftrightarrow> (dp_step p ok)\<^sup>*\<^sup>* dp_init s"

lemma dp_steps_induct [consumes 1, case_names init step]:
  assumes "(dp_step p ok)\<^sup>*\<^sup>* s0 s" and "P s0"
    and "\<And>s1 ev s2. P s1 \<Longrightarrow> ok s1 ev \<Longrightarrow> dp_next p ev s1 = Some s2 \<Longrightarrow> P s2"
  shows "P s"
  using assms(1) by (induction rule: rtranclp_induct) (auto intro: assms(2,3) elim: dp_stepE)

lemmas dp_reach_induct [consumes 1, case_names init step] =
  dp_steps_induct [where ?s0.0 = dp_init, folded dp_reach_def]

abbreviation any_env :: "dp_state \<Rightarrow> dp_event \<Rightarrow> bool" where
  "any_env \<equiv> \<lambda>s ev. True"

text \<open>An environment in which the old server has ended before the new one listens.\<close>

definition timely :: "dp_state \<Rightarrow> dp_event \<Rightarrow> bool" where
  "timely s ev \<longleftrightarrow> (case ev of EvServe _ \<Rightarrow> servers s = [] | _ \<Rightarrow> True)"

text \<open>One in which the kubelet does not come back while a failed registration is pending.\<close>

definition calm :: "dp_state \<Rightarrow> dp_event \<Rightarrow> bool" where
  "calm s ev \<longleftrightarrow> (ev = EvKubeletSocket \<longrightarrow> errChan s = [])"

section \<open>Invariants\<close>

text \<open>The locations between the making of a stop channel and its closing.\<close>

definition live_loc :: "dp_loc \<Rightarrow> bool" where
  "live_loc l \<longleftrightarrow> (case l of AtRestart \<Rightarrow> True | AtWait \<Rightarrow> True | AtRegister \<Rightarrow> True | AtSend _ \<Rightarrow> True
                     | AtSelect \<Rightarrow> True | _ \<Rightarrow> False)"

definition dp_inv :: "dp_state \<Rightarrow> bool" where
  "dp_inv s \<longleftrightarrow>
     stoChan s < fresh s \<and> (\<forall>c \<in> set (closed s). c < fresh s) \<and> distinct (closed s)
     \<and> (live_loc (loc s) \<longrightarrow> stoChan s \<notin> set (closed s))
     \<and> (loc s = AtSleep \<or> loc s = Returned \<longrightarrow> stoChan s \<in> set (closed s))
     \<and> loc s \<noteq> Crashed CloseOfClosed
     \<and> (\<forall>c \<in> set (servers s). c < fresh s \<and> (c = stoChan s \<or> c \<in> set (closed s)))
     \<and> distinct (servers s) \<and> length (errChan s) \<le> 1
     \<and> (loc s = AtWait \<or> loc s = AtRegister \<or> loc s = AtSelect \<or> (\<exists>e. loc s = AtSend e) \<longrightarrow> stoChan s \<in> set (servers s))"

lemma dp_inv_init: "dp_inv dp_init"
  by (simp add: dp_inv_def dp_init_def live_loc_def)

lemma live_locs [simp]:
  "live_loc AtRestart" "live_loc AtWait" "live_loc AtRegister" "live_loc (AtSend e)" "live_loc AtSelect"
  "\<not> live_loc AtSleep" "\<not> live_loc Returned" "\<not> live_loc (Crashed x)"
  by (simp_all add: live_loc_def)

lemma dp_inv_close:
  assumes "dp_inv s" "live_loc (loc s)" "l = AtSleep \<or> l = Returned"
  shows "dp_inv (close_stoChan l s)"
proof -
  have "stoChan s \<notin> set (closed s)" using assms by (simp add: dp_inv_def)
  with assms show ?thesis by (elim disjE) (auto simp: dp_inv_def close_stoChan_def)
qed

lemma dp_inv_serve:
  assumes "dp_inv s" "loc s = AtSleep"
  shows "dp_inv (Serve listen s)"
proof -
  have "fresh s \<notin> set (closed s)" "fresh s \<notin> set (servers s)" "\<forall>c \<in> set (servers s). c \<in> set (closed s)"
    using assms by (auto simp: dp_inv_def)
  with assms show ?thesis
    by (cases listen) (auto simp: dp_inv_def Serve_def less_Suc_eq)
qed

lemma dp_inv_ends:
  assumes "dp_inv s" "c \<in> set (closed s)"
  shows "dp_inv (server_ends c s)"
proof -
  have "c = stoChan s \<Longrightarrow> \<not> live_loc (loc s)" using assms by (auto simp: dp_inv_def)
  with assms show ?thesis by (auto simp: dp_inv_def server_ends_def)
qed

lemma dp_inv_move:
  assumes "dp_inv s" "live_loc (loc s)" "live_loc (loc s')" "loc s \<noteq> AtRestart \<or> loc s' = AtRestart"
    and "stoChan s' = stoChan s" "closed s' = closed s" "fresh s' = fresh s" "servers s' = servers s"
    and "length (errChan s') \<le> 1"
  shows "dp_inv s'"
  using assms by (cases "loc s"; cases "loc s'") (simp_all add: dp_inv_def)

lemma dp_inv_next:
  assumes inv: "dp_inv s" and step: "dp_next p ev s = Some s'"
  shows "dp_inv s'"
proof -
  have err: "length (errChan s) \<le> 1" "length (tl (errChan s)) \<le> 1"
    using inv by (auto simp: dp_inv_def)
  show ?thesis
  proof (cases ev)
    case EvClose
    with step show ?thesis by (auto split: if_splits intro!: dp_inv_close [OF inv])
  next
    case (EvServe listen)
    with step show ?thesis by (auto split: if_splits intro!: dp_inv_serve [OF inv])
  next
    case (EvWait dial close)
    with step err show ?thesis by (intro dp_inv_move [OF inv]) (auto split: if_splits)
  next
    case (EvRegister dial reply)
    with step err show ?thesis
      by (intro dp_inv_move [OF inv]) (auto split: prod.splits option.splits if_splits)
  next
    case EvSend
    with step show ?thesis by (intro dp_inv_move [OF inv]) (auto split: dp_loc.splits if_splits)
  next
    case EvRecvErr
    with step err show ?thesis by (intro dp_inv_move [OF inv]) (auto split: if_splits)
  next
    case EvKubeletSocket
    with step err show ?thesis by (intro dp_inv_move [OF inv]) (auto split: if_splits)
  next
    case EvOtherFile
    with step inv show ?thesis by (auto split: if_splits)
  next
    case EvStop
    with step show ?thesis by (auto split: if_splits intro!: dp_inv_close [OF inv])
  next
    case (EvServerEnds c)
    with step show ?thesis by (auto split: if_splits intro!: dp_inv_ends [OF inv])
  qed
qed

lemma dp_inv_reach: "dp_reach p ok s \<Longrightarrow> dp_inv s"
  by (induction rule: dp_reach_induct) (auto simp: dp_inv_init dest: dp_inv_next)

text \<open>With a timely environment the socket is the current server's while \<open>Run\<close> serves.\<close>

definition sock_inv :: "dp_state \<Rightarrow> bool" where
  "sock_inv s \<longleftrightarrow>
     (live_loc (loc s) \<and> loc s \<noteq> AtRestart \<longrightarrow> socket s = Some (stoChan s) \<and> servers s = [stoChan s])
     \<and> (loc s = AtRestart \<longrightarrow> set (servers s) \<subseteq> {stoChan s})"

lemma sock_inv_next:
  assumes inv: "dp_inv s" "sock_inv s" and step: "dp_next p ev s = Some s'" and "timely s ev"
  shows "sock_inv s'"
proof (cases ev)
  case EvClose
  with step show ?thesis by (auto simp: sock_inv_def close_stoChan_def split: if_splits)
next
  case (EvServe listen)
  with step assms(4) show ?thesis
    by (cases listen) (auto simp: sock_inv_def Serve_def timely_def split: if_splits)
next
  case EvStop
  with step show ?thesis by (auto simp: sock_inv_def close_stoChan_def split: if_splits)
next
  case (EvServerEnds c)
  with step have c: "c \<in> set (servers s)" "c \<in> set (closed s)" "s' = server_ends c s"
    by (auto split: if_splits)
  have "\<not> (live_loc (loc s) \<and> loc s \<noteq> AtRestart)"
  proof
    assume l: "live_loc (loc s) \<and> loc s \<noteq> AtRestart"
    then have "c = stoChan s" using inv(2) c(1) by (auto simp: sock_inv_def)
    with l c(2) inv(1) show False by (simp add: dp_inv_def)
  qed
  with inv(2) c set_remove1_subset [of c "servers s"] show ?thesis
    by (auto simp: sock_inv_def server_ends_def)
next
  case (EvRegister dial reply)
  with step inv(2) show ?thesis by (auto simp: sock_inv_def split: if_splits prod.splits option.splits)
next
  case EvSend
  with step inv(2) show ?thesis by (auto simp: sock_inv_def split: if_splits dp_loc.splits)
qed (use step inv(2) in \<open>auto simp: sock_inv_def split: if_splits\<close>)

text \<open>With a calm one an error is pending only while \<open>Run\<close> waits in \<open>select\<close>.\<close>

definition calm_inv :: "dp_state \<Rightarrow> bool" where
  "calm_inv s \<longleftrightarrow> (loc s \<noteq> AtSelect \<and> live_loc (loc s) \<or> loc s = AtSleep \<longrightarrow> errChan s = [])"

lemma calm_inv_next:
  assumes inv: "dp_inv s" "calm_inv s" and step: "dp_next p ev s = Some s'" and "calm s ev"
  shows "calm_inv s'"
proof (cases ev)
  case EvClose
  with step inv(2) show ?thesis by (auto simp: calm_inv_def close_stoChan_def split: if_splits)
next
  case (EvServe listen)
  with step inv(2) show ?thesis by (cases listen) (auto simp: calm_inv_def Serve_def split: if_splits)
next
  case (EvRegister dial reply)
  with step inv(2) show ?thesis by (auto simp: calm_inv_def split: if_splits prod.splits option.splits)
next
  case EvSend
  with step inv(2) show ?thesis by (auto simp: calm_inv_def split: if_splits dp_loc.splits)
next
  case EvRecvErr
  moreover have "length (errChan s) \<le> 1" using inv(1) by (simp add: dp_inv_def)
  ultimately show ?thesis
    using step by (cases "errChan s") (auto simp: calm_inv_def split: if_splits)
next
  case EvStop
  with step show ?thesis by (auto simp: calm_inv_def close_stoChan_def split: if_splits)
next
  case (EvServerEnds c)
  with step inv(2) show ?thesis by (auto simp: calm_inv_def server_ends_def split: if_splits)
qed (use step inv(2) assms(4) in \<open>auto simp: calm_inv_def calm_def split: if_splits\<close>)

lemma sock_inv_init: "sock_inv dp_init"
  by (simp add: sock_inv_def dp_init_def)

lemma calm_inv_init: "calm_inv dp_init"
  by (simp add: calm_inv_def dp_init_def)

lemma sock_inv_reach: "dp_reach p timely s \<Longrightarrow> sock_inv s"
proof -
  have "dp_reach p timely s \<Longrightarrow> dp_inv s \<and> sock_inv s"
    by (induction rule: dp_reach_induct) (auto simp: dp_inv_init sock_inv_init dest: dp_inv_next sock_inv_next)
  then show "dp_reach p timely s \<Longrightarrow> sock_inv s" by simp
qed

lemma calm_inv_reach: "dp_reach p calm s \<Longrightarrow> calm_inv s"
proof -
  have "dp_reach p calm s \<Longrightarrow> dp_inv s \<and> calm_inv s"
    by (induction rule: dp_reach_induct) (auto simp: dp_inv_init calm_inv_init dest: dp_inv_next calm_inv_next)
  then show "dp_reach p calm s \<Longrightarrow> calm_inv s" by simp
qed

section \<open>Runs\<close>

fun dp_run :: "DevicePluginServer \<Rightarrow> dp_event list \<Rightarrow> dp_state \<Rightarrow> dp_state option" where
  "dp_run p [] s = Some s"
| "dp_run p (ev # evs) s = (case dp_next p ev s of None \<Rightarrow> None | Some s' \<Rightarrow> dp_run p evs s')"

lemma dp_run_ok_steps:
  assumes "dp_run p evs s = Some s'" and "\<forall>ev \<in> set evs. \<forall>s. ok s ev"
  shows "(dp_step p ok)\<^sup>*\<^sup>* s s'"
  using assms
proof (induction evs arbitrary: s)
  case (Cons ev evs)
  then obtain s1 where "dp_next p ev s = Some s1" "dp_run p evs s1 = Some s'"
    by (auto split: option.splits)
  with Cons.IH [of s1] Cons.prems(2) dp_stepI [of ok s ev p s1] show ?case
    by (auto intro: converse_rtranclp_into_rtranclp)
qed simp

lemmas dp_run_steps = dp_run_ok_steps [where ok = any_env, simplified]

text \<open>A start that meets no error.\<close>

definition good_start :: "dp_event list" where
  "good_start = [EvClose, EvServe None, EvWait None None, EvRegister None None]"

lemma good_start_run:
  assumes "dp_inv s" "loc s = AtRestart"
  obtains s' where "dp_run p good_start s = Some s'" "loc s' = AtSelect" "socket s' = Some (stoChan s')"
    and "requests s' = requests s @ [register_request p]"
proof -
  have "stoChan s \<notin> set (closed s)" using assms by (simp add: dp_inv_def)
  with assms(2) that show ?thesis
    by (auto simp: good_start_def close_stoChan_def Serve_def Wait_def Register_def)
qed

text \<open>The events that bring a location to the label \<open>restart\<close>.\<close>

fun to_restart :: "dp_loc \<Rightarrow> dp_event list" where
  "to_restart AtSleep = [EvServe None, EvWait (Some EDial) None]"
| "to_restart AtWait = [EvWait (Some EDial) None]"
| "to_restart AtRegister = [EvRegister None None, EvKubeletSocket]"
| "to_restart (AtSend e) = [EvSend, EvKubeletSocket]"
| "to_restart AtSelect = [EvKubeletSocket]"
| "to_restart _ = []"

lemma to_restart_run:
  assumes "loc s \<noteq> Returned" "\<forall>c. loc s \<noteq> Crashed c" "\<forall>e. loc s = AtSend e \<longrightarrow> errChan s = []"
  obtains s' where "dp_run p (to_restart (loc s)) s = Some s'" "loc s' = AtRestart"
  using assms that by (cases "loc s") (auto simp: Serve_def Wait_def Register_def)

lemma blocked_next:
  assumes "loc s = AtSend e" "errChan s \<noteq> []" "dp_next p ev s = Some s'"
  shows "loc s' = AtSend e \<and> errChan s' = errChan s"
  using assms by (cases ev) (auto simp: server_ends_def split: if_splits)

lemma blocked_forever:
  assumes "(dp_step p ok)\<^sup>*\<^sup>* s s'" "loc s = AtSend e" "errChan s \<noteq> []"
  shows "loc s' = AtSend e \<and> errChan s' = errChan s"
  using assms(1)
proof (induction rule: dp_steps_induct)
  case (step s1 ev s2)
  with blocked_next [of s1 e p ev s2] assms(3) show ?case by simp
qed (simp add: assms(2))

lemma requests_next:
  assumes "dp_next p ev s = Some s'"
  shows "\<exists>rs. requests s' = requests s @ rs \<and> set rs \<subseteq> {register_request p} \<and> (rs = [] \<or> loc s = AtRegister)"
proof (cases ev)
  case (EvServe listen)
  with assms show ?thesis by (cases listen) (auto simp: Serve_def split: if_splits)
next
  case (EvRegister dial reply)
  with assms show ?thesis
    by (cases dial; cases reply) (auto simp: Register_def split: if_splits)
next
  case EvSend
  with assms show ?thesis by (cases "loc s") (auto split: if_splits)
next
  case EvClose
  with assms show ?thesis by (auto simp: close_stoChan_def split: if_splits)
next
  case EvStop
  with assms show ?thesis by (auto simp: close_stoChan_def split: if_splits)
qed (use assms in \<open>auto simp: server_ends_def split: if_splits\<close>)

lemma requests_reach:
  assumes "dp_reach p ok s"
  shows "set (requests s) \<subseteq> {register_request p}"
  using assms
proof (induction rule: dp_reach_induct)
  case (step s1 ev s2)
  with requests_next [of p ev s1 s2] show ?case by auto
qed (simp add: dp_init_def)

lemma requests_grow:
  assumes "(dp_step p ok)\<^sup>*\<^sup>* s s'"
  shows "\<exists>rs. requests s' = requests s @ rs"
  using assms
proof (induction rule: dp_steps_induct)
  case (step s1 ev s2)
  with requests_next [of p ev s1 s2] show ?case by auto
qed simp

definition demo_server :: DevicePluginServer where
  "demo_server = \<lparr>dp_Endpoint = ''elastic-gpushare-core.sock'', dp_ResourceName = ResourceGPUCore,
     dp_PreStartRequired = True\<rparr>"

section \<open>Properties\<close>

text \<open>
  C29: \<open>Run\<close> never closes a channel twice, and leaks no server: every server but the current one has
  had its stop channel closed, and when \<open>Run\<close> has returned the current one has too. All it ever
  sends to the kubelet is its own registration.
\<close>

theorem server_channels_safe:
  assumes "dp_reach p any_env s"
  shows "loc s \<noteq> Crashed CloseOfClosed \<and> distinct (closed s) \<and> distinct (servers s)
    \<and> (\<forall>c \<in> set (servers s). c \<noteq> stoChan s \<longrightarrow> c \<in> set (closed s))
    \<and> (loc s = Returned \<longrightarrow> set (servers s) \<subseteq> set (closed s))
    \<and> set (requests s) \<subseteq> {register_request p}"
proof -
  have inv: "dp_inv s" using dp_inv_reach [OF assms] .
  then have srv: "\<forall>c \<in> set (servers s). c = stoChan s \<or> c \<in> set (closed s)" by (simp add: dp_inv_def)
  have "set (servers s) \<subseteq> set (closed s)" if "loc s = Returned"
  proof -
    have "stoChan s \<in> set (closed s)" using inv that by (simp add: dp_inv_def)
    with srv show ?thesis by (intro subsetI) fastforce
  qed
  moreover have "\<forall>c \<in> set (servers s). c \<noteq> stoChan s \<longrightarrow> c \<in> set (closed s)" using srv by blast
  ultimately show ?thesis using inv requests_reach [OF assms] by (simp add: dp_inv_def)
qed

theorem server_channels_safe_witness:
  "\<exists>s. dp_run demo_server (good_start @ [EvStop]) dp_init = Some s \<and> loc s \<noteq> Crashed CloseOfClosed"
proof -
  have "\<exists>s. dp_run demo_server (good_start @ [EvStop]) dp_init = Some s"
    by (simp add: good_start_def close_stoChan_def Serve_def Wait_def Register_def dp_init_def)
  then obtain s where s: "dp_run demo_server (good_start @ [EvStop]) dp_init = Some s" by blast
  then have "dp_reach demo_server any_env s" unfolding dp_reach_def by (rule dp_run_steps)
  with s server_channels_safe show ?thesis by blast
qed

text \<open>
  C30: A plugin registers with its own server behind its socket: if each old server ends before the
  new one listens, the socket file is the current server's from the moment \<open>Serve\<close> returns until
  the next restart, and it is the only server running.
\<close>

theorem server_owns_socket:
  assumes "dp_reach p timely s" and "loc s \<in> {AtWait, AtRegister, AtSelect} \<union> range AtSend"
  shows "socket s = Some (stoChan s) \<and> servers s = [stoChan s] \<and> stoChan s \<notin> set (closed s)"
proof -
  have "live_loc (loc s)" "loc s \<noteq> AtRestart" using assms(2) by auto
  then show ?thesis
    using sock_inv_reach [OF assms(1)] dp_inv_reach [OF assms(1)] by (simp add: sock_inv_def dp_inv_def)
qed

theorem server_owns_socket_witness:
  "\<exists>s. dp_run demo_server good_start dp_init = Some s \<and> socket s = Some (stoChan s)"
proof -
  obtain s1 where s1: "dp_next demo_server EvClose dp_init = Some s1" "servers s1 = []" "loc s1 = AtSleep" "fresh s1 = 1"
    by (simp add: dp_init_def close_stoChan_def)
  have "dp_reach demo_server timely (Serve None s1)"
    unfolding dp_reach_def
  proof (rule converse_rtranclp_into_rtranclp)
    show "dp_step demo_server timely dp_init s1" using s1(1) by (intro dp_stepI [of timely _ EvClose]) (simp_all add: timely_def)
    show "(dp_step demo_server timely)\<^sup>*\<^sup>* s1 (Serve None s1)"
      using s1 by (intro r_into_rtranclp dp_stepI [of timely _ "EvServe None"]) (simp_all add: timely_def)
  qed
  then have "socket (Serve None s1) = Some (stoChan (Serve None s1))"
    by (rule server_owns_socket [THEN conjunct1]) (simp add: Serve_def)
  with s1 show ?thesis by (simp add: good_start_def Serve_def Wait_def Register_def)
qed

text \<open>
  C31: Whatever has gone wrong, a plugin that is neither stopped nor blocked can come back: when the
  kubelet and the file system cooperate it serves its socket again, and has sent the kubelet
  one more registration, with its own endpoint and resource.
\<close>

theorem server_can_recover:
  assumes "dp_reach p any_env s" and "loc s \<noteq> Returned" and "\<forall>c. loc s \<noteq> Crashed c"
    and "\<forall>e. loc s = AtSend e \<longrightarrow> errChan s = []"
  shows "\<exists>s'. (dp_step p any_env)\<^sup>*\<^sup>* s s' \<and> loc s' = AtSelect \<and> socket s' = Some (stoChan s')
    \<and> (\<exists>rs. requests s' = requests s @ rs @ [register_request p])"
proof -
  obtain s1 where s1: "dp_run p (to_restart (loc s)) s = Some s1" "loc s1 = AtRestart"
    using to_restart_run [OF assms(2-4)] .
  have "dp_reach p any_env s1"
    using assms(1) dp_run_steps [OF s1(1)] by (simp add: dp_reach_def)
  then obtain s2 where "dp_run p good_start s1 = Some s2" "loc s2 = AtSelect" "socket s2 = Some (stoChan s2)"
      "requests s2 = requests s1 @ [register_request p]"
    using good_start_run [OF dp_inv_reach s1(2)] by blast
  moreover obtain rs where "requests s1 = requests s @ rs" using requests_grow [OF dp_run_steps [OF s1(1)]] by blast
  ultimately show ?thesis
    using rtranclp_trans [OF dp_run_steps [OF s1(1)] dp_run_steps, of good_start s2] by (intro exI [of _ s2]) simp
qed

theorem server_can_recover_witness:
  "\<exists>s'. (dp_step demo_server any_env)\<^sup>*\<^sup>* dp_init s' \<and> loc s' = AtSelect
     \<and> register_request demo_server \<in> set (requests s')"
  using server_can_recover [of demo_server dp_init] by (auto simp: dp_reach_def dp_init_def)

text \<open>
  C32: A registration that fails while an earlier failure is still in \<open>errChan\<close> blocks \<open>Run\<close> for ever:
  whatever happens afterwards it stays at its send, deaf to the kubelet's return and to \<open>stop\<close>.  This
  does happen, when the kubelet comes back between a failed registration and its receipt; without
  that every send of a failure goes through and \<open>Run\<close> comes to its \<open>select\<close>.
\<close>

theorem server_blocks_on_full_channel:
  "(\<forall>s dial reply e rs. loc s = AtRegister \<and> errChan s \<noteq> [] \<and> Register p dial reply = (Some e, rs) \<longrightarrow>
      (\<exists>s1. dp_next p (EvRegister dial reply) s = Some s1 \<and> (\<forall>s'. (dp_step p any_env)\<^sup>*\<^sup>* s1 s' \<longrightarrow> loc s' = AtSend e)))
   \<and> (\<exists>s. dp_reach p any_env s \<and> loc s = AtRegister \<and> errChan s \<noteq> [])
   \<and> (\<forall>s e. dp_reach p calm s \<and> loc s = AtSend e \<longrightarrow> (\<exists>s'. dp_next p EvSend s = Some s' \<and> loc s' = AtSelect))"
proof (intro conjI allI impI)
  fix s :: dp_state and dial reply e rs
  assume s: "loc s = AtRegister \<and> errChan s \<noteq> [] \<and> Register p dial reply = (Some e, rs)"
  let ?s1 = "s\<lparr>loc := AtSend e, requests := requests s @ rs\<rparr>"
  have "dp_next p (EvRegister dial reply) s = Some ?s1" using s by simp
  moreover have "loc s' = AtSend e" if "(dp_step p any_env)\<^sup>*\<^sup>* ?s1 s'" for s'
    using blocked_forever [OF that] s by simp
  ultimately show "\<exists>s1. dp_next p (EvRegister dial reply) s = Some s1
      \<and> (\<forall>s'. (dp_step p any_env)\<^sup>*\<^sup>* s1 s' \<longrightarrow> loc s' = AtSend e)" by blast
next
  let ?evs = "[EvClose, EvServe None, EvWait None None, EvRegister (Some EDial) None, EvSend, EvKubeletSocket,
      EvClose, EvServe None, EvWait None None]"
  obtain s where s: "dp_run p ?evs dp_init = Some s" "loc s = AtRegister" "errChan s = [EDial]"
    by (simp add: dp_init_def close_stoChan_def Serve_def Wait_def Register_def)
  then have "dp_reach p any_env s" unfolding dp_reach_def by (blast dest: dp_run_steps)
  with s show "\<exists>s. dp_reach p any_env s \<and> loc s = AtRegister \<and> errChan s \<noteq> []"
    by (metis list.distinct(1))
next
  fix s e assume s: "dp_reach p calm s \<and> loc s = AtSend e"
  then have "errChan s = []" using calm_inv_reach by (auto simp: calm_inv_def)
  with s show "\<exists>s'. dp_next p EvSend s = Some s' \<and> loc s' = AtSelect" by simp
qed

theorem server_blocks_on_full_channel_witness:
  "\<exists>s s'. dp_reach demo_server calm s \<and> loc s = AtSend EDial \<and> dp_next demo_server EvSend s = Some s' \<and> loc s' = AtSelect"
proof -
  let ?evs = "[EvClose, EvServe None, EvWait None None, EvRegister (Some EDial) None]"
  obtain s where s: "dp_run demo_server ?evs dp_init = Some s" "loc s = AtSend EDial"
    by (simp add: dp_init_def close_stoChan_def Serve_def Wait_def Register_def)
  then have "dp_reach demo_server calm s" unfolding dp_reach_def
    by (intro dp_run_ok_steps [OF s(1)]) (simp add: calm_def)
  with s(2) server_blocks_on_full_channel [of demo_server] show ?thesis by blast
qed

end
