(* ===== verification/Gc.thy ===== *)
theory Gc
  imports Gpushare_Plugin
begin

text \<open>
  The garbage collector of \<open>pkg/plugins/base.go\<close> (\<open>GPUSharePlugin.GC\<close>): one round removes the links
  and the records of the pods that are gone.  Go iterates over a map in an order of its own;
  \<open>ord\<close> is that order, for each record.
\<close>

section \<open>The model\<close>

definition UselessNumber :: int where "UselessNumber = -1"

text \<open>
  What the collector is woken by: an object of the channel, which it tests for being a pod value
  (\<open>o.(v1.Pod)\<close>), or the passing of a minute.
\<close>

datatype gc_event = GcPodValue Pod | GcPodPointer Pod | GcOtherObject | GcMinute

definition gc_wakes :: "gc_event \<Rightarrow> bool" where
  "gc_wakes ev =
     (case ev of
        GcPodValue pod \<Rightarrow> map_of (Annotations pod) ElasticGPUAssumedAnnotation = Some ''true''
      | _ \<Rightarrow> True)"

record line =
  ln_namespace :: string
  ln_name :: string
  ln_container :: string
  ln_device :: "Device option"

type_synonym map_order = "PodInfo \<Rightarrow> devmap \<Rightarrow> devmap"

text \<open>The callback of \<open>ForEach\<close>: the devices of a pod that neither the cache nor the server has.\<close>

definition pod_gone :: "PodSitter \<Rightarrow> PodInfo \<Rightarrow> bool" where
  "pod_gone st info =
     (case GetPod (Namespace info) (Name info) st of
        Ok _ \<Rightarrow> False
      | _ \<Rightarrow> IsNotFound (GetPodFromApiServer (Namespace info) (Name info) st))"

definition lines_of :: "map_order \<Rightarrow> PodInfo \<Rightarrow> line list" where
  "lines_of ord info =
     (case ContainerDeviceMap info of
        None \<Rightarrow> []
      | Some m \<Rightarrow>
          map (\<lambda>(c, d). \<lparr>ln_namespace = Namespace info, ln_name = Name info, ln_container = c, ln_device = d\<rparr>)
            (ord info m))"

definition collect_pod :: "map_order \<Rightarrow> PodSitter \<Rightarrow> PodInfo \<Rightarrow> line list \<Rightarrow> unit res \<times> line list" where
  "collect_pod ord st info devicesToDelete =
     (Ok (), if pod_gone st info then devicesToDelete @ lines_of ord info else devicesToDelete)"

text \<open>The inner loop over the link indexes; the first error ends it.\<close>

fun delete_seq :: "GPUOperator \<Rightarrow> string \<Rightarrow> nat list \<Rightarrow> host_fs \<Rightarrow> err option \<times> host_fs" where
  "delete_seq oper h [] fs = (None, fs)"
| "delete_seq oper h (i # js) fs =
     (case op_Delete oper UselessNumber (link_id h i) fs of
        (Some e, fs) \<Rightarrow> (Some e, fs)
      | (None, fs) \<Rightarrow> delete_seq oper h js fs)"

text \<open>
  The loop over the collected devices: an error on the first link ends the whole loop
  (\<open>break\<close>), an error on a later link goes on with the next device (\<open>continue\<close>); a nil device is
  a nil dereference.
\<close>

fun gc_lines :: "line list \<Rightarrow> agent \<Rightarrow> unit res \<times> agent" where
  "gc_lines [] ag = (Ok (), ag)"
| "gc_lines (l # ls) ag =
     (case ln_device l of
        None \<Rightarrow> (Panic, ag)
      | Some d \<Rightarrow>
          (case op_Delete (Operator ag) UselessNumber (link_id (Hash d) 0) (host ag) of
             (Some e, fs) \<Rightarrow> (Ok (), ag\<lparr>host := fs\<rparr>)
           | (None, fs) \<Rightarrow>
               (case (if ResourceName d = ResourceGPUCore \<and> length (DevList d) > 100
                      then delete_seq (Operator ag) (Hash d) [1..<length (DevList d) div 100] fs
                      else (None, fs)) of
                  (Some e, fs) \<Rightarrow> gc_lines ls (ag\<lparr>host := fs\<rparr>)
                | (None, fs) \<Rightarrow>
                    (case Storage_Delete (ln_namespace l) (ln_name l) (Storage ag) of
                       (Panic, db) \<Rightarrow> (Panic, ag\<lparr>host := fs, Storage := db\<rparr>)
                     | (_, db) \<Rightarrow> gc_lines ls (ag\<lparr>host := fs, Storage := db\<rparr>)))))"

text \<open>One turn of the collector's loop; an error of \<open>ForEach\<close> is logged and what it collected is used.\<close>

definition gc_round :: "map_order \<Rightarrow> gc_event \<Rightarrow> agent \<Rightarrow> unit res \<times> agent" where
  "gc_round ord ev ag =
     (if \<not> gc_wakes ev then (Ok (), ag)
      else (case ForEach (collect_pod ord (Sitter ag)) (Storage ag) [] of
              (Panic, _) \<Rightarrow> (Panic, ag)
            | (_, devicesToDelete) \<Rightarrow> gc_lines devicesToDelete ag))"

section \<open>Lemmas\<close>

definition map_order_ok :: "map_order \<Rightarrow> bool" where
  "map_order_ok ord \<longleftrightarrow> (\<forall>i m. mset (ord i m) = mset m)"

definition gone_pods :: "agent \<Rightarrow> PodInfo list" where
  "gone_pods ag = filter (pod_gone (Sitter ag)) (pod_list (Storage ag))"

definition gc_work :: "map_order \<Rightarrow> agent \<Rightarrow> line list" where
  "gc_work ord ag = concat (map (lines_of ord) (gone_pods ag))"

lemma pod_gone_absent:
  "pod_gone st i \<Longrightarrow> \<not> in_cache st (Namespace i) (Name i) \<and> \<not> maybe_served st (Namespace i) (Name i)"
  by (rule kube.absent_twice) (auto simp: pod_gone_def split: res.splits)

lemma pod_gone_cong: "Namespace i = Namespace j \<Longrightarrow> Name i = Name j \<Longrightarrow> pod_gone st i = pod_gone st j"
  by (simp only: pod_gone_def)

lemma visit_collect:
  "visit_pods (collect_pod ord st) is acc = (Ok (), acc @ concat (map (lines_of ord) (filter (pod_gone st) is)))"
  by (induction "is" arbitrary: acc) (auto simp: collect_pod_def)

lemma gc_round_lines:
  assumes "store_ok (Storage ag)" "opened (Storage ag)" "gc_wakes ev"
  shows "gc_round ord ev ag = gc_lines (gc_work ord ag) ag"
  using assms by (simp add: gc_round_def ForEach_visit visit_collect gc_work_def gone_pods_def)

text \<open>How many links a device has: the number \<open>Allocate\<close> mounts.\<close>

definition link_count :: "Device \<Rightarrow> nat" where
  "link_count d =
     (if ResourceName d = ResourceGPUCore \<and> length (DevList d) > 100 then length (DevList d) div 100 else 1)"

lemma link_count_pos: "0 < link_count d"
  using div_le_mono [of 100 "length (DevList d)" 100] by (auto simp: link_count_def)

context gpu_operator
begin

lemma delete_seq_frame:
  "\<forall>i \<in> set is. a \<noteq> link_id h i \<Longrightarrow> view (snd (delete_seq oper h is fs)) a = view fs a"
proof (induction "is" arbitrary: fs)
  case (Cons i "is")
  with Cons.IH delete_frame [of a "link_id h i" UselessNumber fs] show ?case
    by (auto split: prod.split option.split)
qed simp

lemma delete_seq_made:
  assumes "ready fs" "distinct is" "\<forall>i \<in> set is. \<exists>g. view fs (link_id h i) = made g"
  shows "fst (delete_seq oper h is fs) = None \<and> ready (snd (delete_seq oper h is fs))
    \<and> (\<forall>i \<in> set is. view (snd (delete_seq oper h is fs)) (link_id h i) = absent)"
  using assms
proof (induction "is" arbitrary: fs)
  case (Cons i "is")
  obtain fs1 where fs1: "op_Delete oper UselessNumber (link_id h i) fs = (None, fs1)"
    using delete_succeeds [of fs "link_id h i"] Cons.prems by (metis list.set_intros(1) prod.collapse)
  then have r: "ready fs1" "view fs1 (link_id h i) = absent"
    using delete_ready [of fs UselessNumber "link_id h i"] delete_absent [of fs "link_id h i" _ UselessNumber] Cons.prems
    by auto
  have "\<exists>g. view fs1 (link_id h j) = made g" if "j \<in> set is" for j
    using delete_frame [of "link_id h j" "link_id h i" UselessNumber fs] fs1 Cons.prems that by force
  with Cons r delete_seq_frame [of "is" "link_id h i" h fs1] fs1 show ?case by auto
qed simp

lemma gc_lines_frame:
  "\<forall>l \<in> set ls. \<forall>d. ln_device l = Some d \<longrightarrow> (\<forall>i < link_count d. a \<noteq> link_id (Hash d) i) \<Longrightarrow>
   Operator ag = oper \<Longrightarrow> view (host (snd (gc_lines ls ag))) a = view (host ag) a"
proof (induction ls arbitrary: ag)
  case (Cons l ls)
  show ?case
  proof (cases "ln_device l")
    case (Some d)
    then have ne: "a \<noteq> link_id (Hash d) i" if "i < link_count d" for i
      using Cons.prems that by simp
    obtain e fs1 where fs1: "op_Delete oper UselessNumber (link_id (Hash d) 0) (host ag) = (e, fs1)" by force
    let ?rest = "if ResourceName d = ResourceGPUCore \<and> length (DevList d) > 100
      then delete_seq oper (Hash d) [1..<length (DevList d) div 100] fs1 else (None, fs1)"
    obtain e' fs2 where fs2: "?rest = (e', fs2)" by force
    have v1: "view fs1 a = view (host ag) a"
      using delete_frame [of a "link_id (Hash d) 0" UselessNumber "host ag"] fs1 ne [of 0] link_count_pos by simp
    have "view fs2 a = view fs1 a"
      using fs2 ne delete_seq_frame [of "[1..<length (DevList d) div 100]" a "Hash d" fs1]
      by (auto simp: link_count_def split: if_splits)
    then show ?thesis
      using Cons fs1 fs2 v1 Some by (auto split: option.split prod.split res.split)
  qed simp
qed simp

lemma gc_line_collects:
  assumes "Operator ag = oper" "ready (host ag)" "usable (Storage ag)" "ln_device l = Some d"
    and "\<forall>i < link_count d. \<exists>g. view (host ag) (link_id (Hash d) i) = made g"
  obtains fs where "gc_lines (l # ls) ag =
      gc_lines ls (ag\<lparr>host := fs, Storage := snd (Storage_Delete (ln_namespace l) (ln_name l) (Storage ag))\<rparr>)"
    and "ready fs" "\<forall>i < link_count d. view fs (link_id (Hash d) i) = absent"
    and "\<And>a. \<forall>i < link_count d. a \<noteq> link_id (Hash d) i \<Longrightarrow> view fs a = view (host ag) a"
proof -
  let ?m = "if ResourceName d = ResourceGPUCore \<and> length (DevList d) > 100 then length (DevList d) div 100 else 1"
  have m: "link_count d = ?m" by (simp add: link_count_def)
  have seq: "delete_seq oper (Hash d) [0..<link_count d] (host ag) =
      (case op_Delete oper UselessNumber (link_id (Hash d) 0) (host ag) of
         (Some e, fs) \<Rightarrow> (Some e, fs)
       | (None, fs) \<Rightarrow> delete_seq oper (Hash d) [1..<link_count d] fs)"
    using link_count_pos [of d] by (simp add: upt_rec [of 0] split: prod.split option.split)
  have all: "\<forall>i \<in> set [0..<link_count d]. \<exists>g. view (host ag) (link_id (Hash d) i) = made g"
    using assms(5) by simp
  obtain fs where fs: "delete_seq oper (Hash d) [0..<link_count d] (host ag) = (None, fs)" "ready fs"
      "\<forall>i \<in> set [0..<link_count d]. view fs (link_id (Hash d) i) = absent"
    using delete_seq_made [OF assms(2) distinct_upt all] by (metis prod.collapse)
  obtain fs1 where fs1: "op_Delete oper UselessNumber (link_id (Hash d) 0) (host ag) = (None, fs1)"
      "delete_seq oper (Hash d) [1..<link_count d] fs1 = (None, fs)"
    using fs(1) unfolding seq by (auto split: prod.splits option.splits)
  then have "(if ResourceName d = ResourceGPUCore \<and> length (DevList d) > 100
      then delete_seq oper (Hash d) [1..<length (DevList d) div 100] fs1 else (None, fs1)) = (None, fs)"
    by (auto simp: m split: if_splits)
  moreover have "fst (Storage_Delete (ln_namespace l) (ln_name l) (Storage ag)) = Ok ()"
    using assms(3) by (rule bolt.delete_ok)
  ultimately have "gc_lines (l # ls) ag =
      gc_lines ls (ag\<lparr>host := fs, Storage := snd (Storage_Delete (ln_namespace l) (ln_name l) (Storage ag))\<rparr>)"
    using assms(1,4) fs1(1) by (auto split: prod.split)
  moreover have "view fs a = view (host ag) a" if "\<forall>i < link_count d. a \<noteq> link_id (Hash d) i" for a
    using delete_seq_frame [of "[0..<link_count d]" a "Hash d" "host ag"] that fs(1) by simp
  ultimately show ?thesis using that fs by auto
qed

text \<open>The round when nothing fails: every link is removed and every record deleted.\<close>

lemma gc_lines_collects:
  assumes "Operator ag = oper" "ready (host ag)" "usable (Storage ag)"
    and "\<forall>l \<in> set ls. plain_elem (ln_namespace l) \<and> plain_elem (ln_name l)"
    and "\<forall>l \<in> set ls. \<exists>d. ln_device l = Some d \<and> CHR ''-'' \<notin> set (Hash d)
      \<and> (\<forall>i < link_count d. \<exists>g. view (host ag) (link_id (Hash d) i) = made g)"
    and "distinct (map (Hash \<circ> the \<circ> ln_device) ls)"
  shows "fst (gc_lines ls ag) = Ok ()
    \<and> (\<forall>l \<in> set ls. \<forall>i < link_count (the (ln_device l)).
         view (host (snd (gc_lines ls ag))) (link_id (Hash (the (ln_device l))) i) = absent)
    \<and> (\<forall>k. pods_of (Storage (snd (gc_lines ls ag))) k =
         (if k \<in> (\<lambda>l. (ln_namespace l, ln_name l)) ` set ls then None else pods_of (Storage ag) k))"
  using assms
proof (induction ls arbitrary: ag)
  case (Cons l ls)
  obtain d where d: "ln_device l = Some d" "CHR ''-'' \<notin> set (Hash d)"
      "\<forall>i < link_count d. \<exists>g. view (host ag) (link_id (Hash d) i) = made g"
    using Cons.prems(5) by auto
  let ?db = "snd (Storage_Delete (ln_namespace l) (ln_name l) (Storage ag))"
  obtain fs where fs: "gc_lines (l # ls) ag = gc_lines ls (ag\<lparr>host := fs, Storage := ?db\<rparr>)" "ready fs"
      "\<forall>i < link_count d. view fs (link_id (Hash d) i) = absent"
      "\<And>a. \<forall>i < link_count d. a \<noteq> link_id (Hash d) i \<Longrightarrow> view fs a = view (host ag) a"
    using gc_line_collects [OF Cons.prems(1-3) d(1,3)] by blast
  let ?ag = "ag\<lparr>host := fs, Storage := ?db\<rparr>"
  have other: "link_id (Hash e) i \<noteq> link_id (Hash d) j" if "l' \<in> set ls" "ln_device l' = Some e" for l' e i j
  proof -
    have "Hash e \<noteq> Hash d"
      using Cons.prems(6) d(1) that by (force simp: image_iff)
    moreover have "CHR ''-'' \<notin> set (Hash e)" using Cons.prems(5) that by fastforce
    ultimately show ?thesis using d(2) by (simp add: link_id_hash)
  qed
  have "\<exists>e. ln_device l' = Some e \<and> CHR ''-'' \<notin> set (Hash e)
      \<and> (\<forall>i < link_count e. \<exists>g. view fs (link_id (Hash e) i) = made g)" if l': "l' \<in> set ls" for l'
  proof -
    obtain e where e: "ln_device l' = Some e" "CHR ''-'' \<notin> set (Hash e)"
        "\<forall>i < link_count e. \<exists>g. view (host ag) (link_id (Hash e) i) = made g"
      using Cons.prems(5) l' by auto
    have "view fs (link_id (Hash e) i) = view (host ag) (link_id (Hash e) i)" for i
      using fs(4) other [OF l' e(1)] by blast
    with e show ?thesis by auto
  qed
  then have IH: "fst (gc_lines ls ?ag) = Ok ()
    \<and> (\<forall>l \<in> set ls. \<forall>i < link_count (the (ln_device l)).
         view (host (snd (gc_lines ls ?ag))) (link_id (Hash (the (ln_device l))) i) = absent)
    \<and> (\<forall>k. pods_of (Storage (snd (gc_lines ls ?ag))) k =
         (if k \<in> (\<lambda>l. (ln_namespace l, ln_name l)) ` set ls then None else pods_of ?db k))"
    using Cons.IH [of ?ag] Cons.prems fs(2) bolt.delete_ready by simp
  have gone: "view (host (snd (gc_lines ls ?ag))) (link_id (Hash d) i) = absent" if "i < link_count d" for i
  proof -
    have "\<forall>l' \<in> set ls. \<forall>e. ln_device l' = Some e \<longrightarrow> (\<forall>j < link_count e. link_id (Hash d) i \<noteq> link_id (Hash e) j)"
      using other by metis
    then show ?thesis
      using gc_lines_frame [of ls "link_id (Hash d) i" ?ag] Cons.prems(1) fs(3) that by simp
  qed
  have "pods_of ?db = (pods_of (Storage ag))((ln_namespace l, ln_name l) := None)"
    using Cons.prems(3,4) by (intro bolt.delete_view) auto
  with IH fs(1) d(1) gone show ?case by auto
qed simp

end

lemma Storage_Delete_frame:
  assumes "store_ok db" "plain_elem ns" "plain_elem n"
  shows "store_ok (snd (Storage_Delete ns n db))"
    and "opened (snd (Storage_Delete ns n db)) = opened db"
    and "k \<noteq> (ns, n) \<Longrightarrow> pods_of (snd (Storage_Delete ns n db)) k = pods_of db k"
  using Storage_Delete_states(1,2) [OF assms] store_ok_delI [OF assms(1), of "ns @ ''/'' @ n"] assms(1)
  by auto

text \<open>What the deletions keep whatever fails: the store stays well formed, other pods keep their records.\<close>

lemma gc_lines_keeps:
  "\<forall>l \<in> set ls. plain_elem (ln_namespace l) \<and> plain_elem (ln_name l) \<Longrightarrow> store_ok (Storage ag) \<Longrightarrow>
   store_ok (Storage (snd (gc_lines ls ag))) \<and> opened (Storage (snd (gc_lines ls ag))) = opened (Storage ag)
   \<and> Sitter (snd (gc_lines ls ag)) = Sitter ag \<and> Operator (snd (gc_lines ls ag)) = Operator ag
   \<and> (k \<notin> (\<lambda>l. (ln_namespace l, ln_name l)) ` set ls \<longrightarrow>
        pods_of (Storage (snd (gc_lines ls ag))) k = pods_of (Storage ag) k)"
proof (induction ls arbitrary: ag)
  case (Cons l ls)
  have d: "store_ok (snd (Storage_Delete (ln_namespace l) (ln_name l) (Storage ag)))"
    "opened (snd (Storage_Delete (ln_namespace l) (ln_name l) (Storage ag))) = opened (Storage ag)"
    "k \<noteq> (ln_namespace l, ln_name l) \<Longrightarrow>
     pods_of (snd (Storage_Delete (ln_namespace l) (ln_name l) (Storage ag))) k = pods_of (Storage ag) k"
    using Storage_Delete_frame [of "Storage ag" "ln_namespace l" "ln_name l"] Cons.prems by auto
  obtain r db where db: "Storage_Delete (ln_namespace l) (ln_name l) (Storage ag) = (r, db)" by force
  have later: "store_ok (Storage (snd (gc_lines ls ag'))) \<and> opened (Storage (snd (gc_lines ls ag'))) = opened (Storage ag')
      \<and> Sitter (snd (gc_lines ls ag')) = Sitter ag' \<and> Operator (snd (gc_lines ls ag')) = Operator ag'
      \<and> (k \<notin> (\<lambda>l. (ln_namespace l, ln_name l)) ` set ls \<longrightarrow>
           pods_of (Storage (snd (gc_lines ls ag'))) k = pods_of (Storage ag') k)"
    if "store_ok (Storage ag')" for ag'
    using Cons.IH [of ag'] Cons.prems that by simp
  show ?case
    using Cons.prems d db later
    by (auto split: option.split prod.split res.split)
qed simp

definition gone_devices :: "agent \<Rightarrow> Device option list" where
  "gone_devices ag =
     concat (map (\<lambda>i. case ContainerDeviceMap i of None \<Rightarrow> [] | Some m \<Rightarrow> map snd m) (gone_pods ag))"

lemma gone_pods_view:
  assumes "store_ok (Storage ag)"
  shows "i \<in> set (gone_pods ag) \<longleftrightarrow>
    pods_of (Storage ag) (Namespace i, Name i) = Some i \<and> pod_gone (Sitter ag) i"
  using pod_list_view [OF assms] by (auto simp: gone_pods_def)

lemma gone_pods_plain:
  "store_ok (Storage ag) \<Longrightarrow> i \<in> set (gone_pods ag) \<Longrightarrow> plain_elem (Namespace i) \<and> plain_elem (Name i)"
  by (auto simp: gone_pods_view pods_of_def split: if_splits)

lemma gc_work_devices:
  assumes "map_order_ok ord"
  shows "mset (map ln_device (gc_work ord ag)) = mset (gone_devices ag)"
proof -
  have "mset (map ln_device (lines_of ord i)) =
      mset (case ContainerDeviceMap i of None \<Rightarrow> [] | Some m \<Rightarrow> map snd m)" for i
    using assms by (auto simp: lines_of_def map_order_ok_def o_def case_prod_unfold split: option.split
        simp flip: mset_map) (metis mset_map)
  then have "mset (concat (map (map ln_device \<circ> lines_of ord) is)) =
      mset (concat (map (\<lambda>i. case ContainerDeviceMap i of None \<Rightarrow> [] | Some m \<Rightarrow> map snd m) is))" for "is"
    by (induction "is") auto
  then show ?thesis
    by (simp add: gc_work_def gone_devices_def map_concat)
qed

lemma gc_work_names:
  assumes "l \<in> set (gc_work ord ag)"
  obtains i where "i \<in> set (gone_pods ag)" "ln_namespace l = Namespace i" "ln_name l = Name i"
  using assms by (auto simp: gc_work_def lines_of_def split: option.splits)

lemma gc_work_plain:
  "store_ok (Storage ag) \<Longrightarrow> l \<in> set (gc_work ord ag) \<Longrightarrow> plain_elem (ln_namespace l) \<and> plain_elem (ln_name l)"
  by (metis gc_work_names gone_pods_plain)

text \<open>The work of a round when one recorded pod with one device is gone.\<close>

lemma gc_work_single:
  assumes "store_ok (Storage ag)" "map_order_ok ord" "pods_of (Storage ag) (ns, n) = Some i"
    and "ContainerDeviceMap i = Some [(c, Some d)]"
    and "pod_gone (Sitter ag) i" "\<forall>k j. k \<noteq> (ns, n) \<longrightarrow> pods_of (Storage ag) k = Some j \<longrightarrow> \<not> pod_gone (Sitter ag) j"
  shows "gc_work ord ag = [\<lparr>ln_namespace = ns, ln_name = n, ln_container = c, ln_device = Some d\<rparr>]"
proof -
  have named: "Namespace i = ns" "Name i = n" using pods_of_named [OF assms(3)] by auto
  have "x \<in> set (gone_pods ag) \<longleftrightarrow> x = i" for x
    using gone_pods_view [OF assms(1), of x] assms(3,5,6) named by (metis option.inject)
  moreover have "distinct (gone_pods ag)"
    using pod_list_distinct [OF assms(1)] by (auto simp: gone_pods_def distinct_map intro: distinct_filter)
  ultimately have "gone_pods ag = [i]"
    by (cases "gone_pods ag") (auto, metis list.set_intros(1) list.exhaust)
  moreover have "ord i [(c, Some d)] = [(c, Some d)]"
    using assms(2) by (metis map_order_ok_def mset_single_iff_right mset.simps mset_zero_iff)
  ultimately show ?thesis by (simp add: gc_work_def lines_of_def assms(4) named)
qed

lemma gc_round_keeps:
  assumes "store_ok (Storage ag)" "k \<notin> (\<lambda>i. (Namespace i, Name i)) ` set (gone_pods ag)"
  shows "pods_of (Storage (snd (gc_round ord ev ag))) k = pods_of (Storage ag) k"
proof (cases "gc_wakes ev \<and> opened (Storage ag)")
  case True
  then have "gc_round ord ev ag = gc_lines (gc_work ord ag) ag"
    using assms(1) by (simp add: gc_round_lines)
  moreover have "k \<notin> (\<lambda>l. (ln_namespace l, ln_name l)) ` set (gc_work ord ag)"
    using assms(2) by (auto elim!: gc_work_names)
  ultimately show ?thesis
    using gc_lines_keeps [of "gc_work ord ag" ag k] assms(1) gc_work_plain by simp
next
  case False
  then show ?thesis by (auto simp: gc_round_def ForEach_def)
qed

lemma gc_work_names_all:
  assumes "map_order_ok ord" "\<forall>i \<in> set (gone_pods ag). \<exists>m. ContainerDeviceMap i = Some m \<and> m \<noteq> []"
  shows "(\<lambda>l. (ln_namespace l, ln_name l)) ` set (gc_work ord ag) = (\<lambda>i. (Namespace i, Name i)) ` set (gone_pods ag)"
proof -
  have "\<exists>l \<in> set (lines_of ord i). ln_namespace l = Namespace i \<and> ln_name l = Name i"
    if i: "i \<in> set (gone_pods ag)" for i
  proof -
    obtain m where m: "ContainerDeviceMap i = Some m" "m \<noteq> []" using assms(2) i by blast
    then have "ord i m \<noteq> []" using assms(1) by (metis map_order_ok_def mset_zero_iff)
    with m show ?thesis by (cases "ord i m") (auto simp: lines_of_def)
  qed
  note named = this
  show ?thesis
  proof (intro equalityI subsetI)
    fix k assume "k \<in> (\<lambda>l. (ln_namespace l, ln_name l)) ` set (gc_work ord ag)"
    then show "k \<in> (\<lambda>i. (Namespace i, Name i)) ` set (gone_pods ag)"
      by (auto elim!: gc_work_names)
  next
    fix k assume "k \<in> (\<lambda>i. (Namespace i, Name i)) ` set (gone_pods ag)"
    then obtain i where "k = (Namespace i, Name i)" "i \<in> set (gone_pods ag)" by blast
    with named [of i] show "k \<in> (\<lambda>l. (ln_namespace l, ln_name l)) ` set (gc_work ord ag)"
      by (force simp: gc_work_def)
  qed
qed

text \<open>What the deletions keep of the file system.\<close>

lemma delete_seq_nodes:
  "\<not> is_link_path p \<Longrightarrow> node_at (snd (delete_seq gpushare_operator h is fs)) p = node_at fs p"
proof (induction "is" arbitrary: fs)
  case (Cons i "is")
  have "p \<noteq> sym_link (link_id h i)" "p \<noteq> ctl_link (link_id h i)" using Cons.prems by auto
  with Cons Delete_other [of p "link_id h i" NewGPUShareOperator UselessNumber fs] show ?case
    by (auto split: prod.split option.split)
qed simp

lemma delete_seq_fs:
  "fault (snd (delete_seq gpushare_operator h is fs)) = fault fs
   \<and> (fs_ok fs \<longrightarrow> fs_ok (snd (delete_seq gpushare_operator h is fs)))"
proof (induction "is" arbitrary: fs)
  case (Cons i "is")
  obtain e fs1 where fs1: "GPUShare_Delete NewGPUShareOperator UselessNumber (link_id h i) fs = (e, fs1)" by force
  then have "fault fs1 = fault fs" "fs_ok fs \<longrightarrow> fs_ok fs1"
    using Delete_fault Delete_fs_ok by (metis snd_conv)+
  with Cons fs1 show ?case by (auto split: option.split)
qed simp

lemma gc_lines_host:
  assumes "Operator ag = gpushare_operator"
  shows "fault (host (snd (gc_lines ls ag))) = fault (host ag)
   \<and> (fs_ok (host ag) \<longrightarrow> fs_ok (host (snd (gc_lines ls ag))))
   \<and> (\<not> is_link_path p \<longrightarrow> node_at (host (snd (gc_lines ls ag))) p = node_at (host ag) p)"
  using assms
proof (induction ls arbitrary: ag)
  case (Cons l ls)
  show ?case
  proof (cases "ln_device l")
    case (Some d)
    obtain e fs1 where fs1: "GPUShare_Delete NewGPUShareOperator UselessNumber (link_id (Hash d) 0) (host ag) = (e, fs1)"
      by force
    have np: "p \<noteq> sym_link (link_id (Hash d) 0) \<and> p \<noteq> ctl_link (link_id (Hash d) 0)" if "\<not> is_link_path p"
      using that by auto
    have 1: "fault fs1 = fault (host ag)" "fs_ok (host ag) \<longrightarrow> fs_ok fs1"
      "\<not> is_link_path p \<longrightarrow> node_at fs1 p = node_at (host ag) p"
      using fs1 Delete_fault [of NewGPUShareOperator UselessNumber "link_id (Hash d) 0" "host ag"]
        Delete_fs_ok [of "host ag" NewGPUShareOperator UselessNumber "link_id (Hash d) 0"]
        Delete_other [of p "link_id (Hash d) 0" NewGPUShareOperator UselessNumber "host ag"] np
      by auto
    let ?rest = "if ResourceName d = ResourceGPUCore \<and> length (DevList d) > 100
      then delete_seq gpushare_operator (Hash d) [1..<length (DevList d) div 100] fs1 else (None, fs1)"
    obtain e' fs2 where fs2: "?rest = (e', fs2)" by force
    have 2: "fault fs2 = fault fs1" "fs_ok fs1 \<longrightarrow> fs_ok fs2" "\<not> is_link_path p \<longrightarrow> node_at fs2 p = node_at fs1 p"
      using fs2 delete_seq_fs [of "Hash d" "[1..<length (DevList d) div 100]" fs1]
        delete_seq_nodes [of p "Hash d" "[1..<length (DevList d) div 100]" fs1]
      by (auto split: if_splits)
    show ?thesis
      using Cons 1 2 fs1 fs2 Some by (auto split: option.split prod.split res.split)
  qed simp
qed simp

text \<open>A round that finds one pod gone, with one device, and meets no error.\<close>

lemma gc_round_single:
  assumes "Operator ag = gpushare_operator" "links_writable (host ag)" "usable (Storage ag)"
    and "map_order_ok ord" "gc_wakes ev" "plain_elem ns" "plain_elem n"
    and "pods_of (Storage ag) (ns, n) = Some i" "ContainerDeviceMap i = Some [(c, Some d)]"
    and "pod_gone (Sitter ag) i" "\<forall>k j. k \<noteq> (ns, n) \<longrightarrow> pods_of (Storage ag) k = Some j \<longrightarrow> \<not> pod_gone (Sitter ag) j"
    and "CHR ''-'' \<notin> set (Hash d)" "\<forall>k < link_count d. \<exists>g. links_of (host ag) (link_id (Hash d) k) = links_to g"
    and "gc_round ord ev ag = (r, ag')"
  shows "r = Ok ()" and "\<forall>k < link_count d. links_of (host ag') (link_id (Hash d) k) = (None, None)"
    and "pods_of (Storage ag') = (pods_of (Storage ag))((ns, n) := None)"
    and "\<forall>k < link_count d. eid \<noteq> link_id (Hash d) k \<Longrightarrow> links_of (host ag') eid = links_of (host ag) eid"
    and "\<not> is_link_path p \<Longrightarrow> node_at (host ag') p = node_at (host ag) p"
    and "fault (host ag') = fault (host ag)" "fs_ok (host ag) \<Longrightarrow> fs_ok (host ag')"
proof -
  have ok: "store_ok (Storage ag)" "opened (Storage ag)" using assms(3) by (simp_all add: usable_def)
  let ?ls = "[\<lparr>ln_namespace = ns, ln_name = n, ln_container = c, ln_device = Some d\<rparr>]"
  have ag': "r = fst (gc_lines ?ls ag)" "ag' = snd (gc_lines ?ls ag)"
    using assms(14) gc_round_lines [OF ok assms(5), of ord] gc_work_single [OF ok(1) assms(4,8-11)] by simp_all
  have C: "fst (gc_lines ?ls ag) = Ok ()
    \<and> (\<forall>l \<in> set ?ls. \<forall>i < link_count (the (ln_device l)).
         links_of (host (snd (gc_lines ?ls ag))) (link_id (Hash (the (ln_device l))) i) = (None, None))
    \<and> (\<forall>k. pods_of (Storage (snd (gc_lines ?ls ag))) k =
         (if k \<in> (\<lambda>l. (ln_namespace l, ln_name l)) ` set ?ls then None else pods_of (Storage ag) k))"
    by (rule gpushare.gc_lines_collects [OF assms(1-3)]) (use assms(6,7,12,13) in auto)
  show "r = Ok ()" "\<forall>k < link_count d. links_of (host ag') (link_id (Hash d) k) = (None, None)"
    using C by (simp_all add: ag')
  show "pods_of (Storage ag') = (pods_of (Storage ag))((ns, n) := None)"
    unfolding ag' fun_eq_iff using C by simp
  show "\<forall>k < link_count d. eid \<noteq> link_id (Hash d) k \<Longrightarrow> links_of (host ag') eid = links_of (host ag) eid"
    unfolding ag' using assms(1) by (intro gpushare.gc_lines_frame) auto
  show "\<not> is_link_path p \<Longrightarrow> node_at (host ag') p = node_at (host ag) p" "fault (host ag') = fault (host ag)"
    "fs_ok (host ag) \<Longrightarrow> fs_ok (host ag')"
    unfolding ag' using gc_lines_host [OF assms(1), of ?ls p] by blast+
qed

text \<open>A round that meets no error, and the links no round touches.\<close>

lemma gc_round_collects:
  assumes "usable (Storage ag)" and "Operator ag = gpushare_operator" and "links_writable (host ag)"
    and "map_order_ok ord" and "gc_wakes ev"
    and "\<forall>i \<in> set (gone_pods ag). \<exists>m. ContainerDeviceMap i = Some m \<and> m \<noteq> []"
    and "\<forall>x \<in> set (gone_devices ag). \<exists>d. x = Some d \<and> CHR ''-'' \<notin> set (Hash d)
      \<and> (\<forall>i < link_count d. \<exists>g. links_of (host ag) (link_id (Hash d) i) = links_to g)"
    and "distinct (map (Hash \<circ> the) (gone_devices ag))"
  defines "ag' \<equiv> snd (gc_round ord ev ag)"
  shows "fst (gc_round ord ev ag) = Ok ()
    \<and> (\<forall>d i. Some d \<in> set (gone_devices ag) \<longrightarrow> i < link_count d \<longrightarrow>
         links_of (host ag') (link_id (Hash d) i) = (None, None))
    \<and> (\<forall>k. pods_of (Storage ag') k =
         (if k \<in> (\<lambda>i. (Namespace i, Name i)) ` set (gone_pods ag) then None else pods_of (Storage ag) k))
    \<and> gc_round ord ev' ag' = (Ok (), ag')"
proof -
  let ?ls = "gc_work ord ag"
  have st: "store_ok (Storage ag)" "opened (Storage ag)" using assms(1) by (simp_all add: usable_def)
  have round: "gc_round ord ev ag = gc_lines ?ls ag" using assms(5) st by (simp add: gc_round_lines)
  have ms: "mset (map ln_device ?ls) = mset (gone_devices ag)" using gc_work_devices [OF assms(4)] .
  then have devs: "set (gone_devices ag) = ln_device ` set ?ls" by (metis set_map set_mset_mset)
  have "distinct (map (Hash \<circ> the) (map ln_device ?ls))"
    using ms assms(8) by (metis mset_eq_imp_distinct_iff mset_map)
  then have dist: "distinct (map (Hash \<circ> the \<circ> ln_device) ?ls)" by (simp add: comp_assoc)
  have names: "(\<lambda>l. (ln_namespace l, ln_name l)) ` set ?ls = (\<lambda>i. (Namespace i, Name i)) ` set (gone_pods ag)"
    by (rule gc_work_names_all [OF assms(4,6)])
  have all: "\<forall>l \<in> set ?ls. \<exists>d. ln_device l = Some d \<and> CHR ''-'' \<notin> set (Hash d)
      \<and> (\<forall>i < link_count d. \<exists>g. links_of (host ag) (link_id (Hash d) i) = links_to g)"
    using assms(7) unfolding devs by simp
  note C = gpushare.gc_lines_collects [OF assms(2,3,1) _ all dist]
  have plain: "\<forall>l \<in> set ?ls. plain_elem (ln_namespace l) \<and> plain_elem (ln_name l)"
    using gc_work_plain [OF st(1)] by blast
  have rec: "pods_of (Storage ag') k =
      (if k \<in> (\<lambda>i. (Namespace i, Name i)) ` set (gone_pods ag) then None else pods_of (Storage ag) k)" for k
    using C [OF plain] unfolding names by (cases k) (simp add: ag'_def round)
  have keeps: "store_ok (Storage ag')" "opened (Storage ag')" "Sitter ag' = Sitter ag"
    using gc_lines_keeps [OF plain st(1)] st(2) by (simp_all add: ag'_def round)
  have "i \<notin> set (gone_pods ag')" for i
    using gone_pods_view [OF keeps(1)] gone_pods_view [OF st(1)] rec keeps(3)
    by (auto split: if_splits)
  then have "gone_pods ag' = []" by (cases "gone_pods ag'") auto
  then have "gc_round ord ev' ag' = (Ok (), ag')"
    using gc_round_lines [OF keeps(1,2)] by (cases "gc_wakes ev'") (simp_all add: gc_work_def gc_round_def)
  moreover have "links_of (host ag') (link_id (Hash d) i) = (None, None)"
    if d: "Some d \<in> set (gone_devices ag)" "i < link_count d" for d i
  proof -
    obtain l where "l \<in> set ?ls" "ln_device l = Some d" using d(1) devs by auto
    with C [OF plain] d(2) show ?thesis unfolding ag'_def round by (metis option.sel)
  qed
  ultimately show ?thesis using C [OF plain] rec by (simp add: round)
qed

lemma gc_round_other_links:
  assumes "store_ok (Storage ag)" and "Operator ag = gpushare_operator" and "map_order_ok ord"
    and "\<forall>d i. Some d \<in> set (gone_devices ag) \<longrightarrow> i < link_count d \<longrightarrow> eid \<noteq> link_id (Hash d) i"
  shows "links_of (host (snd (gc_round ord ev ag))) eid = links_of (host ag) eid"
proof (cases "gc_wakes ev \<and> opened (Storage ag)")
  case True
  have "set (map ln_device (gc_work ord ag)) = set (gone_devices ag)"
    using gc_work_devices [OF assms(3)] by (metis set_mset_mset)
  then have "\<forall>l \<in> set (gc_work ord ag). \<forall>d. ln_device l = Some d \<longrightarrow> (\<forall>i < link_count d. eid \<noteq> link_id (Hash d) i)"
    using assms(4) by (metis image_eqI list.set_map)
  with True assms show ?thesis by (simp add: gc_round_lines gpushare.gc_lines_frame)
next
  case False
  then show ?thesis by (auto simp: gc_round_def ForEach_def)
qed

text \<open>A node whose one recorded pod is gone, for the instances of the properties.\<close>

definition demo_gone :: PodInfo where
  "demo_gone = \<lparr>Namespace = ''default'', Name = ''train-0'', ContainerDeviceMap = Some [(''main'', Some demo_device)]\<rparr>"

definition demo_gc :: agent where
  "demo_gc = demo_agent
     \<lparr>Sitter := NewSitter ''node-1'' (\<lambda>_. None) (\<lambda>_. None), Storage := snd (Save demo_gone demo_db),
      host := snd (GPUShare_Create NewGPUShareOperator 0 (link_id (Hash demo_device) 0) demo_host)\<rparr>"

lemma demo_gone_storable: "storable demo_gone"
proof -
  have "pod_ok demo_gone" by code_simp
  moreover have "length (Key demo_gone) \<le> 100" "length (Val demo_gone) \<le> 200" by code_simp+
  ultimately show ?thesis by (simp add: storable_def MaxKeySize_def MaxValueSize_def)
qed

lemma demo_gc_ok:
  "usable (Storage demo_gc)" "Operator demo_gc = gpushare_operator" "links_writable (host demo_gc)"
  "links_of (host demo_gc) (link_id (Hash demo_device) 0) = links_to 0"
  using usable_put [OF demo_db_usable demo_gone_storable] demo_host_ok(1)
    Create_fresh_links(2) [OF demo_host_ok(1) demo_host_links]
  by (simp_all add: demo_gc_def demo_agent_def links_writable_def)

lemma demo_gone_pods: "gone_pods demo_gc = [demo_gone]" "gone_devices demo_gc = [Some demo_device]"
proof -
  have "pod_ok demo_gone" using demo_gone_storable by (simp add: storable_def)
  then have "pod_list (Storage demo_gc) = [demo_gone]"
    using Save_ready [OF demo_db_usable demo_gone_storable] NewPIFromRaw_pod
    by (simp add: demo_gc_def pod_list_def) (simp add: root_of_def demo_db_def)
  then show "gone_pods demo_gc = [demo_gone]"
    by (simp add: gone_pods_def pod_gone_def GetPod_def GetPodFromApiServer_def demo_gc_def NewSitter_def)
  then show "gone_devices demo_gc = [Some demo_device]"
    by (simp add: gone_devices_def demo_gone_def)
qed

lemma demo_link_count: "link_count demo_device = 1"
  by (simp add: link_count_def demo_device_def)

section \<open>Properties\<close>

text \<open>
  C13: A round never touches the record of a pod it cannot prove gone: one the cache has, one the
  API server has, or one about which the server answers with any error but \<open>NotFound\<close>.  This
  holds on every path of the round, whatever call fails.
\<close>

theorem gc_keeps_live_records:
  assumes "store_ok (Storage ag)"
    and "lister (Sitter ag) (ns, n) \<noteq> None
      \<or> (api_fault (Sitter ag) (ns, n) = None \<and> api_pods (Sitter ag) (ns, n) \<noteq> None)
      \<or> (\<exists>e. api_fault (Sitter ag) (ns, n) = Some e \<and> e \<noteq> ENotFound)"
  shows "pods_of (Storage (snd (gc_round ord ev ag))) (ns, n) = pods_of (Storage ag) (ns, n)"
proof (rule gc_round_keeps [OF assms(1)])
  have "in_cache (Sitter ag) ns n \<or> maybe_served (Sitter ag) ns n"
    using assms(2) by (auto simp: in_cache_def maybe_served_def)
  then have "\<not> pod_gone (Sitter ag) i" if "Namespace i = ns" "Name i = n" for i
    using that pod_gone_absent by blast
  then show "(ns, n) \<notin> (\<lambda>i. (Namespace i, Name i)) ` set (gone_pods ag)"
    by (auto simp: gone_pods_def)
qed

theorem gc_keeps_live_records_witness:
  "pods_of (Storage (snd (gc_round (\<lambda>i m. m) GcMinute
       (demo_gc\<lparr>Sitter := (Sitter demo_gc)\<lparr>api_fault := (\<lambda>k. Some EApi)\<rparr>\<rparr>)))) (''default'', ''train-0'')
     = pods_of (Storage demo_gc) (''default'', ''train-0'')"
  using gc_keeps_live_records [of "demo_gc\<lparr>Sitter := (Sitter demo_gc)\<lparr>api_fault := (\<lambda>k. Some EApi)\<rparr>\<rparr>"
      "''default''" "''train-0''"] demo_gc_ok(1)
  by (simp add: usable_def)

text \<open>
  A missing first link stops the collector for good: if the first device it meets has no
  link of index 0, the round ends there, with nothing removed and the record kept, and so does
  every later round, however many pods are gone.
\<close>

lemma gc_blocked_by_missing_link:
  assumes "store_ok (Storage ag)" and "Operator ag = gpushare_operator"
    and "gc_work ord ag = l # ls" and "ln_device l = Some d"
    and "node_at (host ag) (sym_link (link_id (Hash d) 0)) = None"
  shows "((\<lambda>x. snd (gc_round ord ev x)) ^^ rounds) ag = ag"
proof -
  have "gc_round ord ev ag = (Ok (), ag)" if "gc_wakes ev \<and> opened (Storage ag)"
  proof -
    obtain e where "os_Remove (sym_link (link_id (Hash d) 0)) (host ag) = (Some e, host ag)"
      using os_Remove_missing [OF assms(5)] by auto
    then have "GPUShare_Delete NewGPUShareOperator UselessNumber (link_id (Hash d) 0) (host ag) = (Some (EOs e), host ag)"
      by (simp add: GPUShare_Delete_def Let_def)
    with that assms show ?thesis by (simp add: gc_round_lines)
  qed
  then have "snd (gc_round ord ev ag) = ag" by (auto simp: gc_round_def ForEach_def)
  then show ?thesis by (induction rounds) simp_all
qed

end
