(* ===== verification/Common_Util.thy ===== *)
theory Common_Util
  imports Host_Fs "HOL-Library.While_Combinator"
begin

text \<open>
  \<open>pkg/common/util.go\<close>: the dump of the goroutine stacks and the watcher of the plugin directory.
  The text \<open>runtime.Stack\<close> would write is the environment: its length at each call.
\<close>

section \<open>DumpStacks\<close>

text \<open>\<open>runtime.Stack\<close> fills a buffer up to its length.\<close>

definition runtime_Stack :: "nat \<Rightarrow> nat \<Rightarrow> nat" where
  "runtime_Stack stacks buf = min stacks buf"

record dump_state =
  ds_calls :: nat      \<comment> \<open>how often \<open>runtime.Stack\<close> has been called\<close>
  ds_buf :: nat        \<comment> \<open>\<open>len(buf)\<close>\<close>
  stackSize :: nat
  bufferLen :: nat

definition dump_turn :: "(nat \<Rightarrow> nat) \<Rightarrow> dump_state \<Rightarrow> dump_state" where
  "dump_turn stacks d =
     \<lparr>ds_calls = Suc (ds_calls d), ds_buf = bufferLen d,
      stackSize = runtime_Stack (stacks (ds_calls d)) (bufferLen d), bufferLen = bufferLen d * 2\<rparr>"

text \<open>The loop; \<open>None\<close> when it does not end.\<close>

definition dump_loop :: "(nat \<Rightarrow> nat) \<Rightarrow> dump_state option" where
  "dump_loop stacks =
     while_option (\<lambda>d. stackSize d = ds_buf d) (dump_turn stacks)
       \<lparr>ds_calls = 0, ds_buf = 0, stackSize = 0, bufferLen = 16384\<rparr>"

text \<open>
  \<open>DumpStacks\<close>: the number of bytes written and the name of the file.  \<open>stamp\<close> is the time as
  \<open>RFC3339\<close> text, whose colons are dropped; an empty directory stands for standard error.
\<close>

definition DumpStacks ::
  "(nat \<Rightarrow> nat) \<Rightarrow> string \<Rightarrow> string \<Rightarrow> err option \<Rightarrow> err option \<Rightarrow> (string \<times> nat) res option"
where
  "DumpStacks stacks stamp dir open_err write_err =
     (case dump_loop stacks of
        None \<Rightarrow> None
      | Some d \<Rightarrow>
          Some (if dir \<noteq> [] \<and> open_err \<noteq> None then Fail (the open_err)
                else if write_err \<noteq> None then Fail (the write_err)
                else Ok (if dir \<noteq> []
                         then path_join [dir, ''goroutine-stacks-'' @ filter (\<lambda>c. c \<noteq> CHR '':'') stamp @ ''.log'']
                         else ''/dev/stderr'',
                         stackSize d)))"

section \<open>NewFSWatcher\<close>

text \<open>The watched files, or an error after which the watcher is closed.\<close>

fun watch_loop :: "(string \<Rightarrow> err option) \<Rightarrow> string list \<Rightarrow> string list \<Rightarrow> string list res" where
  "watch_loop add_err [] watched = Ok watched"
| "watch_loop add_err (f # files) watched =
     (case add_err f of Some e \<Rightarrow> Fail e | None \<Rightarrow> watch_loop add_err files (watched @ [f]))"

definition NewFSWatcher :: "err option \<Rightarrow> (string \<Rightarrow> err option) \<Rightarrow> string list \<Rightarrow> string list res" where
  "NewFSWatcher new_err add_err files =
     (case new_err of Some e \<Rightarrow> Fail e | None \<Rightarrow> watch_loop add_err files [])"

section \<open>Lemmas\<close>

text \<open>What holds after each turn: the buffer has been doubled, and filled unless it was long enough.\<close>

definition dump_inv :: "(nat \<Rightarrow> nat) \<Rightarrow> nat \<Rightarrow> dump_state \<Rightarrow> bool" where
  "dump_inv stacks b d \<longleftrightarrow>
     (ds_calls d = 0 \<and> ds_buf d = 0 \<and> stackSize d = 0 \<and> bufferLen d = 16384)
     \<or> (0 < ds_calls d \<and> 16384 \<le> ds_buf d \<and> bufferLen d = 2 * ds_buf d
        \<and> stackSize d = min (stacks (ds_calls d - 1)) (ds_buf d) \<and> ds_buf d \<le> max 16384 (2 * b))"

lemma dump_inv_turn:
  assumes "dump_inv stacks b d" "stackSize d = ds_buf d" "\<forall>i. stacks i \<le> b"
  shows "dump_inv stacks b (dump_turn stacks d)"
proof -
  have "ds_calls d > 0 \<Longrightarrow> ds_buf d \<le> b"
    using assms by (auto simp: dump_inv_def min_def split: if_splits intro: le_trans)
  with assms show ?thesis
    by (auto simp: dump_inv_def dump_turn_def runtime_Stack_def)
qed

lemma dump_loop_ends:
  assumes "\<forall>i. stacks i \<le> b"
  shows "\<exists>d. dump_loop stacks = Some d"
  unfolding dump_loop_def
proof (rule measure_while_option_Some [where P = "dump_inv stacks b" and f = "\<lambda>d. (if ds_calls d = 0 then 1 else 0) + (b + 1 - ds_buf d)"])
  fix d assume d: "dump_inv stacks b d" "stackSize d = ds_buf d"
  have "dump_inv stacks b (dump_turn stacks d)" using dump_inv_turn [OF d assms] .
  moreover have "ds_calls d > 0 \<Longrightarrow> ds_buf d \<le> b"
    using d assms by (auto simp: dump_inv_def min_def split: if_splits intro: le_trans)
  ultimately show "dump_inv stacks b (dump_turn stacks d)
      \<and> (if ds_calls (dump_turn stacks d) = 0 then 1 else 0) + (b + 1 - ds_buf (dump_turn stacks d))
        < (if ds_calls d = 0 then 1 else 0) + (b + 1 - ds_buf d)"
    using d(1) by (auto simp: dump_turn_def dump_inv_def)
qed (simp add: dump_inv_def)

text \<open>The name of the file.\<close>

lemma dump_path:
  assumes "plain_elem f"
  shows "path_join [''/var/log'', f] = ''/var/log/'' @ f"
proof -
  have "split_on CHR ''/'' f = [f]" using assms by (simp add: plain_elem_def split_on_fresh)
  then have "split_on CHR ''/'' (''/var/log/'' @ f) = [[], ''var'', ''log'', f]" by simp
  moreover have "plain_elem ''var''" "plain_elem ''log''" by (simp_all add: plain_elem_def)
  ultimately show ?thesis using assms by (simp add: path_join_def path_clean_def Let_def clean_step_def [of _ _ "[]"])
qed

section \<open>Properties\<close>

text \<open>
  C39: The loop of \<open>DumpStacks\<close> ends when the stacks do not grow without bound, with a buffer of at most
  twice the bound (or the initial one), and what is written is the whole text of the last call: a
  dump is never cut off.  It goes to standard error, or, when the file can be opened, to the file in
  \<open>/var/log\<close> that is named with the time without its colons.
\<close>

theorem DumpStacks_complete:
  assumes "\<forall>i. stacks i \<le> b" and "CHR ''/'' \<notin> set stamp"
  shows "\<exists>d. dump_loop stacks = Some d \<and> stackSize d = stacks (ds_calls d - 1)
    \<and> stackSize d < ds_buf d \<and> ds_buf d \<le> max 16384 (2 * b)
    \<and> DumpStacks stacks stamp [] open_err None = Some (Ok (''/dev/stderr'', stacks (ds_calls d - 1)))
    \<and> DumpStacks stacks stamp ''/var/log'' None None = Some (Ok
        (''/var/log/goroutine-stacks-'' @ filter (\<lambda>c. c \<noteq> CHR '':'') stamp @ ''.log'', stacks (ds_calls d - 1)))"
proof -
  obtain d where d: "dump_loop stacks = Some d" using dump_loop_ends [OF assms(1)] by blast
  have "dump_inv stacks b d"
  proof (rule while_option_rule [OF _ d [unfolded dump_loop_def]])
    show "dump_inv stacks b (dump_turn stacks s)" if "dump_inv stacks b s" "stackSize s = ds_buf s" for s
      using dump_inv_turn [OF that assms(1)] .
  qed (simp add: dump_inv_def)
  moreover have "stackSize d \<noteq> ds_buf d"
    using while_option_stop [OF d [unfolded dump_loop_def]] .
  ultimately have "stackSize d = stacks (ds_calls d - 1) \<and> stackSize d < ds_buf d \<and> ds_buf d \<le> max 16384 (2 * b)"
    by (auto simp: dump_inv_def min_def split: if_splits)
  moreover have "plain_elem (''goroutine-stacks-'' @ filter (\<lambda>c. c \<noteq> CHR '':'') stamp @ ''.log'')"
    using assms(2) by (auto simp: plain_elem_def)
  from dump_path [OF this] have "DumpStacks stacks stamp ''/var/log'' None None = Some (Ok
      (''/var/log/goroutine-stacks-'' @ filter (\<lambda>c. c \<noteq> CHR '':'') stamp @ ''.log'', stackSize d))"
    using d by (simp add: DumpStacks_def)
  ultimately show ?thesis using d by (simp add: DumpStacks_def)
qed

theorem DumpStacks_complete_witness:
  "DumpStacks (\<lambda>i. 20000) ''2024-01-01T00:00:00Z'' ''/var/log'' None None =
     Some (Ok (''/var/log/goroutine-stacks-2024-01-01T000000Z.log'', 20000))"
proof -
  have "\<forall>i::nat. (20000::nat) \<le> 20000" "CHR ''/'' \<notin> set ''2024-01-01T00:00:00Z''" by simp_all
  from DumpStacks_complete [OF this] show ?thesis by fastforce
qed

end
