(* ===== verification/Manager.thy ===== *)
theory Manager
  imports Plugin_Server Gc Common_Util
begin

text \<open>
  The assembly of the agent: the methods every device plugin inherits and \<open>PluginFactory\<close>
  (\<open>pkg/plugins/base.go\<close>, \<open>nvidia.go\<close>), the manager (\<open>pkg/manager/manager.go\<close>) and the flags of
  \<open>cmd/main.go\<close>.  The clients of the Kubernetes API, the database file, NVML and the kubelet's socket
  are the environment.
\<close>

section \<open>Methods of every device plugin (base.go)\<close>

record DevicePluginOptions =
  op_PreStartRequired :: bool

definition GetDevicePluginOptions :: "baseDevicePlugin \<Rightarrow> DevicePluginOptions" where
  "GetDevicePluginOptions c = \<lparr>op_PreStartRequired = True\<rparr>"

text \<open>
  \<open>ListAndWatch\<close>: the lists it sends and its error; after a successful send it returns when the
  stream's context is done.
\<close>

definition ListAndWatch :: "err option \<Rightarrow> baseDevicePlugin \<Rightarrow> pluginapi_Device list list \<times> err option" where
  "ListAndWatch send c = ([bp_devices c], case send of Some e \<Rightarrow> Some e | None \<Rightarrow> None)"

definition base_Allocate :: "string list list \<Rightarrow> ContainerAllocateResponse list res" where
  "base_Allocate request = Ok []"

definition base_PreStartContainer :: "string list \<Rightarrow> unit res" where
  "base_PreStartContainer request = Ok ()"

definition GetPreferredAllocation :: "string list list \<Rightarrow> string list list res" where
  "GetPreferredAllocation request = Ok []"

text \<open>\<open>NewNvidiaDevicePlugin\<close>: one device for each card, named with its UUID, of no resource.\<close>

definition NewNvidiaDevicePlugin :: "GPUOperator \<Rightarrow> nvml \<Rightarrow> baseDevicePlugin res" where
  "NewNvidiaDevicePlugin oper nv =
     (case op_Devices oper nv of
        (_, Some e) \<Rightarrow> Fail e
      | (gpus, None) \<Rightarrow>
          Ok \<lparr>bp_ResourceName = [], bp_PreStartRequired = False,
              bp_devices = map (\<lambda>g. \<lparr>ID = UUID g, Health = Healthy\<rparr>) gpus\<rparr>)"

section \<open>PluginFactory (base.go)\<close>

text \<open>A plugin of the map of \<open>GPUSharePlugin\<close>: its server and the device plugin behind it.\<close>

type_synonym GPUSharePlugin = "(string, DevicePluginServer \<times> baseDevicePlugin) amap"

definition NewGPUSharePlugin :: "GPUOperator \<Rightarrow> nvml \<Rightarrow> GPUSharePlugin res" where
  "NewGPUSharePlugin oper nv =
     (case NewGPUShareMemoryDevicePlugin oper nv of
        Fail e \<Rightarrow> Fail e
      | Panic \<Rightarrow> Panic
      | Ok dpMem \<Rightarrow>
          let gp = amap_put ResourceGPUMemory
                     (\<lparr>dp_Endpoint = ''elastic-gpushare-mem.sock'', dp_ResourceName = ResourceGPUMemory,
                       dp_PreStartRequired = True\<rparr>, dpMem) []
          in (case NewGPUShareCoreDevicePlugin oper nv of
                Fail e \<Rightarrow> Fail e
              | Panic \<Rightarrow> Panic
              | Ok dpCore \<Rightarrow>
                  Ok (amap_put ResourceGPUCore
                        (\<lparr>dp_Endpoint = ''elastic-gpushare-core.sock'', dp_ResourceName = ResourceGPUCore,
                          dp_PreStartRequired = True\<rparr>, dpCore) gp)))"

definition GPUSHARE :: string where "GPUSHARE = ''gpushare''"

text \<open>
  \<open>PluginFactory\<close>: the operator, the locators and the plugin of a name.
\<close>

definition PluginFactory ::
  "(string \<Rightarrow> err option) \<Rightarrow> nvml \<Rightarrow> string
   \<Rightarrow> (GPUOperator \<times> (string \<Rightarrow> KubeletDeviceLocator option) \<times> GPUSharePlugin) res"
where
  "PluginFactory dial nv name =
     (if name = GPUSHARE then
        let oper = gpushare_operator;
            locators = [ResourceGPUCore \<mapsto> NewKubeletDeviceLocator ResourceGPUCore (dial ResourceGPUCore),
                        ResourceGPUMemory \<mapsto> NewKubeletDeviceLocator ResourceGPUMemory (dial ResourceGPUMemory)]
        in (case NewGPUSharePlugin oper nv of
              Fail e \<Rightarrow> Fail e
            | Panic \<Rightarrow> Panic
            | Ok gp \<Rightarrow> Ok (oper, locators, gp))
      else Fail (ENoPlugin name))"

section \<open>The manager (manager.go)\<close>

record GPUManagerImpl =
  NodeName :: string
  kubeconf :: string
  dbPath :: string
  GPUPluginName :: string

datatype Option = WithNodeName string | WithKubeconf string | WithDBPath string | WithGPUPluginName string

fun apply_option :: "Option \<Rightarrow> GPUManagerImpl \<Rightarrow> GPUManagerImpl" where
  "apply_option (WithNodeName nodeName) manager = manager\<lparr>NodeName := nodeName\<rparr>"
| "apply_option (WithKubeconf k) manager = manager\<lparr>kubeconf := k\<rparr>"
| "apply_option (WithDBPath path) manager = manager\<lparr>dbPath := path\<rparr>"
| "apply_option (WithGPUPluginName n) manager = manager\<lparr>GPUPluginName := n\<rparr>"

text \<open>What the manager's construction reads and calls.\<close>

record mgr_env =
  me_InClusterConfig :: "err option"
  me_BuildConfig :: "string \<Rightarrow> err option"
  me_NewClient :: "err option"
  me_NewEGPUClient :: "err option"
  me_disk :: "string \<Rightarrow> disk_env"
  me_pods :: "string \<times> string \<Rightarrow> Pod option"
  me_fault :: "string \<times> string \<Rightarrow> err option"
  me_dial :: "string \<Rightarrow> err option"
  me_nvml :: nvml
  me_host :: host_fs

text \<open>
  The clients (\<open>pkg/common/util.go\<close>): inside the cluster a failing client panics; with a file the
  error is returned.
\<close>

definition NewClientInCluster :: "mgr_env \<Rightarrow> unit res" where
  "NewClientInCluster env =
     (case me_InClusterConfig env of
        Some e \<Rightarrow> Fail e
      | None \<Rightarrow> (case me_NewClient env of Some e \<Rightarrow> Fail e | None \<Rightarrow> Ok ()))"

definition MustNewClientInCluster :: "mgr_env \<Rightarrow> unit res" where
  "MustNewClientInCluster env = (case NewClientInCluster env of Fail e \<Rightarrow> Panic | r \<Rightarrow> r)"

definition NewConfigFromKubeconf :: "mgr_env \<Rightarrow> string \<Rightarrow> unit res" where
  "NewConfigFromKubeconf env k = (case me_BuildConfig env k of Some e \<Rightarrow> Fail e | None \<Rightarrow> Ok ())"

definition NewClientFromKubeconf :: "mgr_env \<Rightarrow> string \<Rightarrow> unit res" where
  "NewClientFromKubeconf env k =
     (case NewConfigFromKubeconf env k of
        Ok _ \<Rightarrow> (case me_NewClient env of Some e \<Rightarrow> Fail e | None \<Rightarrow> Ok ())
      | r \<Rightarrow> r)"

definition manager_clients :: "mgr_env \<Rightarrow> GPUManagerImpl \<Rightarrow> unit res" where
  "manager_clients env m =
     (if kubeconf m = [] then
        (case MustNewClientInCluster env of
           Ok _ \<Rightarrow>
             (case me_InClusterConfig env of
                Some e \<Rightarrow> Fail e
              | None \<Rightarrow> (case me_NewEGPUClient env of Some e \<Rightarrow> Fail e | None \<Rightarrow> Ok ()))
         | r \<Rightarrow> r)
      else
        (case NewClientFromKubeconf env (kubeconf m) of
           Ok _ \<Rightarrow>
             (case me_BuildConfig env (kubeconf m) of
                Some e \<Rightarrow> Fail e
              | None \<Rightarrow> (case me_NewEGPUClient env of Some e \<Rightarrow> Fail e | None \<Rightarrow> Ok ()))
         | r \<Rightarrow> r))"

text \<open>\<open>NewGPUManager\<close>: the agent's state and its plugins.\<close>

definition NewGPUManager :: "mgr_env \<Rightarrow> Option list \<Rightarrow> (GPUManagerImpl \<times> agent \<times> GPUSharePlugin) res" where
  "NewGPUManager env options =
     (let m = fold apply_option options \<lparr>NodeName = [], kubeconf = [], dbPath = [], GPUPluginName = []\<rparr>
      in case manager_clients env m of
           Fail e \<Rightarrow> Fail e
         | Panic \<Rightarrow> Panic
         | Ok _ \<Rightarrow>
             (case NewStorage (me_disk env (dbPath m)) of
                Fail e \<Rightarrow> Fail e
              | Panic \<Rightarrow> Panic
              | Ok metadb \<Rightarrow>
                  let sitter = NewSitter (NodeName m) (me_pods env) (me_fault env)
                  in (case PluginFactory (me_dial env) (me_nvml env) (GPUPluginName m) of
                        Fail e \<Rightarrow> Fail e
                      | Panic \<Rightarrow> Panic
                      | Ok (oper, locators, gp) \<Rightarrow>
                          Ok (m, \<lparr>DeviceLocator = locators, Sitter = sitter, Storage = metadb,
                                  Operator = oper, host = me_host env\<rparr>, gp))))"

text \<open>
  \<open>Run\<close>: what it starts, in order.  The sitter is polled (\<open>sightings\<close> are its states at the
  polls) until it has synced; \<open>None\<close> when it has not within them.
\<close>

datatype action = StartSitter | StartPlugin string | StartGC

fun poll_synced :: "PodSitter list \<Rightarrow> bool" where
  "poll_synced [] = False"
| "poll_synced (st # sts) = (if HasSynced st then True else poll_synced sts)"

definition GPUSharePlugin_Run :: "GPUSharePlugin \<Rightarrow> action list" where
  "GPUSharePlugin_Run gp = map (StartPlugin \<circ> fst) gp"

definition Manager_Run :: "PodSitter list \<Rightarrow> GPUSharePlugin \<Rightarrow> action list" where
  "Manager_Run sightings gp =
     StartSitter # (if poll_synced sightings then GPUSharePlugin_Run gp @ [StartGC] else [])"

section \<open>The flags (cmd/main.go)\<close>

record flags =
  fl_node :: string
  fl_dbfile :: string
  fl_gpuPluginName :: string
  fl_kubeconf :: string

definition default_flags :: flags where
  "default_flags = \<lparr>fl_node = [], fl_dbfile = [], fl_gpuPluginName = ''qgpu'', fl_kubeconf = []\<rparr>"

definition agent_main :: "mgr_env \<Rightarrow> flags \<Rightarrow> (GPUManagerImpl \<times> agent \<times> GPUSharePlugin) res" where
  "agent_main env fl =
     NewGPUManager env
       [WithNodeName (fl_node fl), WithDBPath (fl_dbfile fl), WithKubeconf (fl_kubeconf fl),
        WithGPUPluginName (fl_gpuPluginName fl)]"

section \<open>Lemmas\<close>

lemma GPUSharePlugin_ok:
  "NewGPUSharePlugin gpushare_operator nv = Ok gp \<longleftrightarrow>
     snd (Devices nv) = None
     \<and> (\<exists>c m. NewGPUShareCoreDevicePlugin gpushare_operator nv = Ok c
          \<and> NewGPUShareMemoryDevicePlugin gpushare_operator nv = Ok m
          \<and> gp = [(ResourceGPUCore, \<lparr>dp_Endpoint = ''elastic-gpushare-core.sock'', dp_ResourceName = ResourceGPUCore,
                                     dp_PreStartRequired = True\<rparr>, c),
                  (ResourceGPUMemory, \<lparr>dp_Endpoint = ''elastic-gpushare-mem.sock'', dp_ResourceName = ResourceGPUMemory,
                                     dp_PreStartRequired = True\<rparr>, m)])"
proof -
  have "amap_put ResourceGPUCore x [(ResourceGPUMemory, y)] = [(ResourceGPUCore, x), (ResourceGPUMemory, y)]"
    for x y :: "DevicePluginServer \<times> baseDevicePlugin"
    by (simp add: ResourceGPUCore_def ResourceGPUMemory_def less_char_def)
  then show ?thesis
    by (cases "Devices nv"; cases "snd (Devices nv)")
      (auto simp: NewGPUSharePlugin_def NewGPUShareMemoryDevicePlugin_def NewGPUShareCoreDevicePlugin_def)
qed

lemma device_plugin_resources:
  "NewGPUShareCoreDevicePlugin oper nv = Ok c \<Longrightarrow> bp_ResourceName c = ResourceGPUCore"
  "NewGPUShareMemoryDevicePlugin oper nv = Ok m \<Longrightarrow> bp_ResourceName m = ResourceGPUMemory"
  by (auto simp: NewGPUShareMemoryDevicePlugin_def NewGPUShareCoreDevicePlugin_def split: prod.splits option.splits)

definition manager_of :: "flags \<Rightarrow> GPUManagerImpl" where
  "manager_of fl = \<lparr>NodeName = fl_node fl, kubeconf = fl_kubeconf fl, dbPath = fl_dbfile fl,
     GPUPluginName = fl_gpuPluginName fl\<rparr>"

lemma agent_main_Ok:
  "agent_main env fl = Ok (m, ag, gp) \<longleftrightarrow>
     m = manager_of fl \<and> manager_clients env m = Ok ()
     \<and> fl_gpuPluginName fl = GPUSHARE
     \<and> NewStorage (me_disk env (fl_dbfile fl)) = Ok (Storage ag)
     \<and> NewGPUSharePlugin gpushare_operator (me_nvml env) = Ok gp
     \<and> ag = \<lparr>DeviceLocator = [ResourceGPUCore \<mapsto> NewKubeletDeviceLocator ResourceGPUCore (me_dial env ResourceGPUCore),
                               ResourceGPUMemory \<mapsto> NewKubeletDeviceLocator ResourceGPUMemory (me_dial env ResourceGPUMemory)],
              Sitter = NewSitter (fl_node fl) (me_pods env) (me_fault env), Storage = Storage ag,
              Operator = gpushare_operator, host = me_host env\<rparr>"
  by (cases ag)
    (auto simp: agent_main_def NewGPUManager_def manager_of_def PluginFactory_def Let_def
      split: res.splits if_splits)

lemma NewStorage_reopen:
  assumes "usable db" "disk = \<lparr>mkdir_err = None, open_err = None, image = buckets db, disk_fault = None\<rparr>"
  shows "NewStorage disk = Ok db"
proof -
  have "map_of (buckets db) RootBucket \<noteq> None" using assms(1) by (simp add: usable_def store_ok_def)
  moreover have "db = \<lparr>buckets = buckets db, opened = True, commit_fault = None\<rparr>"
    using assms(1) by (simp add: usable_def)
  moreover have "opened db" "commit_fault db = None" using assms(1) by (simp_all add: usable_def)
  ultimately show ?thesis
    using assms(2) by (auto simp: NewStorage_def db_Update_def Let_def split: option.split)
qed

lemma agent_main_starts:
  "(\<exists>r. agent_main env fl = Ok r) =
     (manager_clients env (manager_of fl) = Ok ()
      \<and> (\<exists>db. NewStorage (me_disk env (fl_dbfile fl)) = Ok db)
      \<and> fl_gpuPluginName fl = ''gpushare'' \<and> nvml_ok (me_nvml env))
   \<and> \<not> (\<exists>r. agent_main env (default_flags\<lparr>fl_node := n, fl_dbfile := p, fl_kubeconf := k\<rparr>) = Ok r)"
proof -
  have gp: "(\<exists>gp. NewGPUSharePlugin gpushare_operator (me_nvml env) = Ok gp) \<longleftrightarrow> nvml_ok (me_nvml env)"
  proof -
    have "(\<exists>gp. NewGPUSharePlugin gpushare_operator (me_nvml env) = Ok gp) \<longleftrightarrow> snd (Devices (me_nvml env)) = None"
      by (cases "Devices (me_nvml env)") (auto simp: GPUSharePlugin_ok core_devices mem_devices)
    then show ?thesis by (simp add: Devices_nvml_ok)
  qed
  have "(\<exists>r. agent_main env fl = Ok r) \<longleftrightarrow>
      manager_clients env (manager_of fl) = Ok () \<and> fl_gpuPluginName fl = GPUSHARE
      \<and> (\<exists>db. NewStorage (me_disk env (fl_dbfile fl)) = Ok db)
      \<and> (\<exists>gp. NewGPUSharePlugin gpushare_operator (me_nvml env) = Ok gp)" for fl
    by (auto simp: agent_main_Ok split_paired_Ex intro!: exI [of _ "\<lparr>DeviceLocator = _, Sitter = _, Storage = _, Operator = _, host = _\<rparr>"])
  with gp show ?thesis by (auto simp: GPUSHARE_def default_flags_def)
qed

text \<open>A node on which the agent starts, for the instances of the properties.\<close>

definition demo_flags :: flags where
  "demo_flags = default_flags\<lparr>fl_node := ''node-1'', fl_gpuPluginName := ''gpushare'', fl_dbfile := ''/var/lib/egpu/meta.db''\<rparr>"

definition demo_env :: mgr_env where
  "demo_env =
     \<lparr>me_InClusterConfig = None, me_BuildConfig = (\<lambda>_. None), me_NewClient = None, me_NewEGPUClient = None,
      me_disk = (\<lambda>_. \<lparr>mkdir_err = None, open_err = None, image = buckets (snd (Save demo_pod demo_db)), disk_fault = None\<rparr>),
      me_pods = (\<lambda>_. None), me_fault = (\<lambda>_. None), me_dial = (\<lambda>_. Some EDial),
      me_nvml = demo_nvml, me_host = demo_host\<rparr>"

lemma demo_env_starts: "\<exists>r. agent_main demo_env demo_flags = Ok r"
proof -
  have "\<exists>db. NewStorage (me_disk demo_env (fl_dbfile demo_flags)) = Ok db"
    using NewStorage_reopen [OF usable_put [OF demo_db_usable demo_pod_storable] refl] by (simp add: demo_env_def)
  moreover have "manager_clients demo_env (manager_of demo_flags) = Ok ()"
    by (simp add: manager_clients_def manager_of_def demo_env_def demo_flags_def default_flags_def
        MustNewClientInCluster_def NewClientInCluster_def)
  moreover have "nvml_ok (me_nvml demo_env)" by (simp add: nvml_ok_def demo_env_def demo_nvml_def)
  moreover have "fl_gpuPluginName demo_flags = ''gpushare''" by (simp add: demo_flags_def)
  ultimately show ?thesis
    using agent_main_starts [THEN conjunct1, of demo_env demo_flags] by blast
qed

section \<open>Properties\<close>

text \<open>
  C36: The agent starts exactly when the clients can be made, the database opened, the plugin is
  named \<open>gpushare\<close> and NVML lists every GPU; so never with the default of the \<open>gpuPluginName\<close> flag.
\<close>

theorem agent_starts_iff:
  "(\<exists>r. agent_main env fl = Ok r) =
     (manager_clients env (manager_of fl) = Ok ()
      \<and> (\<exists>db. NewStorage (me_disk env (fl_dbfile fl)) = Ok db)
      \<and> fl_gpuPluginName fl = ''gpushare'' \<and> nvml_ok (me_nvml env))
   \<and> \<not> (\<exists>r. agent_main env (default_flags\<lparr>fl_node := n, fl_dbfile := p, fl_kubeconf := k\<rparr>) = Ok r)"
  by (rule agent_main_starts)

text \<open>
  An agent that has started is wired as its parts assume: each resource is served by the
  plugin and the locator of that resource and of no other, pre-start calls are asked for, the
  operator is the GPU-share one, and the pods it watches are those of its node.
\<close>

lemma agent_wiring:
  assumes "agent_main env fl = Ok (m, ag, gp)"
  shows "Operator ag = gpushare_operator \<and> host ag = me_host env
    \<and> selector (Sitter ag) = nodeNameFilter (fl_node fl)
    \<and> map fst gp = [ResourceGPUCore, ResourceGPUMemory]
    \<and> (\<forall>(r, srv, bp) \<in> set gp. dp_ResourceName srv = r \<and> dp_PreStartRequired srv \<and> bp_ResourceName bp = r
         \<and> (\<exists>k. DeviceLocator ag r = Some k \<and> loc_resource k = r))
    \<and> distinct (map (\<lambda>(r, srv, bp). dp_Endpoint srv) gp)"
  using assms unfolding agent_main_Ok GPUSharePlugin_ok
  by (auto simp: NewSitter_def NewKubeletDeviceLocator_def device_plugin_resources
      elim!: forw_subst [of ag])

text \<open>
  An agent that is started again on the database of the one before it knows the same pods and
  their devices.
\<close>

lemma agent_restart_keeps_records:
  assumes "usable (Storage old)"
    and "me_disk env (fl_dbfile fl) = \<lparr>mkdir_err = None, open_err = None, image = buckets (Storage old), disk_fault = None\<rparr>"
    and "agent_main env fl = Ok (m, ag, gp)"
  shows "pods_of (Storage ag) = pods_of (Storage old) \<and> usable (Storage ag)"
proof -
  have "NewStorage (me_disk env (fl_dbfile fl)) = Ok (Storage ag)"
    using assms(3) unfolding agent_main_Ok by blast
  then show ?thesis using NewStorage_reopen [OF assms(1,2)] assms(1) by simp
qed

end
