(* ===== verification/Node_Life.thy ===== *)
theory Node_Life
  imports Manager
begin

text \<open>
  The agent over the life of a node: a step relation whose steps are pre-start calls of both
  plugins, rounds of the collector, changes of the environment between them (pods, disk, files)
  and restarts of the agent on the database it left, from the first start on.  The invariant says
  that the database can be read, that what it holds are devices the plugins made, and that the
  locators can be called; so no operation panics.
\<close>

section \<open>Records\<close>

text \<open>What the plugins record: a device made from a non-empty list, for one of the two resources.\<close>

definition made_device :: "Device option \<Rightarrow> bool" where
  "made_device p \<longleftrightarrow>
     (\<exists>ids r. ids \<noteq> [] \<and> r \<in> {ResourceGPUCore, ResourceGPUMemory} \<and> p = Some (NewDevice ids r))"

definition record_ok :: "PodInfo \<Rightarrow> bool" where
  "record_ok i \<longleftrightarrow> (\<exists>m. ContainerDeviceMap i = Some m \<and> (\<forall>q \<in> set m. made_device (snd q)))"

definition records_ok :: "boltdb \<Rightarrow> bool" where
  "records_ok db \<longleftrightarrow> (\<forall>k i. pods_of db k = Some i \<longrightarrow> record_ok i)"

lemma records_okD: "records_ok db \<Longrightarrow> pods_of db k = Some i \<Longrightarrow> record_ok i"
  unfolding records_ok_def by blast

lemma record_ok_NewPI [simp]: "record_ok (NewPI ns n)"
  by (simp add: record_ok_def)

lemma record_ok_put:
  assumes "record_ok i" "made_device p"
  shows "record_ok (i\<lparr>ContainerDeviceMap := map_option (amap_put c p) (ContainerDeviceMap i)\<rparr>)"
proof -
  obtain m where m: "ContainerDeviceMap i = Some m" "\<forall>q \<in> set m. made_device (snd q)"
    using assms(1) by (auto simp: record_ok_def)
  have "made_device (snd q)" if "q \<in> set (amap_put c p m)" for q
    using that amap_put_set [of c p m] m(2) assms(2) by auto
  with m(1) show ?thesis by (simp add: record_ok_def)
qed

lemma pods_of_ok:
  assumes "store_ok db" "pods_of db k = Some i"
  shows "pod_ok i"
proof -
  obtain ns n where k: "k = (ns, n)" by force
  then have "Namespace i = ns" "Name i = n" using pods_of_named assms(2) by auto
  then have "i \<in> set (pod_list db)" using pod_list_view [OF assms(1)] assms(2) k by simp
  then obtain kk v where "(kk, v) \<in> set (root_of db)" "NewPIFromRaw kk v = Ok i"
    by (auto simp: pod_list_def set_raw_pods)
  with assms(1) show ?thesis by (fastforce simp: store_ok_def entry_ok_def)
qed

lemma resources_utf8 [simp]: "r \<in> {ResourceGPUCore, ResourceGPUMemory} \<Longrightarrow> utf8_valid r"
  by (auto simp: ResourceGPUCore_def ResourceGPUMemory_def ascii_def intro!: ascii_utf8_valid)

lemma device_ok_NewDevice:
  "list_all utf8_valid ids \<Longrightarrow> r \<in> {ResourceGPUCore, ResourceGPUMemory} \<Longrightarrow> device_ok (NewDevice ids r)"
  by (auto simp: device_ok_def list_all_iff simp del: utf8_valid.simps)

lemma devmap_ok_put:
  "devmap_ok m \<Longrightarrow> utf8_valid c \<Longrightarrow> device_ok d \<Longrightarrow> devmap_ok (map_option (amap_put c (Some d)) m)"
  using amap_put_set [of c "Some d" "the m"]
  by (cases m) (auto simp: devmap_ok_def simp del: utf8_valid.simps)

section \<open>Recording\<close>

definition store_inv :: "boltdb \<Rightarrow> bool" where
  "store_inv db \<longleftrightarrow> store_ok db \<and> opened db \<and> records_ok db"

lemma store_invD:
  "store_inv db \<Longrightarrow> store_ok db" "store_inv db \<Longrightarrow> opened db" "store_inv db \<Longrightarrow> records_ok db"
  by (simp_all add: store_inv_def)

lemma LoadOrCreate_read:
  assumes "store_inv db" "plain_elem ns" "plain_elem n"
  shows "\<exists>i. LoadOrCreate ns n db = Ok i \<and> pod_ok i \<and> record_ok i"
proof (cases "pods_of db (ns, n)")
  case None
  with assms show ?thesis
    by (auto simp: LoadOrCreate_def Load_read store_inv_def pod_ok_def devmap_ok_def)
next
  case (Some i)
  with assms pods_of_ok [of db "(ns, n)" i] show ?thesis
    by (auto simp: LoadOrCreate_def Load_read store_inv_def records_ok_def)
qed

lemma Save_inv:
  assumes "store_inv db" "pod_ok i" "record_ok i"
  shows "store_inv (snd (Save i db))"
proof -
  have "store_ok db" using assms by (simp add: store_inv_def)
  from Save_states(1) [OF this, of i] show ?thesis
  proof
    assume "snd (Save i db) = db"
    with assms show ?thesis by simp
  next
    let ?db = "db\<lparr>buckets := amap_put RootBucket (amap_put (Key i) (Val i) (root_of db)) (buckets db)\<rparr>"
    assume eq: "snd (Save i db) = ?db"
    have "record_ok j" if "pods_of ?db k = Some j" for k j
      using that assms(1,3) unfolding pods_of_put [OF assms(2)] store_inv_def records_ok_def
      by (metis fun_upd_apply option.inject)
    with assms store_ok_putI [of db i] show ?thesis
      unfolding eq by (simp add: store_inv_def records_ok_def)
  qed
qed

lemma record_device_inv:
  assumes "store_inv db" "plain_elem (pc_Namespace pc)" "plain_elem (pc_Name pc)" "utf8_valid (pc_Container pc)"
    and "ids \<noteq> []" "list_all utf8_valid ids" "r \<in> {ResourceGPUCore, ResourceGPUMemory}"
  shows "fst (record_device pc (NewDevice ids r) db) \<noteq> Panic"
    and "store_inv (snd (record_device pc (NewDevice ids r) db))"
proof -
  obtain i where i: "LoadOrCreate (pc_Namespace pc) (pc_Name pc) db = Ok i" "pod_ok i" "record_ok i"
    using LoadOrCreate_read assms by blast
  then obtain m where m: "ContainerDeviceMap i = Some m" by (auto simp: record_ok_def)
  let ?i = "i\<lparr>ContainerDeviceMap := map_option (amap_put (pc_Container pc) (Some (NewDevice ids r))) (ContainerDeviceMap i)\<rparr>"
  have rec: "record_device pc (NewDevice ids r) db = Save ?i db"
    by (simp add: record_device_def i m)
  have "pod_ok ?i"
    using i(2) devmap_ok_put [OF _ assms(4) device_ok_NewDevice [OF assms(6,7)]] by (simp add: pod_ok_def)
  moreover have "record_ok ?i"
    using record_ok_put i(3) assms(5,7) unfolding made_device_def by blast
  ultimately show "store_inv (snd (record_device pc (NewDevice ids r) db))"
    unfolding rec using Save_inv assms(1) by blast
  show "fst (record_device pc (NewDevice ids r) db) \<noteq> Panic"
    unfolding rec using Save_states(2) assms(1) by (simp add: store_inv_def)
qed


text \<open>What the invariant says of the records.\<close>

lemma store_inv_wf:
  assumes "store_inv db"
  shows "fst (ForEach (\<lambda>i n. (Ok (), Suc n)) db 0) = Ok ()"
    and "pods_of db k = Some i \<Longrightarrow> ContainerDeviceMap i = Some m \<Longrightarrow> (c, p) \<in> set m \<Longrightarrow>
      \<exists>ids r. ids \<noteq> [] \<and> r \<in> {ResourceGPUCore, ResourceGPUMemory} \<and> p = Some (NewDevice ids r)"
    and "pods_of db k = Some i \<Longrightarrow> ContainerDeviceMap i \<noteq> None"
proof -
  have "visit_pods (\<lambda>i n. (Ok (), Suc n)) is n = (Ok (), n + length is)" for "is" n
    by (induction "is" arbitrary: n) auto
  then show "fst (ForEach (\<lambda>i n. (Ok (), Suc n)) db 0) = Ok ()"
    using assms by (simp add: ForEach_visit store_inv_def)
  have rec: "pods_of db k = Some i \<Longrightarrow> record_ok i" for i
    using assms records_okD unfolding store_inv_def by blast
  show "\<exists>ids r. ids \<noteq> [] \<and> r \<in> {ResourceGPUCore, ResourceGPUMemory} \<and> p = Some (NewDevice ids r)"
    if "pods_of db k = Some i" "ContainerDeviceMap i = Some m" "(c, p) \<in> set m"
  proof -
    have "made_device (snd (c, p))" using rec [OF that(1)] that(2,3) unfolding record_ok_def by fastforce
    then show ?thesis by (simp add: made_device_def)
  qed
  show "pods_of db k = Some i \<Longrightarrow> ContainerDeviceMap i \<noteq> None"
    using rec [of i] by (auto simp: record_ok_def)
qed

section \<open>Locating\<close>

text \<open>An answer with the names Kubernetes allows.\<close>

definition answer_ok :: "err + ListPodResourcesResponse \<Rightarrow> bool" where
  "answer_ok a \<longleftrightarrow>
     (case a of Inl _ \<Rightarrow> True
      | Inr ps \<Rightarrow> \<forall>p \<in> set ps. plain_elem (pr_Namespace p) \<and> plain_elem (pr_Name p)
                   \<and> (\<forall>c \<in> set (pr_Containers p). utf8_valid (cr_Name c)))"

definition container_ok :: "PodContainer \<Rightarrow> bool" where
  "container_ok pc \<longleftrightarrow> plain_elem (pc_Namespace pc) \<and> plain_elem (pc_Name pc) \<and> utf8_valid (pc_Container pc)"

lemma listed_container_ok: "listed_in a pc \<Longrightarrow> answer_ok a \<Longrightarrow> container_ok pc"
  by (auto simp: listed_in_def answer_ok_def container_ok_def split: sum.splits)

definition locator_ok :: "string \<Rightarrow> KubeletDeviceLocator \<Rightarrow> bool" where
  "locator_ok r k \<longleftrightarrow> loc_resource k = r \<and> locator_ready k"

lemma locator_ok_New [simp]: "locator_ok r (NewKubeletDeviceLocator r dial)"
  by (simp add: locator_ok_def locator_ready_def NewKubeletDeviceLocator_def)

lemma Locate_resource: "Locate dial a d k = (x, k') \<Longrightarrow> loc_resource k' = loc_resource k"
  by (auto simp: Locate_def Let_def split: if_splits option.splits sum.splits)

lemma Locate_keeps:
  assumes "locator_ok r k" "Locate dial a d k = (x, k')"
  shows "x \<noteq> Panic" "locator_ok r k'" "x = Ok pc \<Longrightarrow> answer_ok a \<Longrightarrow> container_ok pc"
  using assms kubelet.ready_locate [of k dial a d x k'] kubelet.located_listed [of k dial a d pc k']
  by (auto simp: locator_ok_def Locate_resource listed_container_ok)

definition locators_ok :: "(string \<Rightarrow> KubeletDeviceLocator option) \<Rightarrow> bool" where
  "locators_ok L \<longleftrightarrow> (\<forall>r \<in> {ResourceGPUCore, ResourceGPUMemory}. \<exists>k. L r = Some k \<and> locator_ok r k)"

lemma locate_assumed_keeps:
  assumes "locators_ok (DeviceLocator ag)" "r \<in> {ResourceGPUCore, ResourceGPUMemory}" "answer_ok (answer kl)"
    and "locate_assumed kl d r ag = (x, ag')"
  shows "x \<noteq> Panic" "locators_ok (DeviceLocator ag')" "x = Ok (pc, val) \<Longrightarrow> container_ok pc"
proof -
  obtain k where k: "DeviceLocator ag r = Some k" "locator_ok r k"
    using assms(1,2) by (auto simp: locators_ok_def)
  obtain y k' where y: "Locate (dial_err kl) (answer kl) d k = (y, k')" by force
  note keeps = Locate_keeps [OF k(2) y]
  have "DeviceLocator ag' = (DeviceLocator ag)(r \<mapsto> k') \<and> x \<noteq> Panic \<and> (x = Ok (pc, val) \<longrightarrow> y = Ok pc)"
    using assms(4) k(1) y keeps(1)
    by (auto simp: locate_assumed_def Let_def GetPod_def split: res.splits option.splits if_splits)
  with keeps(2,3) assms(1,3) show "x \<noteq> Panic" "locators_ok (DeviceLocator ag')" "x = Ok (pc, val) \<Longrightarrow> container_ok pc"
    by (auto simp: locators_ok_def)
qed

section \<open>The handlers\<close>

definition agent_inv :: "agent \<Rightarrow> bool" where
  "agent_inv ag \<longleftrightarrow>
     Operator ag = gpushare_operator \<and> fs_ok (host ag) \<and> store_inv (Storage ag) \<and> locators_ok (DeviceLocator ag)"

lemma link_and_record_inv:
  assumes "agent_inv ag" "container_ok pc" "ids \<noteq> []" "list_all utf8_valid ids"
    and "r \<in> {ResourceGPUCore, ResourceGPUMemory}"
    and "link_and_record pc (NewDevice ids r) gs ag = (x, ag')"
  shows "x \<noteq> Panic \<and> agent_inv ag'"
proof -
  have oper: "Operator ag = gpushare_operator" using assms(1) by (simp add: agent_inv_def)
  obtain e fs where fs: "create_loop gpushare_operator (hash (sort ids)) 0 gs (host ag) = (e, fs)" by force
  then have "fs_ok fs" using create_loop_fs(2) [of "host ag" "hash (sort ids)" 0 gs] assms(1) by (simp add: agent_inv_def)
  moreover obtain y db where y: "record_device pc (NewDevice ids r) (Storage ag) = (y, db)" by force
  moreover have "y \<noteq> Panic" "store_inv db"
    using record_device_inv [of "Storage ag" pc ids r] assms y by (simp_all add: agent_inv_def container_ok_def)
  ultimately show ?thesis
    using assms(1,6) fs oper cleanup_loop_fs(2)
    by (auto simp: link_and_record_def agent_inv_def split: option.splits res.splits)
qed

text \<open>The two handlers differ only in how they read the annotation.\<close>

definition prestart_with ::
  "(string \<Rightarrow> int list option) \<Rightarrow> baseDevicePlugin \<Rightarrow> kubelet \<Rightarrow> string list \<Rightarrow> agent \<Rightarrow> unit res \<times> agent"
where
  "prestart_with parse c kl ids ag =
     (if ids = [] then (Fail EEmptyDeviceList, ag)
      else (case locate_assumed kl (NewDevice ids (bp_ResourceName c)) (bp_ResourceName c) ag of
              (Ok (cur, val), ag) \<Rightarrow>
                (case parse val of
                   None \<Rightarrow> (Fail (ENotIndex val), ag)
                 | Some gs \<Rightarrow> link_and_record cur (NewDevice ids (bp_ResourceName c)) gs ag)
            | (Fail e, ag) \<Rightarrow> (Fail e, ag)
            | (Panic, ag) \<Rightarrow> (Panic, ag)))"

lemma prestart_with_core: "PreStartContainer_core = prestart_with (\<lambda>val. parse_ids (split_on CHR '','' val) [])"
  by (intro ext) (simp add: PreStartContainer_core_def prestart_with_def Let_def split: prod.split res.split)

lemma prestart_with_mem: "PreStartContainer_mem = prestart_with (\<lambda>val. map_option (\<lambda>i. [i]) (atoi val))"
  by (intro ext)
    (simp add: PreStartContainer_mem_def prestart_with_def Let_def map_option_case split: prod.split res.split option.split)

lemma prestart_inv:
  assumes "agent_inv ag" "bp_ResourceName c \<in> {ResourceGPUCore, ResourceGPUMemory}" "answer_ok (answer kl)"
    and "list_all utf8_valid ids" "prestart_with parse c kl ids ag = (x, ag')"
  shows "x \<noteq> Panic \<and> agent_inv ag'"
proof (cases "ids = []")
  case True
  with assms(1,5) show ?thesis by (auto simp: prestart_with_def)
next
  case False
  let ?d = "NewDevice ids (bp_ResourceName c)"
  obtain y ag1 where y: "locate_assumed kl ?d (bp_ResourceName c) ag = (y, ag1)" by force
  have locs: "locators_ok (DeviceLocator ag)" using assms(1) by (simp add: agent_inv_def)
  note keeps = locate_assumed_keeps [OF locs assms(2,3) y] and frame = locate_assumed_frame [OF y]
  have inv: "agent_inv ag1" using keeps(2) frame assms(1) by (simp add: agent_inv_def)
  show ?thesis
  proof (cases y)
    case (Ok cv)
    then obtain cur val where cv: "y = Ok (cur, val)" by (cases cv) simp
    show ?thesis
      using assms(5) False y cv inv link_and_record_inv [OF inv keeps(3) [OF cv] False assms(4,2)]
      by (auto simp: prestart_with_def split: option.splits)
  qed (use assms(5) False y inv keeps(1) in \<open>auto simp: prestart_with_def\<close>)
qed

section \<open>The collector\<close>

lemma records_ok_gone:
  assumes "store_inv (Storage ag)" "map_order_ok ord" "l \<in> set (gc_work ord ag)"
  shows "made_device (ln_device l)"
proof -
  obtain i where i: "i \<in> set (gone_pods ag)" "l \<in> set (lines_of ord i)"
    using assms(3) by (auto simp: gc_work_def)
  then have "pods_of (Storage ag) (Namespace i, Name i) = Some i"
    using assms(1) gone_pods_view by (auto simp: store_inv_def)
  then obtain m where m: "ContainerDeviceMap i = Some m" "\<forall>q \<in> set m. made_device (snd q)"
    using assms(1) records_okD unfolding store_inv_def record_ok_def by blast
  have "set (ord i m) = set m" using assms(2) by (metis map_order_ok_def set_mset_mset)
  with i(2) m show ?thesis by (force simp: lines_of_def)
qed

lemma Storage_Delete_inv:
  assumes "store_inv db" "plain_elem ns" "plain_elem n"
  shows "store_inv (snd (Storage_Delete ns n db)) \<and> fst (Storage_Delete ns n db) \<noteq> Panic"
proof -
  have ok: "store_ok db" using assms(1) by (simp add: store_inv_def)
  have "records_ok (snd (Storage_Delete ns n db))"
    using Storage_Delete_states(2) [OF ok assms(2,3)] assms(1)
    by (auto simp: store_inv_def records_ok_def split: if_splits)
  then show ?thesis
    using Storage_Delete_frame(1,2) [OF ok assms(2,3)] Storage_Delete_states(3) [OF ok assms(2,3)] assms(1)
    by (simp add: store_inv_def)
qed

lemma gc_lines_inv:
  "agent_inv ag \<Longrightarrow> \<forall>l \<in> set ls. made_device (ln_device l) \<and> plain_elem (ln_namespace l) \<and> plain_elem (ln_name l) \<Longrightarrow>
   fst (gc_lines ls ag) \<noteq> Panic \<and> agent_inv (snd (gc_lines ls ag))"
proof (induction ls arbitrary: ag)
  case (Cons l ls)
  obtain d where d: "ln_device l = Some d" using Cons.prems(2) by (auto simp: made_device_def)
  have oper: "Operator ag = gpushare_operator" "fs_ok (host ag)" "store_inv (Storage ag)"
    using Cons.prems(1) by (simp_all add: agent_inv_def)
  obtain e fs1 where fs1: "GPUShare_Delete NewGPUShareOperator UselessNumber (link_id (Hash d) 0) (host ag) = (e, fs1)"
    by force
  then have ok1: "fs_ok fs1"
    using Delete_fs_ok [OF oper(2), of NewGPUShareOperator UselessNumber "link_id (Hash d) 0"] by simp
  let ?rest = "if ResourceName d = ResourceGPUCore \<and> length (DevList d) > 100
    then delete_seq gpushare_operator (Hash d) [1..<length (DevList d) div 100] fs1 else (None, fs1)"
  obtain e' fs2 where fs2: "?rest = (e', fs2)" by force
  have ok2: "fs_ok fs2"
    using fs2 ok1 delete_seq_fs [of "Hash d" "[1..<length (DevList d) div 100]" fs1] by (auto split: if_splits)
  obtain r db where db: "Storage_Delete (ln_namespace l) (ln_name l) (Storage ag) = (r, db)" by force
  have "store_inv db" "r \<noteq> Panic"
    using Storage_Delete_inv [OF oper(3), of "ln_namespace l" "ln_name l"] Cons.prems(2) db by simp_all
  then have "agent_inv (ag\<lparr>host := fs2\<rparr>)" "agent_inv (ag\<lparr>host := fs1\<rparr>)" "agent_inv (ag\<lparr>host := fs2, Storage := db\<rparr>)"
    using Cons.prems(1) ok1 ok2 by (simp_all add: agent_inv_def)
  with Cons.IH Cons.prems(2) d fs1 fs2 oper(1) db \<open>r \<noteq> Panic\<close> show ?case
    by (auto split: option.split prod.split res.split)
qed simp

lemma gc_round_inv:
  assumes "agent_inv ag" "map_order_ok ord" "gc_round ord ev ag = (x, ag')"
  shows "x \<noteq> Panic \<and> agent_inv ag'"
proof (cases "gc_wakes ev")
  case True
  have st: "store_ok (Storage ag)" "opened (Storage ag)" "store_inv (Storage ag)"
    using assms(1) by (simp_all add: agent_inv_def store_inv_def)
  have "fst (gc_lines (gc_work ord ag) ag) \<noteq> Panic \<and> agent_inv (snd (gc_lines (gc_work ord ag) ag))"
    using records_ok_gone [OF st(3) assms(2)] gc_work_plain [OF st(1)] by (intro gc_lines_inv assms(1)) blast
  with gc_round_lines [OF st(1,2) True] assms(3) show ?thesis by simp
qed (use assms in \<open>auto simp: gc_round_def\<close>)


section \<open>The life of a node\<close>

text \<open>
  What happens on a node: a pre-start call of one of the plugins, a round of the collector, the
  environment (the pods in the cache and at the API server, the state of the disk, the files),
  and a restart of the agent on the database and the files it finds.
\<close>

datatype node_event =
    EvPreStart string kubelet "string list"
  | EvCollect map_order gc_event
  | EvPods PodSitter
  | EvDisk "err option"
  | EvFiles host_fs
  | EvRestart mgr_env flags

type_synonym node_state = "agent \<times> GPUSharePlugin"

text \<open>A pre-start call goes to the plugin that serves the resource.\<close>

fun node_next :: "node_event \<Rightarrow> node_state \<Rightarrow> (unit res \<times> node_state) option" where
  "node_next (EvPreStart resName kl ids) (ag, gp) =
     (case map_of gp resName of
        None \<Rightarrow> None
      | Some (_, bp) \<Rightarrow>
          (case (if resName = ResourceGPUMemory then PreStartContainer_mem bp kl ids ag
                 else PreStartContainer_core bp kl ids ag) of
             (r, ag') \<Rightarrow> Some (r, ag', gp)))"
| "node_next (EvCollect ord ev) (ag, gp) = (case gc_round ord ev ag of (r, ag') \<Rightarrow> Some (r, ag', gp))"
| "node_next (EvPods st) (ag, gp) = Some (Ok (), ag\<lparr>Sitter := st\<rparr>, gp)"
| "node_next (EvDisk f) (ag, gp) = Some (Ok (), ag\<lparr>Storage := (Storage ag)\<lparr>commit_fault := f\<rparr>\<rparr>, gp)"
| "node_next (EvFiles fs) (ag, gp) = Some (Ok (), ag\<lparr>host := fs\<rparr>, gp)"
| "node_next (EvRestart env fl) (ag, gp) =
     (case agent_main env fl of Ok (_, ag', gp') \<Rightarrow> Some (Ok (), ag', gp') | _ \<Rightarrow> None)"

fun event_ok :: "node_event \<Rightarrow> node_state \<Rightarrow> bool" where
  "event_ok (EvPreStart resName kl ids) s \<longleftrightarrow> answer_ok (answer kl) \<and> list_all utf8_valid ids"
| "event_ok (EvCollect ord ev) s \<longleftrightarrow> map_order_ok ord"
| "event_ok (EvFiles fs) s \<longleftrightarrow> fs_ok fs"
| "event_ok (EvRestart env fl) s \<longleftrightarrow>
     image (me_disk env (fl_dbfile fl)) = buckets (Storage (fst s)) \<and> me_host env = host (fst s)"
| "event_ok _ s \<longleftrightarrow> True"

inductive node_step :: "node_state \<Rightarrow> node_state \<Rightarrow> bool" where
  node_stepI: "event_ok ev s \<Longrightarrow> node_next ev s = Some (r, s') \<Longrightarrow> node_step s s'"

inductive_cases node_stepE: "node_step s s'"

text \<open>The first start, on a database that has no records yet.\<close>

definition first_start :: "node_state \<Rightarrow> bool" where
  "first_start s \<longleftrightarrow>
     (\<exists>env fl m. agent_main env fl = Ok (m, fst s, snd s) \<and> fs_ok (me_host env)
        \<and> map_of (image (me_disk env (fl_dbfile fl))) RootBucket = None)"

definition node_reach :: "node_state \<Rightarrow> bool" where
  "node_reach s \<longleftrightarrow> (\<exists>s0. first_start s0 \<and> node_step\<^sup>*\<^sup>* s0 s)"

definition plugins_ok :: "GPUSharePlugin \<Rightarrow> bool" where
  "plugins_ok gp \<longleftrightarrow> map fst gp = [ResourceGPUCore, ResourceGPUMemory] \<and> (\<forall>(r, srv, bp) \<in> set gp. bp_ResourceName bp = r)"

definition node_inv :: "node_state \<Rightarrow> bool" where
  "node_inv s \<longleftrightarrow> agent_inv (fst s) \<and> plugins_ok (snd s)"

lemma agent_main_parts:
  assumes "agent_main env fl = Ok (m, ag, gp)"
  shows "plugins_ok gp" "locators_ok (DeviceLocator ag)" "Operator ag = gpushare_operator" "host ag = me_host env"
    and "NewStorage (me_disk env (fl_dbfile fl)) = Ok (Storage ag)"
  using assms unfolding agent_main_Ok GPUSharePlugin_ok
  by (auto simp: plugins_ok_def locators_ok_def device_plugin_resources elim!: forw_subst [of ag])

lemma NewStorage_image:
  assumes "NewStorage disk = Ok db"
  shows "opened db"
    and "map_of (image disk) RootBucket \<noteq> None \<Longrightarrow> buckets db = image disk"
    and "map_of (image disk) RootBucket = None \<Longrightarrow> buckets db = amap_put RootBucket [] (image disk)"
  using assms
  by (auto simp: NewStorage_def db_Update_def Let_def split: option.splits)

lemma store_inv_buckets:
  assumes "store_inv db" "buckets db' = buckets db" "opened db'"
  shows "store_inv db'"
proof -
  have root: "root_of db' = root_of db" using assms(2) by (simp add: root_of_def)
  have "pods_of db' = pods_of db" unfolding fun_eq_iff pods_of_def root by simp
  with root assms show ?thesis by (simp add: store_inv_def store_ok_def records_ok_def)
qed

lemma store_inv_new:
  assumes "buckets db = amap_put RootBucket [] bs" "opened db"
  shows "store_inv db"
proof -
  have root: "root_of db = []" using assms(1) by (simp add: root_of_def)
  have "pods_of db k = None" for k unfolding pods_of_def root by (simp split: prod.split)
  with root assms show ?thesis by (simp add: store_inv_def store_ok_def records_ok_def)
qed

lemma first_start_inv:
  assumes "first_start s"
  shows "node_inv s"
proof -
  obtain env fl m where main: "agent_main env fl = Ok (m, fst s, snd s)" and fs: "fs_ok (me_host env)"
      and new: "map_of (image (me_disk env (fl_dbfile fl))) RootBucket = None"
    using assms unfolding first_start_def by blast
  note parts = agent_main_parts [OF main]
  have "store_inv (Storage (fst s))"
    using store_inv_new NewStorage_image(1,3) [OF parts(5)] new by blast
  with parts fs show ?thesis by (simp add: node_inv_def agent_inv_def)
qed

lemma node_next_inv:
  assumes "node_inv s" "event_ok ev s" "node_next ev s = Some (r, s')"
  shows "r \<noteq> Panic \<and> node_inv s'"
proof -
  obtain ag gp where s: "s = (ag, gp)" by force
  have inv: "agent_inv ag" "plugins_ok gp" using assms(1) s by (simp_all add: node_inv_def)
  have st: "store_inv (Storage ag)" using inv(1) by (simp add: agent_inv_def)
  show ?thesis
  proof (cases ev)
    case (EvPreStart resName kl ids)
    then obtain srv bp where bp: "map_of gp resName = Some (srv, bp)"
      using assms(3) s by (auto split: option.splits)
    then have res: "bp_ResourceName bp = resName" "resName \<in> {ResourceGPUCore, ResourceGPUMemory}"
      using inv(2) map_of_SomeD [OF bp] by (auto simp: plugins_ok_def)
    obtain ag' where ag': "s' = (ag', gp)"
        "(if resName = ResourceGPUMemory then PreStartContainer_mem bp kl ids ag
          else PreStartContainer_core bp kl ids ag) = (r, ag')"
      using assms(3) s EvPreStart bp by (auto split: prod.splits)
    then obtain parse where "prestart_with parse bp kl ids ag = (r, ag')"
      unfolding prestart_with_core prestart_with_mem by (metis (full_types))
    with prestart_inv [OF inv(1), of bp kl ids] res assms(2) EvPreStart ag'(1) inv(2) show ?thesis
      by (simp add: node_inv_def)
  next
    case (EvCollect ord e)
    then obtain ag' where "gc_round ord e ag = (r, ag')" "s' = (ag', gp)"
      using assms(3) s by (auto split: prod.splits)
    with gc_round_inv [OF inv(1), of ord e] assms(2) EvCollect inv(2) show ?thesis
      by (simp add: node_inv_def)
  next
    case (EvRestart env fl)
    then obtain m ag' gp' where main: "agent_main env fl = Ok (m, ag', gp')" "s' = (ag', gp')" "r = Ok ()"
      using assms(3) s by (auto split: res.splits)
    have img: "image (me_disk env (fl_dbfile fl)) = buckets (Storage ag)" "me_host env = host ag"
      using assms(2) EvRestart s by simp_all
    note parts = agent_main_parts [OF main(1)]
    have "map_of (buckets (Storage ag)) RootBucket \<noteq> None"
      using st by (simp add: store_inv_def store_ok_def)
    then have "store_inv (Storage ag')"
      using store_inv_buckets [OF st] NewStorage_image(1,2) [OF parts(5)] img(1) by simp
    with parts main(2,3) img(2) inv(1) show ?thesis
      by (simp add: node_inv_def agent_inv_def)
  next
    case (EvDisk f)
    have "store_inv ((Storage ag)\<lparr>commit_fault := f\<rparr>)"
      using st by (intro store_inv_buckets [OF st]) (simp_all add: store_inv_def)
    with assms(3) inv s EvDisk show ?thesis by (auto simp: node_inv_def agent_inv_def)
  qed (use assms inv s in \<open>auto simp: node_inv_def agent_inv_def\<close>)
qed

lemma node_reach_inv: "node_reach s \<Longrightarrow> node_inv s"
proof -
  assume "node_reach s"
  then obtain s0 where "first_start s0" "node_step\<^sup>*\<^sup>* s0 s" by (auto simp: node_reach_def)
  from this(2) first_start_inv [OF this(1)] show ?thesis
    by (induction rule: rtranclp_induct) (auto elim!: node_stepE dest: node_next_inv)
qed

text \<open>A node that starts and a pod that gets a GPU, for the instances of the properties.\<close>

definition demo_start :: mgr_env where
  "demo_start = demo_env
     \<lparr>me_disk := (\<lambda>_. \<lparr>mkdir_err = None, open_err = None, image = [], disk_fault = None\<rparr>), me_dial := (\<lambda>_. None)\<rparr>"

definition demo_both :: agent where
  "demo_both = demo_agent\<lparr>DeviceLocator :=
     [ResourceGPUCore \<mapsto> demo_locator, ResourceGPUMemory \<mapsto> NewKubeletDeviceLocator ResourceGPUMemory None]\<rparr>"

lemma demo_both_simps [simp]:
  "Sitter demo_both = demo_sitter" "Storage demo_both = demo_db" "Operator demo_both = gpushare_operator"
  "host demo_both = demo_host"
  by (simp_all add: demo_both_def)

lemma demo_start_runs:
  obtains m gp where
    "agent_main demo_start demo_flags =
       Ok (m, demo_both\<lparr>Sitter := NewSitter ''node-1'' (\<lambda>_. None) (\<lambda>_. None)\<rparr>, gp)"
proof -
  have disk: "NewStorage (me_disk demo_start (fl_dbfile demo_flags)) = Ok demo_db"
    unfolding demo_start_def by (simp, code_simp)
  obtain gp where gp: "NewGPUSharePlugin gpushare_operator (me_nvml demo_start) = Ok gp"
  proof -
    obtain m ag gp where "agent_main demo_env demo_flags = Ok (m, ag, gp)"
      using demo_env_starts by (metis prod_cases3)
    then have "NewGPUSharePlugin gpushare_operator (me_nvml demo_env) = Ok gp" unfolding agent_main_Ok by blast
    with that show ?thesis by (simp add: demo_start_def)
  qed
  have "agent_main demo_start demo_flags =
       Ok (manager_of demo_flags, demo_both\<lparr>Sitter := NewSitter ''node-1'' (\<lambda>_. None) (\<lambda>_. None)\<rparr>, gp)"
    unfolding agent_main_Ok using disk gp
    by (simp add: demo_both_def demo_agent_def demo_start_def demo_env_def demo_flags_def default_flags_def manager_of_def GPUSHARE_def
        manager_clients_def MustNewClientInCluster_def NewClientInCluster_def demo_locator_def ResourceGPUCore_def)
  then show ?thesis by (rule that)
qed


lemma assigned_cong:
  "DeviceLocator ag r = DeviceLocator ag' r \<Longrightarrow> Sitter ag = Sitter ag' \<Longrightarrow>
   assigned kl r ids ag pc val = assigned kl r ids ag' pc val"
  by (simp add: assigned_def)

lemma demo_both_fresh: "fresh_start demo_kubelet ResourceGPUCore demo_ids [0] demo_container demo_both"
proof -
  have core: "ResourceGPUCore = ''elasticgpu.io/gpu-core''" by (simp add: ResourceGPUCore_def)
  have "assigned demo_kubelet ResourceGPUCore demo_ids demo_both demo_container (gpus_text [0])"
  proof (rule assigned_cong [THEN iffD1])
    show "assigned demo_kubelet ResourceGPUCore demo_ids demo_agent demo_container (gpus_text [0])"
      using demo_assigned core by simp
    show "DeviceLocator demo_agent ResourceGPUCore = DeviceLocator demo_both ResourceGPUCore"
      using core by (simp add: demo_agent_def demo_both_def)
  qed simp
  then show ?thesis using demo_fresh_start by (simp add: fresh_start_def demo_host_links del: gpus_text_single)
qed

lemma demo_node:
  obtains s ag1 gp i where "node_reach s" "s = (ag1, gp)"
    and "pods_of (Storage ag1) (''default'', ''train-0'') = Some i"
    and "ContainerDeviceMap i = Some [(''main'', Some (NewDevice demo_ids ResourceGPUCore))]"
    and "Sitter ag1 = demo_sitter" "\<forall>k. k \<noteq> (''default'', ''train-0'') \<longrightarrow> pods_of (Storage ag1) k = None"
proof -
  let ?before = "demo_both\<lparr>Sitter := NewSitter ''node-1'' (\<lambda>_. None) (\<lambda>_. None)\<rparr>"
  obtain m gp where main: "agent_main demo_start demo_flags = Ok (m, ?before, gp)"
    using demo_start_runs .
  have "first_start (?before, gp)"
    unfolding first_start_def
  proof (intro exI conjI)
    show "agent_main demo_start demo_flags = Ok (m, fst (?before, gp), snd (?before, gp))" using main by simp
    show "fs_ok (me_host demo_start)" "map_of (image (me_disk demo_start (fl_dbfile demo_flags))) RootBucket = None"
      using demo_host_ok(2) by (simp_all add: demo_start_def demo_env_def)
  qed
  moreover have "node_step (?before, gp) (demo_both, gp)"
    by (rule node_stepI [of "EvPods demo_sitter" _ "Ok ()"]) (simp_all add: demo_both_def demo_agent_def)
  ultimately have reach: "node_reach (demo_both, gp)" unfolding node_reach_def by blast
  have "plugins_ok gp" using agent_main_parts(1) [OF main] .
  then obtain srv c where c: "map_of gp ResourceGPUCore = Some (srv, c)" "bp_ResourceName c = ResourceGPUCore"
    by (cases gp) (auto simp: plugins_ok_def)
  have fresh: "fresh_start demo_kubelet (bp_ResourceName c) demo_ids [0] demo_container demo_both"
    using demo_both_fresh c(2) by simp
  have fits: "recordable (Storage demo_both) demo_container (NewDevice demo_ids (bp_ResourceName c))"
    using demo_recordable c(2) by (simp add: ResourceGPUCore_def)
  obtain r ag1 where ag1: "PreStartContainer_core c demo_kubelet demo_ids demo_both = (r, ag1)" by force
  then have "node_next (EvPreStart ResourceGPUCore demo_kubelet demo_ids) (demo_both, gp) = Some (r, ag1, gp)"
    using c(1) by simp
  moreover have "event_ok (EvPreStart ResourceGPUCore demo_kubelet demo_ids) (demo_both, gp)"
    by (simp add: demo_kubelet_def) code_simp
  ultimately have reach1: "node_reach (ag1, gp)"
    using reach node_stepI unfolding node_reach_def by (metis rtranclp.rtrancl_into_rtrancl)
  have st: "Storage ag1 = snd (record_device demo_container (NewDevice demo_ids (bp_ResourceName c)) demo_db)"
    "Sitter ag1 = demo_sitter"
    using ag1 PreStart_core_state [OF fresh fits] by auto
  show ?thesis
  proof (rule that [OF reach1 refl])
    show "pods_of (Storage ag1) (''default'', ''train-0'') =
        Some (with_device demo_db demo_container (NewDevice demo_ids (bp_ResourceName c)))"
      using record_device_ok(2) [OF fits] st(1) by (simp add: demo_container_def)
    have "pods_of demo_db k = None" for k
      by (cases k) (simp add: pods_of_def root_of_def demo_db_def)
    then show "\<forall>k. k \<noteq> (''default'', ''train-0'') \<longrightarrow> pods_of (Storage ag1) k = None"
      using record_device_ok(2) [OF fits] st(1) by (simp add: demo_container_def)
  qed (simp_all add: demo_with_device c(2) st(2))
qed

end
