(* ===== verification/Accounts.thy ===== *)
theory Accounts
  imports Node_Life
begin

text \<open>
  The links of a node against the records of its database.  In a run without accidents (the disk
  takes what is written, nobody else touches the links, the kubelet gives devices to one container
  at a time) the two always agree: there is a link exactly for what a recorded device needs.  The
  invariant goes through every call of the plugins, the repetition of a start, every round of the
  collector and every restart of the agent.
\<close>

section \<open>What the database asks for\<close>

definition recorded :: "boltdb \<Rightarrow> ((string \<times> string) \<times> string \<times> Device) set" where
  "recorded db = {(k, c, d). \<exists>i m. pods_of db k = Some i \<and> ContainerDeviceMap i = Some m \<and> map_of m c = Some (Some d)}"

definition links_needed :: "boltdb \<Rightarrow> string set" where
  "links_needed db = {eid. \<exists>k c d j. (k, c, d) \<in> recorded db \<and> j < link_count d \<and> eid = link_id (Hash d) j}"

text \<open>The records name all their devices, each one once and for one container.\<close>

definition record_full :: "PodInfo \<Rightarrow> bool" where
  "record_full i \<longleftrightarrow>
     (\<exists>m. ContainerDeviceMap i = Some m \<and> m \<noteq> [] \<and> distinct (map fst m)
        \<and> (\<forall>q \<in> set m. \<exists>d. snd q = Some d \<and> CHR ''-'' \<notin> set (Hash d)))"

definition records_full :: "boltdb \<Rightarrow> bool" where
  "records_full db \<longleftrightarrow>
     (\<forall>k i. pods_of db k = Some i \<longrightarrow> record_full i)
     \<and> (\<forall>k c d k' c' d'. (k, c, d) \<in> recorded db \<longrightarrow> (k', c', d') \<in> recorded db \<longrightarrow> Hash d = Hash d' \<longrightarrow> (k, c) = (k', c'))"

definition balanced :: "agent \<Rightarrow> bool" where
  "balanced ag \<longleftrightarrow>
     (\<forall>eid. if eid \<in> links_needed (Storage ag) then \<exists>g. links_of (host ag) eid = links_to g
            else links_of (host ag) eid = (None, None))"

definition good :: "agent \<Rightarrow> bool" where
  "good ag \<longleftrightarrow>
     usable (Storage ag) \<and> Operator ag = gpushare_operator \<and> links_writable (host ag) \<and> fs_ok (host ag)
     \<and> records_full (Storage ag) \<and> balanced ag"

lemma links_to_present [simp]: "links_to g \<noteq> (None, None)"
  by (simp add: links_to_def)

lemma recorded_full:
  assumes "record_full i" "ContainerDeviceMap i = Some m" "(c, p) \<in> set m"
  obtains d where "p = Some d" "map_of m c = Some (Some d)" "CHR ''-'' \<notin> set (Hash d)"
proof -
  have m: "distinct (map fst m)" "\<exists>d. snd (c, p) = Some d \<and> CHR ''-'' \<notin> set (Hash d)"
    using assms unfolding record_full_def by auto
  then obtain d where "p = Some d" "CHR ''-'' \<notin> set (Hash d)" by auto
  with that m(1) assms(3) show ?thesis by simp
qed

lemma recorded_dash:
  assumes "records_full db" "(k, c, d) \<in> recorded db"
  shows "CHR ''-'' \<notin> set (Hash d)"
proof -
  obtain i m where "pods_of db k = Some i" "ContainerDeviceMap i = Some m" "map_of m c = Some (Some d)"
    using assms(2) by (auto simp: recorded_def)
  moreover have "record_full i" using assms(1) calculation(1) unfolding records_full_def by blast
  ultimately show ?thesis by (metis map_of_SomeD option.inject recorded_full)
qed

lemma link_id_recorded:
  assumes "records_full db" "(k, c, d) \<in> recorded db" "(k', c', d') \<in> recorded db" "link_id (Hash d) i = link_id (Hash d') j"
  shows "d = d' \<and> i = j \<and> k = k' \<and> c = c'"
proof -
  have "Hash d = Hash d'" "i = j"
    using link_id_hash [of "Hash d" "Hash d'" i j] recorded_dash assms by blast+
  moreover have "(k, c) = (k', c')"
    using assms(1-3) calculation(1) unfolding records_full_def by blast
  ultimately show ?thesis using assms(2,3) by (auto simp: recorded_def)
qed

section \<open>Recording a device\<close>

lemma recorded_put:
  assumes "pods_of db' = (pods_of db)((pc_Namespace pc, pc_Name pc) \<mapsto> with_device db pc d)"
    and "ContainerDeviceMap (record_of db pc) = Some m" "map_of m (pc_Container pc) = None"
  shows "recorded db' = insert ((pc_Namespace pc, pc_Name pc), pc_Container pc, d) (recorded db)"
proof -
  let ?k = "(pc_Namespace pc, pc_Name pc)"
  have w: "ContainerDeviceMap (with_device db pc d) = Some (amap_put (pc_Container pc) (Some d) m)"
    using assms(2) by (simp add: with_device_def)
  have old: "(?k, c, e) \<in> recorded db \<longleftrightarrow> map_of m c = Some (Some e)" for c e
    using assms(2) by (auto simp: recorded_def record_of_def split: option.splits)
  have "(k, c, e) \<in> recorded db' \<longleftrightarrow> (k, c, e) \<in> insert (?k, pc_Container pc, d) (recorded db)" for k c e
  proof (cases "k = ?k")
    case True
    then have "(k, c, e) \<in> recorded db' \<longleftrightarrow> map_of (amap_put (pc_Container pc) (Some d) m) c = Some (Some e)"
      using w by (simp add: recorded_def assms(1))
    with True old assms(3) show ?thesis by auto
  next
    case False
    then show ?thesis by (simp add: recorded_def assms(1))
  qed
  then show ?thesis by (intro set_eqI) (metis prod_cases3)
qed

lemma record_full_put:
  assumes "record_full i \<or> ContainerDeviceMap i = Some []" "CHR ''-'' \<notin> set (Hash d)"
    and "ContainerDeviceMap i = Some m" "amap_ok m"
  shows "record_full (i\<lparr>ContainerDeviceMap := Some (amap_put c (Some d) m)\<rparr>)"
proof -
  have "\<forall>q \<in> set m. \<exists>d. snd q = Some d \<and> CHR ''-'' \<notin> set (Hash d)"
    using assms(1,3) by (auto simp: record_full_def)
  then have "\<forall>q \<in> set (amap_put c (Some d) m). \<exists>d. snd q = Some d \<and> CHR ''-'' \<notin> set (Hash d)"
    using amap_put_set [of c "Some d" m] assms(2) by auto
  moreover have "amap_put c (Some d) m \<noteq> []" using amap_put_keys [of c "Some d" m] by auto
  ultimately show ?thesis
    using amap_ok_distinct [OF amap_ok_put [OF assms(4)]] by (simp add: record_full_def)
qed


lemma links_needed_insert:
  "recorded db' = insert (k, c, d) (recorded db) \<Longrightarrow>
   eid \<in> links_needed db' \<longleftrightarrow> (\<exists>j < link_count d. eid = link_id (Hash d) j) \<or> eid \<in> links_needed db"
proof -
  assume "recorded db' = insert (k, c, d) (recorded db)"
  then have "(k', c', e) \<in> recorded db' \<longleftrightarrow> k' = k \<and> c' = c \<and> e = d \<or> (k', c', e) \<in> recorded db" for k' c' e
    by simp
  then show ?thesis unfolding links_needed_def mem_Collect_eq by metis
qed

lemma links_neededI: "(k, c, d) \<in> recorded db \<Longrightarrow> j < link_count d \<Longrightarrow> link_id (Hash d) j \<in> links_needed db"
  unfolding links_needed_def by blast

lemma records_full_put:
  assumes full: "records_full db" and "recordable db pc d" "CHR ''-'' \<notin> set (Hash d)"
    and "ContainerDeviceMap (record_of db pc) = Some m" "map_of m (pc_Container pc) = None"
    and "pods_of db' = (pods_of db)((pc_Namespace pc, pc_Name pc) \<mapsto> with_device db pc d)"
    and new: "\<And>k c e. (k, c, e) \<in> recorded db \<Longrightarrow> Hash e \<noteq> Hash d"
  shows "records_full db'"
proof -
  have rec: "recorded db' = insert ((pc_Namespace pc, pc_Name pc), pc_Container pc, d) (recorded db)"
    using recorded_put assms(4-6) by blast
  have "store_ok db" using assms(2) by (simp add: recordable_def usable_def)
  then have m: "amap_ok m \<and> (record_full (record_of db pc) \<or> m = [])"
    using assms(4) full pods_of_ok [of db "(pc_Namespace pc, pc_Name pc)"]
    by (auto simp: record_of_def records_full_def pod_ok_def devmap_ok_def split: option.splits)
  then have "record_full (with_device db pc d)"
    using record_full_put [OF _ assms(3,4)] assms(4) by (auto simp: with_device_def)
  then have "\<forall>k i. pods_of db' k = Some i \<longrightarrow> record_full i"
    using full assms(6) unfolding records_full_def by (metis fun_upd_apply option.inject)
  moreover have "(k, c) = (k', c')"
    if "(k, c, e) \<in> recorded db'" "(k', c', e') \<in> recorded db'" "Hash e = Hash e'" for k c e k' c' e'
    using that full new unfolding rec records_full_def by (metis insert_iff prod.inject)
  ultimately show ?thesis unfolding records_full_def by blast
qed

section \<open>A container that is started again\<close>

lemma Create_present: "node_at fs (sym_link eid) \<noteq> None \<Longrightarrow> snd (GPUShare_Create G i eid fs) = fs"
  by (simp add: GPUShare_Create_def Let_def os_Symlink_def split: option.split)

lemma create_loop_present:
  "\<forall>k < length gs. node_at fs (sym_link (link_id h (i + k))) \<noteq> None \<Longrightarrow>
   snd (create_loop gpushare_operator h i gs fs) = fs"
proof (induction gs arbitrary: i)
  case (Cons g gs)
  have "node_at fs (sym_link (link_id h i)) \<noteq> None" using Cons.prems by force
  then have "snd (GPUShare_Create NewGPUShareOperator g (link_id h i) fs) = fs" by (rule Create_present)
  moreover have "snd (create_loop gpushare_operator h (Suc i) gs fs) = fs"
    using Cons.prems by (intro Cons.IH) force
  ultimately show ?case by (auto simp: gpushare_operator_def split: prod.split option.split)
qed simp

lemma amap_put_same: "amap_ok m \<Longrightarrow> map_of m c = Some p \<Longrightarrow> amap_put c p m = m"
proof (induction m)
  case (Cons q m)
  show ?case
  proof (cases "fst q = c")
    case True
    with Cons.prems(2) show ?thesis by (cases q) simp
  next
    case False
    then have p: "map_of m c = Some p" using Cons.prems(2) by (cases q) simp
    have m: "amap_ok m" "\<forall>q' \<in> set m. fst q < fst q'" using Cons.prems(1) unfolding amap_ok_Cons by simp_all
    then have "fst q < c" using map_of_SomeD [OF p] by force
    moreover have "amap_put c p m = m" using m(1) p by (rule Cons.IH)
    ultimately show ?thesis using False by (auto simp: less_imp_not_less)
  qed
qed simp

lemma with_device_same:
  assumes "store_ok db" "((pc_Namespace pc, pc_Name pc), pc_Container pc, d) \<in> recorded db"
  shows "pods_of db (pc_Namespace pc, pc_Name pc) = Some (with_device db pc d)"
proof -
  obtain i m where i: "pods_of db (pc_Namespace pc, pc_Name pc) = Some i" "ContainerDeviceMap i = Some m"
      "map_of m (pc_Container pc) = Some (Some d)"
    using assms(2) by (auto simp: recorded_def)
  have "amap_ok m" using pods_of_ok [OF assms(1) i(1)] i(2) by (auto simp: pod_ok_def devmap_ok_def)
  note same = amap_put_same [OF this i(3)]
  have rec: "record_of db pc = i" using i(1) by (simp add: record_of_def)
  show ?thesis by (simp add: with_device_def rec i same)
qed

lemma good_pods_cong:
  assumes "good ag" "host ag' = host ag" "Operator ag' = Operator ag" "usable (Storage ag')"
    and "pods_of (Storage ag') = pods_of (Storage ag)"
  shows "good ag'"
proof -
  have rec: "recorded (Storage ag') = recorded (Storage ag)" by (simp add: recorded_def assms(5))
  then have "links_needed (Storage ag') = links_needed (Storage ag)" by (simp add: links_needed_def)
  then show ?thesis using assms by (simp add: good_def balanced_def records_full_def rec)
qed

lemma recordable_same:
  assumes "recordable db pc d" "((pc_Namespace pc, pc_Name pc), pc_Container pc, d) \<in> recorded db"
  shows "pods_of (snd (record_device pc d db)) = pods_of db"
proof -
  have "store_ok db" using assms(1) by (simp add: recordable_def usable_def)
  with record_device_ok(2) [OF assms(1)] with_device_same [OF _ assms(2)] show ?thesis
    by (metis fun_upd_triv)
qed


section \<open>Calls that find the node in order\<close>

text \<open>How a handler reads the annotation.\<close>

definition parse_for :: "string \<Rightarrow> string \<Rightarrow> int list option" where
  "parse_for r val =
     (if r = ResourceGPUMemory then map_option (\<lambda>i. [i]) (atoi val)
      else parse_ids (split_on CHR '','' val) [])"

text \<open>
  What the devices \<open>d\<close> of a start mean for the records: they are new, no recorded device has their
  hash and the container has no record yet; or the container is started again with them.
\<close>

definition devices_new :: "boltdb \<Rightarrow> PodContainer \<Rightarrow> Device \<Rightarrow> bool" where
  "devices_new db pc d \<longleftrightarrow>
     (\<forall>k c e. (k, c, e) \<in> recorded db \<longrightarrow> Hash e \<noteq> Hash d)
     \<and> (\<forall>e. ((pc_Namespace pc, pc_Name pc), pc_Container pc, e) \<notin> recorded db)"

definition devices_again :: "boltdb \<Rightarrow> PodContainer \<Rightarrow> Device \<Rightarrow> bool" where
  "devices_again db pc d \<longleftrightarrow> ((pc_Namespace pc, pc_Name pc), pc_Container pc, d) \<in> recorded db"

text \<open>The record has the size bolt accepts.\<close>

definition fits :: "boltdb \<Rightarrow> PodContainer \<Rightarrow> Device \<Rightarrow> bool" where
  "fits db pc d \<longleftrightarrow>
     length (Key (with_device db pc d)) \<le> MaxKeySize \<and> length (Val (with_device db pc d)) \<le> MaxValueSize"

definition orderly_start :: "kubelet \<Rightarrow> string \<Rightarrow> string list \<Rightarrow> agent \<Rightarrow> bool" where
  "orderly_start kl r ids ag \<longleftrightarrow>
     (\<forall>pc val gs. fst (locate_assumed kl (NewDevice ids r) r ag) = Ok (pc, val) \<longrightarrow> parse_for r val = Some gs \<longrightarrow>
        length gs = link_count (NewDevice ids r) \<and> fits (Storage ag) pc (NewDevice ids r)
        \<and> (devices_new (Storage ag) pc (NewDevice ids r) \<or> devices_again (Storage ag) pc (NewDevice ids r)))"

lemma hash_no_dash [simp]: "CHR ''-'' \<notin> set (hash xs)"
  using hash_is_hex [of "CHR ''-''" xs] by auto

lemma recordable_fits:
  assumes "store_inv db" "usable db" "container_ok pc" "list_all utf8_valid ids"
    and "r \<in> {ResourceGPUCore, ResourceGPUMemory}" "fits db pc (NewDevice ids r)"
  shows "recordable db pc (NewDevice ids r)"
proof -
  let ?i = "record_of db pc"
  have i: "pod_ok ?i \<and> record_ok ?i"
  proof (cases "pods_of db (pc_Namespace pc, pc_Name pc)")
    case None
    with assms(3) show ?thesis by (simp add: record_of_def container_ok_def pod_ok_def devmap_ok_def)
  next
    case (Some i)
    moreover have "store_ok db" "records_ok db" using assms(1) by (simp_all add: store_inv_def)
    ultimately show ?thesis using pods_of_ok records_okD by (simp add: record_of_def)
  qed
  then have "pod_ok (with_device db pc (NewDevice ids r))"
    using devmap_ok_put [OF _ _ device_ok_NewDevice [OF assms(4,5)], of "ContainerDeviceMap ?i" "pc_Container pc"] assms(3)
    by (simp add: with_device_def pod_ok_def container_ok_def)
  with i assms(2,3,6) show ?thesis
    by (auto simp: recordable_def fits_def storable_def container_ok_def record_ok_def)
qed

lemma hash_new_free:
  assumes "records_full db" "\<forall>k c e. (k, c, e) \<in> recorded db \<longrightarrow> Hash e \<noteq> Hash d" "CHR ''-'' \<notin> set (Hash d)"
  shows "link_id (Hash d) k \<notin> links_needed db"
proof
  assume "link_id (Hash d) k \<in> links_needed db"
  then obtain k' c e j where e: "(k', c, e) \<in> recorded db" "link_id (Hash d) k = link_id (Hash e) j"
    unfolding links_needed_def by blast
  then have "Hash d = Hash e" using link_id_hash [OF assms(3)] recorded_dash [OF assms(1)] by blast
  with assms(2) e(1) show False by metis
qed

lemma devices_new_free:
  "records_full db \<Longrightarrow> devices_new db pc d \<Longrightarrow> CHR ''-'' \<notin> set (Hash d) \<Longrightarrow> link_id (Hash d) k \<notin> links_needed db"
  unfolding devices_new_def using hash_new_free by blast

lemma devices_new_unmapped:
  assumes "records_full db" "devices_new db pc d" "ContainerDeviceMap (record_of db pc) = Some m"
  shows "map_of m (pc_Container pc) = None"
proof (rule ccontr)
  assume "map_of m (pc_Container pc) \<noteq> None"
  then obtain p where p: "map_of m (pc_Container pc) = Some p" by blast
  then obtain i where i: "pods_of db (pc_Namespace pc, pc_Name pc) = Some i" "ContainerDeviceMap i = Some m"
    using assms(3) by (auto simp: record_of_def split: option.splits)
  then have "record_full i" using assms(1) unfolding records_full_def by blast
  then obtain e where "map_of m (pc_Container pc) = Some (Some e)"
    using recorded_full [OF _ i(2) map_of_SomeD [OF p]] by blast
  with i assms(2) show False unfolding devices_new_def recorded_def by blast
qed

lemma good_linked:
  assumes "good ag" "recordable (Storage ag) pc d" "CHR ''-'' \<notin> set (Hash d)" "length gs = link_count d"
    and "devices_new (Storage ag) pc d"
  shows "good (snd (link_and_record pc d gs ag))"
proof -
  let ?h = "Hash d"
  let ?fs = "snd (create_loop gpushare_operator ?h 0 gs (host ag))"
  let ?db = "snd (record_device pc d (Storage ag))"
  have good: "usable (Storage ag)" "records_full (Storage ag)" "balanced ag" "links_writable (host ag)" "fs_ok (host ag)"
      "Operator ag = gpushare_operator"
    using assms(1) by (simp_all add: good_def)
  have free: "\<forall>k < length gs. links_of (host ag) (link_id ?h k) = (None, None)"
    using devices_new_free [OF good(2) assms(5,3)] good(3) unfolding balanced_def by meson
  have db: "pods_of ?db = (pods_of (Storage ag))((pc_Namespace pc, pc_Name pc) \<mapsto> with_device (Storage ag) pc d)" "usable ?db"
    using record_device_ok [OF assms(2)] by simp_all
  obtain m where m: "ContainerDeviceMap (record_of (Storage ag) pc) = Some m"
    using assms(2) by (auto simp: recordable_def)
  note unmapped = devices_new_unmapped [OF good(2) assms(5) m]
  have rec: "recorded ?db = insert ((pc_Namespace pc, pc_Name pc), pc_Container pc, d) (recorded (Storage ag))"
    using recorded_put [OF db(1) m unmapped] .
  have full: "records_full ?db"
    using records_full_put [OF good(2) assms(2,3) m unmapped db(1)] assms(5) unfolding devices_new_def by blast
  have state: "snd (link_and_record pc d gs ag) = ag\<lparr>host := ?fs, Storage := ?db\<rparr>"
    using link_and_record_ok [OF good(6,4) free assms(2)] by simp
  have "if eid \<in> links_needed ?db then \<exists>g. links_of ?fs eid = links_to g else links_of ?fs eid = (None, None)" for eid
  proof (cases "\<exists>j < length gs. eid = link_id ?h j")
    case True
    then have "\<exists>g. links_of ?fs eid = links_to g"
      using gpushare.create_loop_made(3) [of "host ag" gs ?h 0] good(4) free by auto
    moreover have "eid \<in> links_needed ?db" using True links_needed_insert [OF rec] assms(4) by simp
    ultimately show ?thesis by simp
  next
    case False
    then have "links_of ?fs eid = links_of (host ag) eid"
      by (intro gpushare.create_loop_frame) simp
    moreover have "eid \<in> links_needed ?db \<longleftrightarrow> eid \<in> links_needed (Storage ag)"
      using False links_needed_insert [OF rec, of eid] assms(4) by auto
    ultimately show ?thesis using good(3) by (simp add: balanced_def)
  qed
  moreover have "links_writable ?fs" "fs_ok ?fs"
    using good(4,5) create_loop_fs(1) [of ?h 0 gs "host ag"] create_loop_fs(2) [of "host ag" ?h 0 gs]
    by (simp_all add: links_writable_def)
  ultimately show ?thesis
    using good(6) db(2) full by (simp add: good_def balanced_def state)
qed

lemma good_link_and_record:
  assumes "good ag" "recordable (Storage ag) pc d" "CHR ''-'' \<notin> set (Hash d)" "length gs = link_count d"
    and "devices_new (Storage ag) pc d \<or> devices_again (Storage ag) pc d"
  shows "good (snd (link_and_record pc d gs ag))"
proof -
  have g: "Operator ag = gpushare_operator" "links_writable (host ag)" "balanced ag" "records_full (Storage ag)"
    using assms(1) by (simp_all add: good_def)
  from assms(5) show ?thesis
  proof
    assume again: "devices_again (Storage ag) pc d"
    have "node_at (host ag) (sym_link (link_id (Hash d) k)) \<noteq> None" if "k < link_count d" for k
    proof -
      have "link_id (Hash d) k \<in> links_needed (Storage ag)"
        using again that unfolding devices_again_def by (rule links_neededI)
      then obtain g where "links_of (host ag) (link_id (Hash d) k) = links_to g"
        using g(3) unfolding balanced_def by metis
      then show ?thesis by (simp add: links_of_def links_to_def)
    qed
    then have host: "snd (create_loop gpushare_operator (Hash d) 0 gs (host ag)) = host ag"
      using assms(4) by (intro create_loop_present) simp
    have "snd (link_and_record pc d gs ag) = ag
      \<or> snd (link_and_record pc d gs ag) = ag\<lparr>Storage := snd (record_device pc d (Storage ag))\<rparr>"
      using host record_device_ok(1) [OF assms(2)] g(1)
      by (auto simp: link_and_record_def split: prod.split option.split res.split)
    then show ?thesis
    proof
      assume eq: "snd (link_and_record pc d gs ag) = ag\<lparr>Storage := snd (record_device pc d (Storage ag))\<rparr>"
      show ?thesis
        unfolding eq
      proof (rule good_pods_cong [OF assms(1)])
        show "pods_of (Storage (ag\<lparr>Storage := snd (record_device pc d (Storage ag))\<rparr>)) = pods_of (Storage ag)"
          using recordable_same [OF assms(2) again [unfolded devices_again_def]] by simp
      qed (use record_device_ok(3) [OF assms(2)] in simp_all)
    qed (use assms(1) in simp)
  next
    assume new: "devices_new (Storage ag) pc d"
    with assms(1-4) show ?thesis by (rule good_linked)
  qed
qed


section \<open>Collecting\<close>

lemma distinct_pairs:
  "distinct xs \<Longrightarrow> \<forall>x \<in> set xs. distinct (f x) \<Longrightarrow> distinct (concat (map (\<lambda>x. map (Pair x) (f x)) xs))"
  by (induction xs) (auto simp: distinct_map inj_on_def)

text \<open>The devices of the pods that are gone, each with the pod it belongs to.\<close>

definition gone_entries :: "agent \<Rightarrow> (PodInfo \<times> string \<times> Device option) list" where
  "gone_entries ag = concat (map (\<lambda>i. map (Pair i) (the (ContainerDeviceMap i))) (gone_pods ag))"

lemma gone_pods_full:
  assumes "store_ok (Storage ag)" "records_full (Storage ag)" "i \<in> set (gone_pods ag)"
  shows "record_full i" "pods_of (Storage ag) (Namespace i, Name i) = Some i"
  using assms gone_pods_view [OF assms(1), of i] unfolding records_full_def by blast+

lemma gone_entries_devices:
  assumes "store_ok (Storage ag)" "records_full (Storage ag)"
  shows "gone_devices ag = map (snd \<circ> snd) (gone_entries ag)"
proof -
  have "(case ContainerDeviceMap i of None \<Rightarrow> [] | Some m \<Rightarrow> map snd m) = map (snd \<circ> snd) (map (Pair i) (the (ContainerDeviceMap i)))"
    if "i \<in> set (gone_pods ag)" for i
    using gone_pods_full(1) [OF assms that] by (auto simp: record_full_def o_def)
  then show ?thesis
    unfolding gone_devices_def gone_entries_def map_concat by (simp cong: map_cong)
qed

lemma gone_entries_recorded:
  assumes "store_ok (Storage ag)" "records_full (Storage ag)" "(i, c, p) \<in> set (gone_entries ag)"
  obtains d where "p = Some d" "((Namespace i, Name i), c, d) \<in> recorded (Storage ag)" "i \<in> set (gone_pods ag)"
proof -
  have i: "i \<in> set (gone_pods ag)" using assms(3) by (auto simp: gone_entries_def)
  note full = gone_pods_full [OF assms(1,2) i]
  then obtain m where m: "ContainerDeviceMap i = Some m" by (auto simp: record_full_def)
  then have "(c, p) \<in> set m" using assms(3) by (auto simp: gone_entries_def)
  then obtain d where "p = Some d" "map_of m c = Some (Some d)" using recorded_full [OF full(1) m] by blast
  with that i full(2) m show ?thesis by (auto simp: recorded_def)
qed

lemma recorded_gone_entry:
  assumes "store_ok (Storage ag)" "(k, c, d) \<in> recorded (Storage ag)" "i \<in> set (gone_pods ag)" "k = (Namespace i, Name i)"
  shows "(i, c, Some d) \<in> set (gone_entries ag)"
proof -
  have "pods_of (Storage ag) k = Some i" using gone_pods_view [OF assms(1)] assms(3,4) by blast
  then obtain m where "ContainerDeviceMap i = Some m" "map_of m c = Some (Some d)"
    using assms(2) by (auto simp: recorded_def)
  with assms(3) show ?thesis by (force simp: gone_entries_def dest: map_of_SomeD)
qed

lemma gone_devices_distinct:
  assumes "store_ok (Storage ag)" "records_full (Storage ag)"
  shows "distinct (map (Hash \<circ> the) (gone_devices ag))"
proof -
  have "distinct (gone_pods ag)"
    using pod_list_distinct [OF assms(1)] by (auto simp: gone_pods_def distinct_map intro: distinct_filter)
  moreover have "distinct (the (ContainerDeviceMap i))" if "i \<in> set (gone_pods ag)" for i
    using gone_pods_full(1) [OF assms that] by (auto simp: record_full_def distinct_map)
  ultimately have "distinct (gone_entries ag)" unfolding gone_entries_def by (intro distinct_pairs) blast+
  moreover have "inj_on (Hash \<circ> the \<circ> (snd \<circ> snd)) (set (gone_entries ag))"
  proof (rule inj_onI)
    fix x y assume xy: "x \<in> set (gone_entries ag)" "y \<in> set (gone_entries ag)"
      "(Hash \<circ> the \<circ> (snd \<circ> snd)) x = (Hash \<circ> the \<circ> (snd \<circ> snd)) y"
    obtain i c p i' c' p' where split: "x = (i, c, p)" "y = (i', c', p')" by (cases x; cases y) force
    obtain d where d: "p = Some d" "((Namespace i, Name i), c, d) \<in> recorded (Storage ag)" "i \<in> set (gone_pods ag)"
      using gone_entries_recorded [OF assms] xy(1) split(1) by metis
    obtain d' where d': "p' = Some d'" "((Namespace i', Name i'), c', d') \<in> recorded (Storage ag)" "i' \<in> set (gone_pods ag)"
      using gone_entries_recorded [OF assms] xy(2) split(2) by metis
    have h: "Hash d = Hash d'" using xy(3) unfolding split d(1) d'(1) by simp
    have same: "(Namespace i, Name i) = (Namespace i', Name i')" "c = c'"
      using assms(2) d(2) d'(2) h unfolding records_full_def by (metis prod.inject)+
    have "Some i = Some i'"
      using gone_pods_full(2) [OF assms d(3)] gone_pods_full(2) [OF assms d'(3)] unfolding same(1) by metis
    moreover have "d = d'"
      using d(2) d'(2) unfolding same recorded_def mem_Collect_eq prod.case by (metis option.inject)
    ultimately show "x = y" unfolding split d(1) d'(1) same(2) by blast
  qed
  ultimately show ?thesis
    unfolding gone_entries_devices [OF assms] map_map o_assoc [symmetric] distinct_map
    by (simp only: o_assoc)
qed

lemma gone_devices_recorded:
  assumes "store_ok (Storage ag)" "records_full (Storage ag)" "x \<in> set (gone_devices ag)"
  obtains k c d where "x = Some d" "(k, c, d) \<in> recorded (Storage ag)"
proof -
  obtain y where y: "y \<in> set (gone_entries ag)" "x = snd (snd y)"
    using assms(3) unfolding gone_entries_devices [OF assms(1,2)] by auto
  obtain i c p where "y = (i, c, p)" by (cases y) force
  with y have e: "(i, c, p) \<in> set (gone_entries ag)" "x = p" by simp_all
  obtain d where "p = Some d" "((Namespace i, Name i), c, d) \<in> recorded (Storage ag)"
    using gone_entries_recorded [OF assms(1,2) e(1)] by blast
  with that e(2) show ?thesis by blast
qed

lemma gc_lines_usable: "usable (Storage ag) \<Longrightarrow> usable (Storage (snd (gc_lines ls ag)))"
proof (induction ls arbitrary: ag)
  case (Cons l ls)
  have "usable (snd (Storage_Delete (ln_namespace l) (ln_name l) (Storage ag)))"
    using Cons.prems by (rule usable_del)
  with Cons show ?case by (auto split: option.split prod.split res.split)
qed simp

lemma good_gone:
  assumes "good ag"
  shows "\<forall>i \<in> set (gone_pods ag). \<exists>m. ContainerDeviceMap i = Some m \<and> m \<noteq> []"
    and "\<forall>x \<in> set (gone_devices ag). \<exists>d. x = Some d \<and> CHR ''-'' \<notin> set (Hash d)
      \<and> (\<forall>i < link_count d. \<exists>g. links_of (host ag) (link_id (Hash d) i) = links_to g)"
    and "distinct (map (Hash \<circ> the) (gone_devices ag))"
proof -
  have good: "store_ok (Storage ag)" "records_full (Storage ag)" "balanced ag"
    using assms by (simp_all add: good_def usable_def)
  show "\<forall>i \<in> set (gone_pods ag). \<exists>m. ContainerDeviceMap i = Some m \<and> m \<noteq> []"
    using gone_pods_full(1) [OF good(1,2)] unfolding record_full_def by blast
  show "\<forall>x \<in> set (gone_devices ag). \<exists>d. x = Some d \<and> CHR ''-'' \<notin> set (Hash d)
      \<and> (\<forall>i < link_count d. \<exists>g. links_of (host ag) (link_id (Hash d) i) = links_to g)"
  proof
    fix x assume "x \<in> set (gone_devices ag)"
    then obtain k c d where d: "x = Some d" "(k, c, d) \<in> recorded (Storage ag)"
      using gone_devices_recorded [OF good(1,2)] by blast
    then have "\<exists>g. links_of (host ag) (link_id (Hash d) i) = links_to g" if "i < link_count d" for i
      using links_neededI [OF d(2) that] good(3) unfolding balanced_def by (metis (full_types))
    with d recorded_dash [OF good(2) d(2)] show "\<exists>d. x = Some d \<and> CHR ''-'' \<notin> set (Hash d)
      \<and> (\<forall>i < link_count d. \<exists>g. links_of (host ag) (link_id (Hash d) i) = links_to g)" by blast
  qed
  show "distinct (map (Hash \<circ> the) (gone_devices ag))" using good(1,2) by (rule gone_devices_distinct)
qed

lemma good_round_records:
  assumes "good ag" "map_order_ok ord" "gc_wakes ev"
  defines "ag' \<equiv> snd (gc_round ord ev ag)"
  shows "fst (gc_round ord ev ag) = Ok ()"
    and "Some d \<in> set (gone_devices ag) \<Longrightarrow> i < link_count d \<Longrightarrow> links_of (host ag') (link_id (Hash d) i) = (None, None)"
    and "pods_of (Storage ag') k =
         (if k \<in> (\<lambda>i. (Namespace i, Name i)) ` set (gone_pods ag) then None else pods_of (Storage ag) k)"
    and "gc_round ord ev' ag' = (Ok (), ag')"
  using gc_round_collects [OF _ _ _ assms(2,3) good_gone [OF assms(1)]] assms(1) unfolding ag'_def good_def by blast+

lemma good_round:
  assumes "good ag" "map_order_ok ord"
  shows "good (snd (gc_round ord ev ag))"
proof (cases "gc_wakes ev")
  case False
  with assms(1) show ?thesis by (simp add: gc_round_def)
next
  case True
  let ?ag = "snd (gc_round ord ev ag)"
  have good: "usable (Storage ag)" "records_full (Storage ag)" "balanced ag" "links_writable (host ag)"
      "Operator ag = gpushare_operator"
    using assms(1) by (simp_all add: good_def)
  have st: "store_ok (Storage ag)" "opened (Storage ag)" using good(1) by (simp_all add: usable_def)
  have round: "gc_round ord ev ag = gc_lines (gc_work ord ag) ag" using gc_round_lines [OF st True] .
  let ?gone = "(\<lambda>i. (Namespace i, Name i)) ` set (gone_pods ag)"
  have pods: "pods_of (Storage ?ag) k = (if k \<in> ?gone then None else pods_of (Storage ag) k)" for k
    using good_round_records(3) [OF assms True] .
  have rec: "(k, c, d) \<in> recorded (Storage ?ag) \<longleftrightarrow> (k, c, d) \<in> recorded (Storage ag) \<and> k \<notin> ?gone" for k c d
    by (simp add: recorded_def pods)
  have entry: "Some d \<in> set (gone_devices ag)" if r: "(k, c, d) \<in> recorded (Storage ag)" and g: "k \<in> ?gone" for k c d
  proof -
    obtain i where "i \<in> set (gone_pods ag)" "k = (Namespace i, Name i)" using g by blast
    then have "(i, c, Some d) \<in> set (gone_entries ag)" using recorded_gone_entry [OF st(1) r] by blast
    then show ?thesis unfolding gone_entries_devices [OF st(1) good(2)] by force
  qed
  have "balanced ?ag"
    unfolding balanced_def
  proof
    fix eid
    show "if eid \<in> links_needed (Storage ?ag) then \<exists>g. links_of (host ?ag) eid = links_to g
      else links_of (host ?ag) eid = (None, None)"
    proof (cases "\<exists>d i. Some d \<in> set (gone_devices ag) \<and> i < link_count d \<and> eid = link_id (Hash d) i")
      case True
      then obtain d i where d: "Some d \<in> set (gone_devices ag)" "i < link_count d" "eid = link_id (Hash d) i" by blast
      then have none: "links_of (host ?ag) eid = (None, None)" using good_round_records(2) [OF assms \<open>gc_wakes ev\<close>] by blast
      have "Some d \<in> (snd \<circ> snd) ` set (gone_entries ag)"
        using d(1) unfolding gone_entries_devices [OF st(1) good(2)] by simp
      then obtain j c where e: "(j, c, Some d) \<in> set (gone_entries ag)" by force
      obtain d' where d': "Some d = Some d'" "((Namespace j, Name j), c, d') \<in> recorded (Storage ag)" "j \<in> set (gone_pods ag)"
        by (rule gone_entries_recorded [OF st(1) good(2) e])
      then have k: "((Namespace j, Name j), c, d) \<in> recorded (Storage ag)" "(Namespace j, Name j) \<in> ?gone" by auto
      have "eid \<notin> links_needed (Storage ?ag)"
      proof
        assume "eid \<in> links_needed (Storage ?ag)"
        then obtain k' c' d' i' where "(k', c', d') \<in> recorded (Storage ag)" "k' \<notin> ?gone" "eid = link_id (Hash d') i'"
          unfolding links_needed_def rec by blast
        with link_id_recorded [OF good(2) k(1)] d(3) k(2) show False by metis
      qed
      with none show ?thesis by simp
    next
      case False
      then have "links_of (host ?ag) eid = links_of (host ag) eid"
        by (intro gc_round_other_links [OF st(1) good(5) assms(2)]) blast
      moreover have "eid \<in> links_needed (Storage ?ag) \<longleftrightarrow> eid \<in> links_needed (Storage ag)"
      proof
        assume "eid \<in> links_needed (Storage ag)"
        then obtain k c d j where r: "(k, c, d) \<in> recorded (Storage ag)" and j: "j < link_count d" "eid = link_id (Hash d) j"
          unfolding links_needed_def by blast
        have "k \<notin> ?gone"
        proof
          assume "k \<in> ?gone"
          from entry [OF r this] False j show False by blast
        qed
        with r have "(k, c, d) \<in> recorded (Storage ?ag)" unfolding rec by blast
        with j show "eid \<in> links_needed (Storage ?ag)" unfolding links_needed_def by blast
      next
        assume "eid \<in> links_needed (Storage ?ag)"
        then show "eid \<in> links_needed (Storage ag)" unfolding links_needed_def mem_Collect_eq rec by blast
      qed
      ultimately show ?thesis using good(3) by (simp add: balanced_def)
    qed
  qed
  moreover have "records_full (Storage ?ag)"
    unfolding records_full_def rec
  proof (intro conjI allI impI)
    fix k i assume "pods_of (Storage ?ag) k = Some i"
    then have "pods_of (Storage ag) k = Some i" unfolding pods by (simp split: if_splits)
    then show "record_full i" using good(2) unfolding records_full_def by blast
  next
    fix k c d k' c' d'
    assume "(k, c, d) \<in> recorded (Storage ag) \<and> k \<notin> ?gone" "(k', c', d') \<in> recorded (Storage ag) \<and> k' \<notin> ?gone"
      "Hash d = Hash d'"
    then show "(k, c) = (k', c')" using good(2) unfolding records_full_def by blast
  qed
  moreover have "usable (Storage ?ag)" unfolding round using good(1) by (rule gc_lines_usable)
  moreover have "links_writable (host ?ag)" "fs_ok (host ?ag)" "Operator ?ag = gpushare_operator"
    using gc_lines_host [OF good(5), of "gc_work ord ag"] assms(1) good(4)
      gc_lines_keeps [OF _ st(1), of "gc_work ord ag"] gc_work_plain [OF st(1)]
    by (auto simp: round links_writable_def good_def)
  ultimately show ?thesis by (simp add: good_def)
qed

section \<open>Orderly runs\<close>

text \<open>
  An orderly event: the disk accepts what is written, nobody else touches the links, and a start
  comes with new devices or is the repetition of one that is recorded.  Everything else is free:
  what the kubelet and the API server answer, the pods, the order of the Go maps, and when the
  agent is restarted.
\<close>

fun orderly :: "node_event \<Rightarrow> node_state \<Rightarrow> bool" where
  "orderly (EvPreStart r kl ids) s \<longleftrightarrow> orderly_start kl r ids (fst s)"
| "orderly (EvDisk f) s \<longleftrightarrow> f = None"
| "orderly (EvFiles fs) s \<longleftrightarrow> links_writable fs \<and> (\<forall>eid. links_of fs eid = links_of (host (fst s)) eid)"
| "orderly (EvRestart env fl) s \<longleftrightarrow> disk_fault (me_disk env (fl_dbfile fl)) = None"
| "orderly _ s \<longleftrightarrow> True"

definition clean_start :: "node_state \<Rightarrow> bool" where
  "clean_start s \<longleftrightarrow>
     first_start s \<and> commit_fault (Storage (fst s)) = None \<and> links_writable (host (fst s))
     \<and> (\<forall>eid. links_of (host (fst s)) eid = (None, None))"

inductive orderly_reach :: "node_state \<Rightarrow> bool" where
  orderly_first: "clean_start s \<Longrightarrow> orderly_reach s"
| orderly_next: "orderly_reach s \<Longrightarrow> event_ok ev s \<Longrightarrow> orderly ev s \<Longrightarrow> node_next ev s = Some (r, s') \<Longrightarrow> orderly_reach s'"

lemma orderly_node_reach: "orderly_reach s \<Longrightarrow> node_reach s"
proof (induction rule: orderly_reach.induct)
  case (orderly_next s ev r s')
  then show ?case unfolding node_reach_def by (metis node_stepI rtranclp.rtrancl_into_rtrancl)
qed (auto simp: clean_start_def node_reach_def)

lemma good_prestart:
  assumes "good ag" "agent_inv ag" "answer_ok (answer kl)" "list_all utf8_valid ids"
    and "bp_ResourceName c = r" "r \<in> {ResourceGPUCore, ResourceGPUMemory}" "orderly_start kl r ids ag"
    and "prestart_with (parse_for r) c kl ids ag = (x, ag')"
  shows "good ag'"
proof (cases "ids = []")
  case True
  with assms(1,8) show ?thesis by (simp add: prestart_with_def)
next
  case False
  let ?d = "NewDevice ids r"
  obtain y ag1 where y: "locate_assumed kl ?d r ag = (y, ag1)" by force
  have locs: "locators_ok (DeviceLocator ag)" using assms(2) by (simp add: agent_inv_def)
  note keeps = locate_assumed_keeps [OF locs assms(6,3) y] and frame = locate_assumed_frame [OF y]
  have good1: "good ag1" using good_pods_cong [OF assms(1), of ag1] frame assms(1) by (simp add: good_def)
  show ?thesis
  proof (cases "\<exists>pc val gs. y = Ok (pc, val) \<and> parse_for r val = Some gs")
    case True
    then obtain pc val gs where call: "y = Ok (pc, val)" "parse_for r val = Some gs" by blast
    have order: "length gs = link_count ?d" "fits (Storage ag1) pc ?d"
        "devices_new (Storage ag1) pc ?d \<or> devices_again (Storage ag1) pc ?d"
      using assms(7) y call frame(2) unfolding orderly_start_def by auto
    have "recordable (Storage ag1) pc ?d"
      using recordable_fits [of "Storage ag1" pc ids r] keeps(3) [OF call(1)] assms(2,4,6) frame(2) good1 order(2)
      by (simp add: agent_inv_def good_def)
    then have "good (snd (link_and_record pc ?d gs ag1))"
      using good_link_and_record [OF good1] order by simp
    with assms(5,8) False y call show ?thesis by (simp add: prestart_with_def)
  next
    case stop: False
    have "ag' = ag1"
      using assms(5,8) False y stop by (auto simp: prestart_with_def split: res.splits option.splits prod.splits)
    with good1 show ?thesis by simp
  qed
qed

lemma prestart_with_for:
  "(if r = ResourceGPUMemory then PreStartContainer_mem c kl ids ag else PreStartContainer_core c kl ids ag) =
   prestart_with (parse_for r) c kl ids ag"
  by (simp add: prestart_with_core prestart_with_mem parse_for_def [abs_def])

lemma good_restart:
  assumes "good ag" "NewStorage disk = Ok db" "image disk = buckets (Storage ag)" "disk_fault disk = None"
  shows "usable db \<and> pods_of db = pods_of (Storage ag)"
proof -
  have st: "store_ok (Storage ag)" using assms(1) by (simp add: good_def usable_def)
  then have b: "buckets db = buckets (Storage ag)" "opened db"
    using NewStorage_image(1,2) [OF assms(2)] assms(3) by (simp_all add: store_ok_def)
  have "commit_fault db = None"
    using assms(2,4) by (auto simp: NewStorage_def db_Update_def Let_def split: option.splits)
  moreover have "root_of db = root_of (Storage ag)" using b(1) by (simp add: root_of_def)
  moreover from this have "pods_of db = pods_of (Storage ag)" by (simp add: fun_eq_iff pods_of_def)
  ultimately show ?thesis using st b by (simp add: usable_def store_ok_def)
qed

lemma clean_start_good:
  assumes "clean_start s"
  shows "good (fst s)"
proof -
  have "node_inv s" using assms first_start_inv by (simp add: clean_start_def)
  then have inv: "Operator (fst s) = gpushare_operator" "fs_ok (host (fst s))" "store_inv (Storage (fst s))"
    by (simp_all add: node_inv_def agent_inv_def)
  obtain env fl m where main: "agent_main env fl = Ok (m, fst s, snd s)"
      and new: "map_of (image (me_disk env (fl_dbfile fl))) RootBucket = None"
    using assms unfolding clean_start_def first_start_def by blast
  then have "root_of (Storage (fst s)) = []"
    using NewStorage_image(3) [OF agent_main_parts(5) [OF main]] by (simp add: root_of_def)
  then have none: "pods_of (Storage (fst s)) k = None" for k by (simp add: pods_of_def split: prod.split)
  then have "recorded (Storage (fst s)) = {}" by (simp add: recorded_def)
  then show ?thesis
    using assms inv none by (simp add: good_def clean_start_def usable_def store_inv_def records_full_def balanced_def links_needed_def)
qed

lemma orderly_good: "orderly_reach s \<Longrightarrow> good (fst s)"
proof (induction rule: orderly_reach.induct)
  case (orderly_next s ev r s')
  obtain ag gp where s: "s = (ag, gp)" by force
  have inv: "agent_inv ag" "plugins_ok gp"
    using node_reach_inv [OF orderly_node_reach [OF orderly_next.hyps(1)]] s by (simp_all add: node_inv_def)
  have good: "good ag" using orderly_next.IH s by simp
  show ?case
  proof (cases ev)
    case (EvPreStart resName kl ids)
    then obtain srv bp ag' where bp: "map_of gp resName = Some (srv, bp)" "s' = (ag', gp)"
        "prestart_with (parse_for resName) bp kl ids ag = (r, ag')"
      using orderly_next.hyps(4) s unfolding prestart_with_for [symmetric] by (auto split: option.splits prod.splits)
    then have res: "bp_ResourceName bp = resName" "resName \<in> {ResourceGPUCore, ResourceGPUMemory}"
      using inv(2) map_of_SomeD [OF bp(1)] by (auto simp: plugins_ok_def)
    then show ?thesis
      using good_prestart [OF good inv(1) _ _ res _ bp(3)] orderly_next.hyps(2,3) EvPreStart s bp(2) by simp
  next
    case (EvCollect ord e)
    with orderly_next.hyps(2,4) s good_round [OF good, of ord e] show ?thesis by (auto split: prod.splits)
  next
    case (EvPods st)
    with orderly_next.hyps(4) s good_pods_cong [OF good, of "ag\<lparr>Sitter := st\<rparr>"] good show ?thesis
      by (auto simp: good_def)
  next
    case (EvDisk f)
    have "(Storage ag)\<lparr>commit_fault := None\<rparr> = Storage ag" using good by (simp add: good_def usable_def)
    with EvDisk orderly_next.hyps(3,4) s good show ?thesis by auto
  next
    case (EvFiles fs)
    with orderly_next.hyps(2,3,4) s good show ?thesis by (auto simp: good_def balanced_def)
  next
    case (EvRestart env fl)
    then obtain m ag' gp' where main: "agent_main env fl = Ok (m, ag', gp')" "s' = (ag', gp')"
      using orderly_next.hyps(4) s by (auto split: res.splits)
    note parts = agent_main_parts [OF main(1)]
    have img: "image (me_disk env (fl_dbfile fl)) = buckets (Storage ag)" "me_host env = host ag"
        "disk_fault (me_disk env (fl_dbfile fl)) = None"
      using orderly_next.hyps(2,3) EvRestart s by simp_all
    have "Operator ag' = Operator ag" using parts(3) good by (simp add: good_def)
    then show ?thesis
      using good_pods_cong [OF good, of ag'] good_restart [OF good parts(5) img(1,3)] parts(4) img(2) main(2) by simp
  qed
qed (rule clean_start_good)

text \<open>The node of the examples, with its container started.\<close>

lemma demo_orderly_before:
  obtains gp where "orderly_reach (demo_both, gp)" "plugins_ok gp"
proof -
  let ?before = "demo_both\<lparr>Sitter := NewSitter ''node-1'' (\<lambda>_. None) (\<lambda>_. None)\<rparr>"
  obtain m gp where main: "agent_main demo_start demo_flags = Ok (m, ?before, gp)"
    using demo_start_runs .
  have "clean_start (?before, gp)"
    unfolding clean_start_def first_start_def
  proof (intro exI conjI)
    show "agent_main demo_start demo_flags = Ok (m, fst (?before, gp), snd (?before, gp))" using main by simp
    show "fs_ok (me_host demo_start)" "map_of (image (me_disk demo_start (fl_dbfile demo_flags))) RootBucket = None"
      using demo_host_ok(2) by (simp_all add: demo_start_def demo_env_def)
    show "commit_fault (Storage (fst (?before, gp))) = None" by (simp add: demo_db_def)
    show "links_writable (host (fst (?before, gp)))" using demo_host_ok(1) by simp
    show "\<forall>eid. links_of (host (fst (?before, gp))) eid = (None, None)" by (simp add: demo_host_links)
  qed
  moreover have "node_next (EvPods demo_sitter) (?before, gp) = Some (Ok (), demo_both, gp)"
    by (simp add: demo_both_def demo_agent_def)
  ultimately have "orderly_reach (demo_both, gp)"
    using orderly_next [OF orderly_first, of _ "EvPods demo_sitter"] by simp
  with agent_main_parts(1) [OF main] that show ?thesis by blast
qed

lemma demo_orderly:
  obtains ag gp where "orderly_reach (ag, gp)" "Sitter ag = demo_sitter"
    and "((''default'', ''train-0''), ''main'', NewDevice demo_ids ResourceGPUCore) \<in> recorded (Storage ag)"
    and "ag = demo_both\<lparr>host := snd (create_loop gpushare_operator (hash (sort demo_ids)) 0 [0] demo_host),
      Storage := snd (record_device demo_container (NewDevice demo_ids ResourceGPUCore) demo_db)\<rparr>"
proof -
  let ?d = "NewDevice demo_ids ResourceGPUCore"
  obtain gp where gp: "orderly_reach (demo_both, gp)" "plugins_ok gp" using demo_orderly_before .
  note reach = gp(1)
  obtain srv c where c: "map_of gp ResourceGPUCore = Some (srv, c)" "bp_ResourceName c = ResourceGPUCore"
    using gp(2) by (cases gp) (auto simp: plugins_ok_def)
  have fresh: "fresh_start demo_kubelet (bp_ResourceName c) demo_ids [0] demo_container demo_both"
    using demo_both_fresh c(2) by simp
  have fits: "recordable (Storage demo_both) demo_container (NewDevice demo_ids (bp_ResourceName c))"
    using demo_recordable c(2) by (simp add: ResourceGPUCore_def)
  obtain r ag1 where ag1: "PreStartContainer_core c demo_kubelet demo_ids demo_both = (r, ag1)" by force
  have none: "pods_of demo_db k = None" for k
    by (simp add: demo_db_def pods_of_def root_of_def split: prod.split)
  then have empty: "recorded demo_db = {}" by (simp add: recorded_def)
  have "orderly_start demo_kubelet ResourceGPUCore demo_ids demo_both"
  proof -
    have "locate_assumed demo_kubelet ?d ResourceGPUCore demo_both = (Ok (demo_container, gpus_text [0]), demo_both)"
      using demo_both_fresh unfolding fresh_start_def by (intro locate_assumed_ok) simp_all
    moreover have "parse_for ResourceGPUCore (gpus_text [0]) = Some [0]"
      unfolding parse_for_def using parse_gpus_text [of "[0]"] by simp
    moreover have "link_count ?d = 1" by (simp add: link_count_def)
    moreover have "fits demo_db demo_container ?d"
      using fits c(2) by (simp add: recordable_def storable_def fits_def)
    ultimately show ?thesis by (simp add: orderly_start_def devices_new_def empty)
  qed
  moreover have "node_next (EvPreStart ResourceGPUCore demo_kubelet demo_ids) (demo_both, gp) = Some (r, ag1, gp)"
    using c(1) ag1 by simp
  moreover have "event_ok (EvPreStart ResourceGPUCore demo_kubelet demo_ids) (demo_both, gp)"
    by (simp add: demo_kubelet_def) code_simp
  moreover have "orderly (EvPreStart ResourceGPUCore demo_kubelet demo_ids) (demo_both, gp)"
    using calculation(1) by simp
  ultimately have reach1: "orderly_reach (ag1, gp)"
    using orderly_next [OF reach] by blast
  have st: "Storage ag1 = snd (record_device demo_container (NewDevice demo_ids (bp_ResourceName c)) demo_db)"
    "Sitter ag1 = demo_sitter"
    using ag1 PreStart_core_state [OF fresh fits] by auto
  show ?thesis
  proof (rule that [OF reach1 st(2)])
    show "ag1 = demo_both\<lparr>host := snd (create_loop gpushare_operator (hash (sort demo_ids)) 0 [0] demo_host),
        Storage := snd (record_device demo_container (NewDevice demo_ids ResourceGPUCore) demo_db)\<rparr>"
      using ag1 PreStart_core_state [OF fresh fits] c(2) by simp
    have "pods_of (Storage ag1) (''default'', ''train-0'') =
        Some (with_device demo_db demo_container (NewDevice demo_ids (bp_ResourceName c)))"
      using record_device_ok(2) [OF fits] st(1) by (simp add: demo_container_def)
    then show "((''default'', ''train-0''), ''main'', ?d) \<in> recorded (Storage ag1)"
      by (simp add: recorded_def demo_with_device c(2))
  qed
qed

section \<open>Properties\<close>

text \<open>
  C3: In every state of an orderly run, over starts, repeated starts, rounds of the collector and
  restarts of the agent, the links of the node are those the records ask for: for a card index of a
  recorded device both links are there, the one to a card and the one to the control device, and
  for no other name is there either of them.
\<close>

theorem links_match_records:
  assumes "orderly_reach (ag, gp)"
  shows "if eid \<in> links_needed (Storage ag) then \<exists>g. links_of (host ag) eid = links_to g
         else links_of (host ag) eid = (None, None)"
  using orderly_good [OF assms] by (simp add: good_def balanced_def)

theorem links_match_records_witness:
  "\<exists>ag gp g. orderly_reach (ag, gp)
     \<and> links_of (host ag) (link_id (Hash (NewDevice demo_ids ResourceGPUCore)) 0) = links_to g"
proof -
  obtain ag gp where ag: "orderly_reach (ag, gp)"
      "((''default'', ''train-0''), ''main'', NewDevice demo_ids ResourceGPUCore) \<in> recorded (Storage ag)"
    using demo_orderly by metis
  then have "link_id (Hash (NewDevice demo_ids ResourceGPUCore)) 0 \<in> links_needed (Storage ag)"
    using links_neededI link_count_pos by blast
  with links_match_records [OF ag(1)] ag(1) show ?thesis by (metis (full_types))
qed

text \<open>
  C4: In every state of an orderly run a round of the collector that is woken up succeeds and
  settles the accounts: the records of the pods that are gone are removed and no other, the links
  left are exactly those of the records left, and another round would find nothing to do.
\<close>

theorem gc_settles:
  assumes "orderly_reach (ag, gp)" and "map_order_ok ord" and "gc_wakes ev"
  defines "ag' \<equiv> snd (gc_round ord ev ag)"
  shows "fst (gc_round ord ev ag) = Ok ()
    \<and> recorded (Storage ag') =
        {(k, c, d). (k, c, d) \<in> recorded (Storage ag) \<and> k \<notin> (\<lambda>i. (Namespace i, Name i)) ` set (gone_pods ag)}
    \<and> (\<forall>eid. if eid \<in> links_needed (Storage ag') then \<exists>g. links_of (host ag') eid = links_to g
         else links_of (host ag') eid = (None, None))
    \<and> gc_round ord ev ag' = (Ok (), ag')"
proof -
  have good: "good ag" using orderly_good [OF assms(1)] by simp
  note C = good_round_records [OF good assms(2,3), folded ag'_def]
  have "balanced ag'" using good_round [OF good assms(2)] by (simp add: good_def ag'_def)
  moreover have "recorded (Storage ag') =
        {(k, c, d). (k, c, d) \<in> recorded (Storage ag) \<and> k \<notin> (\<lambda>i. (Namespace i, Name i)) ` set (gone_pods ag)}"
    by (auto simp: recorded_def C(3) split: if_splits)
  ultimately show ?thesis using C(1,4) unfolding balanced_def by blast
qed

theorem gc_settles_witness:
  "\<exists>ag gp. orderly_reach (ag, gp) \<and> recorded (Storage ag) \<noteq> {}
     \<and> (\<forall>eid. links_of (host (snd (gc_round (\<lambda>i m. m) GcMinute ag))) eid = (None, None))"
proof -
  obtain ag gp where ag: "orderly_reach (ag, gp)"
      "((''default'', ''train-0''), ''main'', NewDevice demo_ids ResourceGPUCore) \<in> recorded (Storage ag)"
    using demo_orderly by metis
  let ?away = "NewSitter ''node-1'' (\<lambda>_. None) (\<lambda>_. None)"
  let ?ag = "ag\<lparr>Sitter := ?away\<rparr>"
  have reach: "orderly_reach (?ag, gp)"
    using orderly_next [OF ag(1), of "EvPods ?away"] by simp
  have st: "store_ok (Storage ?ag)" using orderly_good [OF ag(1)] by (simp add: good_def usable_def)
  have gone: "k \<in> (\<lambda>i. (Namespace i, Name i)) ` set (gone_pods ?ag)"
    if r: "(k, c, d) \<in> recorded (Storage ?ag)" for k c d
  proof -
    obtain i where i: "pods_of (Storage ?ag) k = Some i"
      using r unfolding recorded_def by blast
    then have "k = (Namespace i, Name i)" using pods_of_named by (cases k) auto
    moreover have "pod_gone ?away i"
      by (simp add: pod_gone_def NewSitter_def GetPod_def GetPodFromApiServer_def)
    then have "i \<in> set (gone_pods ?ag)"
      using gone_pods_view [OF st] i calculation by simp
    ultimately show ?thesis by blast
  qed
  have settled: "recorded (Storage (snd (gc_round (\<lambda>i m. m) GcMinute ?ag))) = {}"
      "\<forall>eid. if eid \<in> links_needed (Storage (snd (gc_round (\<lambda>i m. m) GcMinute ?ag)))
         then \<exists>g. links_of (host (snd (gc_round (\<lambda>i m. m) GcMinute ?ag))) eid = links_to g
         else links_of (host (snd (gc_round (\<lambda>i m. m) GcMinute ?ag))) eid = (None, None)"
    using gc_settles [OF reach, of "\<lambda>i m. m" GcMinute] gone by (auto simp: map_order_ok_def gc_wakes_def)
  then have "\<forall>eid. links_of (host (snd (gc_round (\<lambda>i m. m) GcMinute ?ag))) eid = (None, None)"
    by (simp add: links_needed_def)
  moreover have "recorded (Storage ?ag) \<noteq> {}" using ag(2) by auto
  ultimately show ?thesis using reach by blast
qed

end
