(* ===== verification/Leaks.thy ===== *)
theory Leaks
  imports Accounts
begin

text \<open>
  Links nobody asks for.  A link is leaked when it is on the node and no recorded device needs it;
  whatever the agent does later, it is never removed, as the collector only goes by the records.
  Three ways a leak comes about: a record is overwritten with other devices, the collector deletes a
  record that was written after it had looked, and the agent dies between the links and the record.
\<close>

section \<open>What the operations do to the records\<close>

definition leaked :: "agent \<Rightarrow> string \<Rightarrow> bool" where
  "leaked ag eid \<longleftrightarrow> links_of (host ag) eid \<noteq> (None, None) \<and> eid \<notin> links_needed (Storage ag)"

lemma links_needed_mono: "recorded db' \<subseteq> recorded db \<Longrightarrow> links_needed db' \<subseteq> links_needed db"
  unfolding links_needed_def by blast

lemma leakedI:
  "links_of (host ag) eid \<noteq> (None, None) \<Longrightarrow> (\<And>k c d j. (k, c, d) \<in> recorded (Storage ag) \<Longrightarrow> eid \<noteq> link_id (Hash d) j) \<Longrightarrow>
   leaked ag eid"
  unfolding leaked_def links_needed_def by blast

lemma gc_lines_pods:
  "\<forall>l \<in> set ls. plain_elem (ln_namespace l) \<and> plain_elem (ln_name l) \<Longrightarrow> store_ok (Storage ag) \<Longrightarrow>
   pods_of (Storage (snd (gc_lines ls ag))) k \<in> {None, pods_of (Storage ag) k}"
proof (induction ls arbitrary: ag)
  case (Cons l ls)
  let ?db = "snd (Storage_Delete (ln_namespace l) (ln_name l) (Storage ag))"
  have d: "store_ok ?db" "pods_of ?db k \<in> {None, pods_of (Storage ag) k}"
  proof -
    show "store_ok ?db" using Storage_Delete_frame(1) Cons.prems by simp
    have "?db = Storage ag \<or> ?db = (Storage ag)
        \<lparr>buckets := amap_put RootBucket (amap_del (ln_namespace l @ ''/'' @ ln_name l) (root_of (Storage ag))) (buckets (Storage ag))\<rparr>"
      using Cons.prems(2)
      by (auto simp: Storage_Delete_def db_Update_def store_ok_def with_bucket_root [of "Storage ag"] bucket_Delete_def
          split: res.split option.split)
    then show "pods_of ?db k \<in> {None, pods_of (Storage ag) k}"
      using pods_of_del [of "ln_namespace l" "ln_name l" "Storage ag" "buckets (Storage ag)"] Cons.prems(1) by auto
  qed
  have later: "pods_of (Storage (snd (gc_lines ls ag'))) k \<in> {None, pods_of (Storage ag) k}"
    if "store_ok (Storage ag')" "pods_of (Storage ag') k \<in> {None, pods_of (Storage ag) k}" for ag'
    using Cons.IH [of ag'] Cons.prems(1) that by auto
  obtain r db where db: "Storage_Delete (ln_namespace l) (ln_name l) (Storage ag) = (r, db)" by force
  have dele: "pods_of (Storage (snd (gc_lines ls (ag\<lparr>host := fs, Storage := db\<rparr>)))) k \<in> {None, pods_of (Storage ag) k}" for fs
    using later [of "ag\<lparr>host := fs, Storage := db\<rparr>"] d db by simp
  have same: "pods_of (Storage (snd (gc_lines ls (ag\<lparr>host := fs\<rparr>)))) k \<in> {None, pods_of (Storage ag) k}" for fs
    using later [of "ag\<lparr>host := fs\<rparr>"] Cons.prems(2) by simp
  show ?case
    using dele same d(2) db by (auto split: option.split prod.split res.split)
qed simp

lemma gc_round_recorded:
  assumes "store_ok (Storage ag)"
  shows "recorded (Storage (snd (gc_round ord ev ag))) \<subseteq> recorded (Storage ag)"
proof (cases "gc_wakes ev \<and> opened (Storage ag)")
  case True
  then have "gc_round ord ev ag = gc_lines (gc_work ord ag) ag" using gc_round_lines assms by blast
  moreover have "pods_of (Storage (snd (gc_lines (gc_work ord ag) ag))) k \<in> {None, pods_of (Storage ag) k}" for k
    using gc_work_plain [OF assms] by (intro gc_lines_pods assms) blast
  ultimately show ?thesis unfolding recorded_def by (auto split: if_splits) (metis option.distinct(1))
next
  case False
  then show ?thesis by (auto simp: gc_round_def ForEach_def)
qed

lemma record_device_recorded:
  assumes "store_inv db" "container_ok pc" "ids \<noteq> []" "list_all utf8_valid ids" "r \<in> {ResourceGPUCore, ResourceGPUMemory}"
  defines "d \<equiv> NewDevice ids r"
  shows "recorded (snd (record_device pc d db)) \<subseteq> insert ((pc_Namespace pc, pc_Name pc), pc_Container pc, d) (recorded db)"
proof -
  let ?i = "record_of db pc" and ?key = "(pc_Namespace pc, pc_Name pc)"
  have st: "store_ok db" "opened db" "records_ok db" using assms(1) by (simp_all add: store_inv_def)
  have pc: "plain_elem (pc_Namespace pc)" "plain_elem (pc_Name pc)" "utf8_valid (pc_Container pc)"
    using assms(2) by (simp_all add: container_ok_def)
  have load: "LoadOrCreate (pc_Namespace pc) (pc_Name pc) db = Ok ?i"
    using st(1,2) pc(1,2) by (simp add: LoadOrCreate_def Load_read record_of_def split: option.split)
  have i: "pod_ok ?i" "record_ok ?i"
    using LoadOrCreate_read [OF assms(1) pc(1,2)] load by auto
  then obtain m where m: "ContainerDeviceMap ?i = Some m" by (auto simp: record_ok_def)
  have rec: "record_device pc d db = Save (with_device db pc d) db"
    by (simp add: record_device_def load m with_device_def)
  have ok: "pod_ok (with_device db pc d)"
    using i(1) devmap_ok_put [OF _ pc(3) device_ok_NewDevice [OF assms(4,5)], of "ContainerDeviceMap ?i"]
    by (simp add: with_device_def pod_ok_def d_def)
  have names: "Namespace (with_device db pc d) = pc_Namespace pc" "Name (with_device db pc d) = pc_Name pc"
    by (simp_all add: with_device_def record_of_names)
  from Save_states(1) [OF st(1), of "with_device db pc d"] show ?thesis
  proof
    assume "snd (Save (with_device db pc d) db) = db"
    then show ?thesis by (auto simp: rec)
  next
    let ?db = "db\<lparr>buckets := amap_put RootBucket (amap_put (Key (with_device db pc d)) (Val (with_device db pc d)) (root_of db)) (buckets db)\<rparr>"
    assume eq: "snd (Save (with_device db pc d) db) = ?db"
    have pods: "pods_of ?db = (pods_of db)(?key \<mapsto> with_device db pc d)"
      using pods_of_put [OF ok] names by simp
    have w: "ContainerDeviceMap (with_device db pc d) = Some (amap_put (pc_Container pc) (Some d) m)"
      using m by (simp add: with_device_def)
    have old: "map_of m c = Some (Some e) \<Longrightarrow> (?key, c, e) \<in> recorded db" for c e
      using m by (auto simp: recorded_def record_of_def split: option.splits)
    show ?thesis
      unfolding rec eq
    proof
      fix q assume q: "q \<in> recorded ?db"
      obtain k c e where split: "q = (k, c, e)" by (cases q)
      then obtain j m' where j: "pods_of ?db k = Some j" "ContainerDeviceMap j = Some m'" "map_of m' c = Some (Some e)"
        using q by (auto simp: recorded_def)
      show "q \<in> insert (?key, pc_Container pc, d) (recorded db)"
      proof (cases "k = ?key")
        case True
        then have "map_of (amap_put (pc_Container pc) (Some d) m) c = Some (Some e)" using j w unfolding pods by simp
        then show ?thesis using old [of c e] True split by (auto split: if_splits)
      next
        case False
        then show ?thesis using j split unfolding pods by (auto simp: recorded_def)
      qed
    qed
  qed
qed

section \<open>A leaked link stays\<close>

text \<open>The events that leave the link of a name alone: no start comes with devices of its hash, and
  nobody else changes the files.\<close>

fun spares :: "string \<Rightarrow> node_event \<Rightarrow> bool" where
  "spares eid (EvPreStart r kl ids) \<longleftrightarrow> (\<forall>k. eid \<noteq> link_id (hash (sort ids)) k)"
| "spares eid (EvFiles fs) \<longleftrightarrow> False"
| "spares eid _ \<longleftrightarrow> True"

inductive spared_step :: "string \<Rightarrow> node_state \<Rightarrow> node_state \<Rightarrow> bool" for eid where
  spared_stepI: "event_ok ev s \<Longrightarrow> spares eid ev \<Longrightarrow> node_next ev s = Some (r, s') \<Longrightarrow> spared_step eid s s'"

inductive_cases spared_stepE: "spared_step eid s s'"

lemma prestart_spares:
  assumes "agent_inv ag" "bp_ResourceName c \<in> {ResourceGPUCore, ResourceGPUMemory}" "answer_ok (answer kl)"
    and "list_all utf8_valid ids" "prestart_with parse c kl ids ag = (x, ag')" "\<forall>k. eid \<noteq> link_id (hash (sort ids)) k"
  shows "links_of (host ag') eid = links_of (host ag) eid"
    and "eid \<in> links_needed (Storage ag') \<Longrightarrow> eid \<in> links_needed (Storage ag)"
proof -
  let ?d = "NewDevice ids (bp_ResourceName c)"
  have "links_of (host ag') eid = links_of (host ag) eid
    \<and> (eid \<in> links_needed (Storage ag') \<longrightarrow> eid \<in> links_needed (Storage ag))"
  proof (cases "ids = []")
    case True
    with assms(5) show ?thesis by (simp add: prestart_with_def)
  next
    case False
    obtain y ag1 where y: "locate_assumed kl ?d (bp_ResourceName c) ag = (y, ag1)" by force
    have locs: "locators_ok (DeviceLocator ag)" using assms(1) by (simp add: agent_inv_def)
    note keeps = locate_assumed_keeps [OF locs assms(2,3) y] and frame = locate_assumed_frame [OF y]
    have oper: "Operator ag1 = gpushare_operator" and st: "store_inv (Storage ag1)"
      using assms(1) frame by (simp_all add: agent_inv_def)
    show ?thesis
    proof (cases "\<exists>pc val gs. y = Ok (pc, val) \<and> parse val = Some gs")
      case True
      then obtain pc val gs where call: "y = Ok (pc, val)" "parse val = Some gs" by blast
      have ag': "ag' = snd (link_and_record pc ?d gs ag1)"
        using assms(5) False y call by (simp add: prestart_with_def)
      have "links_of (host ag') eid = links_of (host ag1) eid"
        using link_and_record_frame [OF oper, of "sym_link eid" ?d pc gs] link_and_record_frame [OF oper, of "ctl_link eid" ?d pc gs]
          assms(6) by (simp add: ag' links_of_def)
      moreover have "Storage ag' = Storage ag1 \<or> Storage ag' = snd (record_device pc ?d (Storage ag1))"
        unfolding ag' link_and_record_def by (auto split: prod.split option.split res.split)
      then have "recorded (Storage ag') \<subseteq> insert ((pc_Namespace pc, pc_Name pc), pc_Container pc, ?d) (recorded (Storage ag1))"
        using record_device_recorded [OF st keeps(3) [OF call(1)] False assms(4,2)] by auto
      then have "eid \<in> links_needed (Storage ag') \<Longrightarrow> eid \<in> links_needed (Storage ag1)"
        using assms(6) unfolding links_needed_def by fastforce
      ultimately show ?thesis using frame by simp
    next
      case stop: False
      have "ag' = ag1"
        using assms(5) False y stop by (auto simp: prestart_with_def split: res.splits option.splits prod.splits)
      with frame show ?thesis by simp
    qed
  qed
  then show "links_of (host ag') eid = links_of (host ag) eid"
    "eid \<in> links_needed (Storage ag') \<Longrightarrow> eid \<in> links_needed (Storage ag)" by auto
qed

lemma links_needed_cong: "pods_of db' = pods_of db \<Longrightarrow> links_needed db' = links_needed db"
  by (simp add: links_needed_def recorded_def)

lemma pods_of_buckets: "buckets db' = buckets db \<Longrightarrow> pods_of db' = pods_of db"
  by (simp add: fun_eq_iff pods_of_def root_of_def)

lemma leaked_step:
  assumes "node_inv s" "leaked (fst s) eid" "event_ok ev s" "spares eid ev" "node_next ev s = Some (r, s')"
  shows "leaked (fst s') eid \<and> links_of (host (fst s')) eid = links_of (host (fst s)) eid"
proof -
  obtain ag gp where s: "s = (ag, gp)" by force
  have inv: "agent_inv ag" "plugins_ok gp" using assms(1) s by (simp_all add: node_inv_def)
  then have st: "store_ok (Storage ag)" "Operator ag = gpushare_operator" by (simp_all add: agent_inv_def store_inv_def)
  have leak: "links_of (host ag) eid \<noteq> (None, None)" "eid \<notin> links_needed (Storage ag)"
    using assms(2) s by (simp_all add: leaked_def)
  show ?thesis
  proof (cases ev)
    case (EvPreStart resName kl ids)
    then obtain srv bp ag' where bp: "map_of gp resName = Some (srv, bp)" "s' = (ag', gp)"
        "prestart_with (parse_for resName) bp kl ids ag = (r, ag')"
      using assms(5) s unfolding prestart_with_for [symmetric] by (auto split: option.splits prod.splits)
    then have res: "bp_ResourceName bp \<in> {ResourceGPUCore, ResourceGPUMemory}"
      using inv(2) map_of_SomeD [OF bp(1)] by (auto simp: plugins_ok_def)
    have ok: "answer_ok (answer kl)" "list_all utf8_valid ids" "\<forall>k. eid \<noteq> link_id (hash (sort ids)) k"
      using assms(3,4) EvPreStart s by simp_all
    show ?thesis
      using prestart_spares [OF inv(1) res ok(1,2) bp(3) ok(3)] leak bp(2) s by (auto simp: leaked_def)
  next
    case (EvCollect ord e)
    then obtain ag' where ag': "gc_round ord e ag = (r, ag')" "s' = (ag', gp)"
      using assms(5) s by (auto split: prod.splits)
    have "\<forall>d i. Some d \<in> set (gone_devices ag) \<longrightarrow> i < link_count d \<longrightarrow> eid \<noteq> link_id (Hash d) i"
    proof (intro allI impI notI)
      fix d i assume d: "Some d \<in> set (gone_devices ag)" "i < link_count d" "eid = link_id (Hash d) i"
      then obtain pi m where pi: "pi \<in> set (gone_pods ag)" "ContainerDeviceMap pi = Some m" "Some d \<in> set (map snd m)"
        unfolding gone_devices_def by (auto split: option.splits) (metis image_eqI snd_conv)
      have pod: "pods_of (Storage ag) (Namespace pi, Name pi) = Some pi" using gone_pods_view [OF st(1)] pi(1) by blast
      obtain c where c: "(c, Some d) \<in> set m" using pi(3) by auto
      have "distinct (map fst m)"
        using pods_of_ok [OF st(1) pod] pi(2) amap_ok_distinct by (auto simp: pod_ok_def devmap_ok_def)
      then have "((Namespace pi, Name pi), c, d) \<in> recorded (Storage ag)"
        using pod pi(2) c by (auto simp: recorded_def)
      with d leak(2) links_neededI show False by blast
    qed
    then have "links_of (host ag') eid = links_of (host ag) eid"
      using gc_round_other_links [OF st, of ord eid e] assms(3) EvCollect ag'(1) s by simp
    moreover have "eid \<notin> links_needed (Storage ag')"
      using links_needed_mono [OF gc_round_recorded [OF st(1), of ord e]] leak(2) ag'(1) by auto
    ultimately show ?thesis using leak(1) ag'(2) s by (simp add: leaked_def)
  next
    case (EvDisk f)
    have "links_needed ((Storage ag)\<lparr>commit_fault := f\<rparr>) = links_needed (Storage ag)"
      by (intro links_needed_cong pods_of_buckets) simp
    with EvDisk assms(5) s leak show ?thesis by (auto simp: leaked_def)
  next
    case (EvRestart env fl)
    then obtain m ag' gp' where main: "agent_main env fl = Ok (m, ag', gp')" "s' = (ag', gp')"
      using assms(5) s by (auto split: res.splits)
    note parts = agent_main_parts [OF main(1)]
    have img: "image (me_disk env (fl_dbfile fl)) = buckets (Storage ag)" "me_host env = host ag"
      using assms(3) EvRestart s by simp_all
    have "buckets (Storage ag') = buckets (Storage ag)"
      using NewStorage_image(2) [OF parts(5)] img(1) st(1) by (simp add: store_ok_def)
    then have "links_needed (Storage ag') = links_needed (Storage ag)" by (intro links_needed_cong pods_of_buckets)
    with main(2) parts(4) img(2) s leak show ?thesis by (simp add: leaked_def)
  qed (use assms leak s in \<open>auto simp: leaked_def\<close>)
qed

lemma leaked_steps:
  assumes "(spared_step eid)\<^sup>*\<^sup>* s s'" "node_inv s" "leaked (fst s) eid"
  shows "leaked (fst s') eid \<and> links_of (host (fst s')) eid = links_of (host (fst s)) eid \<and> node_inv s'"
  using assms
proof (induction rule: rtranclp_induct)
  case (step s1 s2)
  from step.hyps(2) obtain ev r where ev: "event_ok ev s1" "spares eid ev" "node_next ev s1 = Some (r, s2)"
    by (elim spared_stepE)
  with step leaked_step [OF _ _ ev] node_next_inv [OF _ ev(1,3)] show ?case by auto
qed simp

section \<open>Overwritten records\<close>

text \<open>The record of a container names one device; recording another one forgets the first.\<close>

lemma recorded_overwrite:
  assumes "pods_of db' = (pods_of db)((pc_Namespace pc, pc_Name pc) \<mapsto> with_device db pc e)"
    and "ContainerDeviceMap (record_of db pc) = Some m" "(k, c, d) \<in> recorded db'"
  shows "(k, c, d) = ((pc_Namespace pc, pc_Name pc), pc_Container pc, e)
    \<or> (k, c, d) \<in> recorded db \<and> (k, c) \<noteq> ((pc_Namespace pc, pc_Name pc), pc_Container pc)"
proof -
  let ?key = "(pc_Namespace pc, pc_Name pc)"
  obtain i m' where i: "pods_of db' k = Some i" "ContainerDeviceMap i = Some m'" "map_of m' c = Some (Some d)"
    using assms(3) by (auto simp: recorded_def)
  show ?thesis
  proof (cases "k = ?key")
    case True
    have w: "ContainerDeviceMap (with_device db pc e) = Some (amap_put (pc_Container pc) (Some e) m)"
      using assms(2) by (simp add: with_device_def)
    have "i = with_device db pc e" using True i(1) assms(1) by simp
    then have "map_of (amap_put (pc_Container pc) (Some e) m) c = Some (Some d)" using i(2,3) w by simp
    moreover have "map_of m c = Some (Some d) \<Longrightarrow> (?key, c, d) \<in> recorded db"
      using assms(2) by (auto simp: recorded_def record_of_def split: option.splits)
    ultimately show ?thesis using True by (auto split: if_splits)
  next
    case False
    then show ?thesis using i assms(1) by (auto simp: recorded_def)
  qed
qed

lemma overwrite_leaks:
  assumes "good ag" "((pc_Namespace pc, pc_Name pc), pc_Container pc, d) \<in> recorded (Storage ag)" "j < link_count d"
    and "recordable (Storage ag) pc e" "CHR ''-'' \<notin> set (Hash e)" "Hash e \<noteq> Hash d"
    and "Storage ag' = snd (record_device pc e (Storage ag))"
    and "links_of (host ag') (link_id (Hash d) j) = links_of (host ag) (link_id (Hash d) j)"
  shows "leaked ag' (link_id (Hash d) j)"
proof (rule leakedI)
  have g: "records_full (Storage ag)" "balanced ag" using assms(1) by (simp_all add: good_def)
  have "link_id (Hash d) j \<in> links_needed (Storage ag)" using assms(2,3) by (rule links_neededI)
  then obtain g where "links_of (host ag) (link_id (Hash d) j) = links_to g"
    using g(2) unfolding balanced_def by metis
  then show "links_of (host ag') (link_id (Hash d) j) \<noteq> (None, None)" using assms(8) by simp
  fix k c d' i assume r: "(k, c, d') \<in> recorded (Storage ag')"
  obtain m where m: "ContainerDeviceMap (record_of (Storage ag) pc) = Some m"
    using assms(4) by (auto simp: recordable_def)
  have dash: "CHR ''-'' \<notin> set (Hash d)" using recorded_dash [OF g(1) assms(2)] .
  from recorded_overwrite [OF record_device_ok(2) [OF assms(4)] m r [unfolded assms(7)]]
  show "link_id (Hash d) j \<noteq> link_id (Hash d') i"
  proof
    assume "(k, c, d') = ((pc_Namespace pc, pc_Name pc), pc_Container pc, e)"
    then show ?thesis using assms(5,6) dash by (simp add: link_id_hash)
  next
    assume "(k, c, d') \<in> recorded (Storage ag) \<and> (k, c) \<noteq> ((pc_Namespace pc, pc_Name pc), pc_Container pc)"
    then show ?thesis using link_id_recorded [OF g(1) assms(2), of k c d' j i] by metis
  qed
qed

lemma link_and_record_done:
  assumes "Operator ag = gpushare_operator" "recordable (Storage ag) pc d" "link_and_record pc d gs ag = (Ok (), ag')"
  shows "Storage ag' = snd (record_device pc d (Storage ag))"
  using assms(3) record_device_ok(1) [OF assms(2)]
  by (auto simp: link_and_record_def split: prod.splits option.splits res.splits)

section \<open>A collector that is overtaken\<close>

text \<open>
  The two halves of a round: looking at the pods and the records, and removing what was found.
  Nothing keeps the plugins from working in between, as the collector takes none of their locks.
\<close>

definition gc_look :: "map_order \<Rightarrow> agent \<Rightarrow> line list" where
  "gc_look ord ag = snd (ForEach (collect_pod ord (Sitter ag)) (Storage ag) [])"

definition gc_overtaken :: "map_order \<Rightarrow> agent \<Rightarrow> agent \<Rightarrow> unit res \<times> agent" where
  "gc_overtaken ord seen ag = gc_lines (gc_look ord seen) ag"

text \<open>A round that is not overtaken is one.\<close>

lemma gc_look_round:
  assumes "store_ok (Storage ag)" "opened (Storage ag)" "gc_wakes ev"
  shows "gc_round ord ev ag = gc_overtaken ord ag ag"
  using assms by (simp add: gc_round_lines gc_overtaken_def gc_look_def ForEach_visit visit_collect gc_work_def gone_pods_def)

lemma gc_look_work: "store_ok (Storage ag) \<Longrightarrow> opened (Storage ag) \<Longrightarrow> gc_look ord ag = gc_work ord ag"
  by (simp add: gc_look_def ForEach_visit visit_collect gc_work_def gone_pods_def)

text \<open>
  What the collector has seen is removed, whatever has been done since; of a device \<open>d\<close> that was
  recorded meanwhile for a pod it found gone, only the record is removed.
\<close>

lemma overtaken_leaks:
  assumes "good seen" "map_order_ok ord" "usable (Storage ag)" "Operator ag = gpushare_operator" "links_writable (host ag)"
    and seen: "\<forall>eid \<in> links_needed (Storage seen). links_of (host ag) eid = links_of (host seen) eid"
    and "i \<in> set (gone_pods seen)" "links_of (host ag) (link_id (Hash d) j) \<noteq> (None, None)" "CHR ''-'' \<notin> set (Hash d)"
    and new: "\<forall>k c e. (k, c, e) \<in> recorded (Storage seen) \<longrightarrow> Hash e \<noteq> Hash d"
    and now: "\<forall>k c e. (k, c, e) \<in> recorded (Storage ag) \<longrightarrow> CHR ''-'' \<notin> set (Hash e) \<and> (Hash e = Hash d \<longrightarrow> k = (Namespace i, Name i))"
    and run: "gc_overtaken ord seen ag = (x, ag')"
  shows "x = Ok ()" "pods_of (Storage ag') (Namespace i, Name i) = None" "leaked ag' (link_id (Hash d) j)"
    and "links_of (host ag') (link_id (Hash d) j) = links_of (host ag) (link_id (Hash d) j)"
proof -
  have s: "store_ok (Storage seen)" "opened (Storage seen)" "records_full (Storage seen)" "balanced seen"
    using assms(1) by (simp_all add: good_def usable_def)
  let ?ls = "gc_work ord seen"
  have run: "(x, ag') = gc_lines ?ls ag" using run gc_look_work [OF s(1,2)] by (simp add: gc_overtaken_def)
  have ms: "mset (map ln_device ?ls) = mset (gone_devices seen)" using gc_work_devices [OF assms(2)] .
  then have devs: "set (gone_devices seen) = ln_device ` set ?ls" by (metis set_map set_mset_mset)
  have linked: "\<exists>e. y = Some e \<and> (\<exists>k c. (k, c, e) \<in> recorded (Storage seen))" if "y \<in> set (gone_devices seen)" for y
    using gone_devices_recorded [OF s(1,3) that] by metis
  have all: "\<forall>l \<in> set ?ls. \<exists>d. ln_device l = Some d \<and> CHR ''-'' \<notin> set (Hash d)
      \<and> (\<forall>i < link_count d. \<exists>g. links_of (host ag) (link_id (Hash d) i) = links_to g)"
  proof
    fix l assume "l \<in> set ?ls"
    then obtain e k c where e: "ln_device l = Some e" "(k, c, e) \<in> recorded (Storage seen)"
      using linked devs by blast
    have "\<exists>g. links_of (host ag) (link_id (Hash e) i) = links_to g" if "i < link_count e" for i
      using links_neededI [OF e(2) that] seen s(4) unfolding balanced_def by metis
    with e recorded_dash [OF s(3) e(2)] show "\<exists>d. ln_device l = Some d \<and> CHR ''-'' \<notin> set (Hash d)
      \<and> (\<forall>i < link_count d. \<exists>g. links_of (host ag) (link_id (Hash d) i) = links_to g)" by blast
  qed
  have "distinct (map (Hash \<circ> the) (map ln_device ?ls))"
    using ms gone_devices_distinct [OF s(1,3)] by (metis mset_eq_imp_distinct_iff mset_map)
  then have dist: "distinct (map (Hash \<circ> the \<circ> ln_device) ?ls)" by (simp add: comp_assoc)
  have plain: "\<forall>l \<in> set ?ls. plain_elem (ln_namespace l) \<and> plain_elem (ln_name l)"
    using gc_work_plain [OF s(1)] by blast
  note C = gpushare.gc_lines_collects [OF assms(4,5,3) plain all dist, folded run, simplified]
  have names: "(\<lambda>l. (ln_namespace l, ln_name l)) ` set ?ls = (\<lambda>i. (Namespace i, Name i)) ` set (gone_pods seen)"
    by (rule gc_work_names_all [OF assms(2) good_gone(1) [OF assms(1)]])
  show "x = Ok ()" using C by blast
  have pods: "pods_of (Storage ag') k = (if k \<in> (\<lambda>i. (Namespace i, Name i)) ` set (gone_pods seen) then None
      else pods_of (Storage ag) k)" for k
    using C unfolding names by (cases k) simp
  then show none: "pods_of (Storage ag') (Namespace i, Name i) = None" using assms(7) by auto
  have "\<forall>l \<in> set ?ls. \<forall>e. ln_device l = Some e \<longrightarrow> (\<forall>k < link_count e. link_id (Hash d) j \<noteq> link_id (Hash e) k)"
  proof (intro ballI allI impI)
    fix l e k assume "l \<in> set ?ls" "ln_device l = Some e"
    then obtain k' c' where e: "(k', c', e) \<in> recorded (Storage seen)" using linked devs by force
    then have "Hash e \<noteq> Hash d" using new by blast
    then show "link_id (Hash d) j \<noteq> link_id (Hash e) k" using assms(9) recorded_dash [OF s(3) e] by (simp add: link_id_hash)
  qed
  then show host: "links_of (host ag') (link_id (Hash d) j) = links_of (host ag) (link_id (Hash d) j)"
    using gpushare.gc_lines_frame [OF _ assms(4), of ?ls "link_id (Hash d) j"] run by (metis snd_conv)
  show "leaked ag' (link_id (Hash d) j)"
  proof (rule leakedI)
    show "links_of (host ag') (link_id (Hash d) j) \<noteq> (None, None)" using assms(8) host by simp
    fix k' c' e i' assume r: "(k', c', e) \<in> recorded (Storage ag')"
    then have e: "(k', c', e) \<in> recorded (Storage ag)" "k' \<noteq> (Namespace i, Name i)"
      using pods none by (auto simp: recorded_def split: if_splits)
    then have "CHR ''-'' \<notin> set (Hash e)" "Hash e \<noteq> Hash d" using now by blast+
    then show "link_id (Hash d) j \<noteq> link_id (Hash e) i'" using assms(9) by (simp add: link_id_hash)
  qed
qed

section \<open>Calls\<close>

text \<open>What a call that finds its container does, and that one that succeeds has done all of it.\<close>

lemma prestart_result:
  assumes "node_inv (ag, gp)" "event_ok (EvPreStart r kl ids) (ag, gp)" "node_next (EvPreStart r kl ids) (ag, gp) = Some (x, s')"
    and "fst (locate_assumed kl (NewDevice ids r) r ag) = Ok (pc, val)" "ids \<noteq> []" "parse_for r val = Some gs"
  obtains ag1 ag' where "s' = (ag', gp)" "link_and_record pc (NewDevice ids r) gs ag1 = (x, ag')"
    and "host ag1 = host ag" "Storage ag1 = Storage ag" "Operator ag1 = Operator ag" "node_inv (ag', gp)"
    and "container_ok pc" "r \<in> {ResourceGPUCore, ResourceGPUMemory}" "list_all utf8_valid ids"
proof -
  have inv: "agent_inv ag" "plugins_ok gp" using assms(1) by (simp_all add: node_inv_def)
  obtain srv bp ag' where bp: "map_of gp r = Some (srv, bp)" "s' = (ag', gp)" "prestart_with (parse_for r) bp kl ids ag = (x, ag')"
    using assms(3) unfolding prestart_with_for [symmetric] by (auto split: option.splits prod.splits)
  then have res: "bp_ResourceName bp = r" "r \<in> {ResourceGPUCore, ResourceGPUMemory}"
    using inv(2) map_of_SomeD [OF bp(1)] by (auto simp: plugins_ok_def)
  obtain ag1 where loc: "locate_assumed kl (NewDevice ids r) r ag = (Ok (pc, val), ag1)"
    using assms(4) by (metis prod.collapse)
  note frame = locate_assumed_frame [OF loc]
  have "link_and_record pc (NewDevice ids r) gs ag1 = (x, ag')"
    using bp(3) loc res(1) assms(5,6) by (simp add: prestart_with_def)
  moreover have "container_ok pc"
    using locate_assumed_keeps(3) [OF _ res(2) _ loc refl] assms(2) inv(1) by (simp add: agent_inv_def)
  moreover have "node_inv (ag', gp)" using node_next_inv [OF assms(1-3)] bp(2) by simp
  ultimately show ?thesis using that [OF bp(2)] frame res(2) assms(2) by simp
qed

lemma prestart_call:
  assumes "node_inv (ag, gp)" "event_ok (EvPreStart r kl ids) (ag, gp)" "node_next (EvPreStart r kl ids) (ag, gp) = Some (Ok (), s')"
    and "fst (locate_assumed kl (NewDevice ids r) r ag) = Ok (pc, val)"
  obtains ag1 ag' gs where "s' = (ag', gp)" "link_and_record pc (NewDevice ids r) gs ag1 = (Ok (), ag')" "parse_for r val = Some gs"
    and "host ag1 = host ag" "Storage ag1 = Storage ag" "Operator ag1 = Operator ag" "node_inv (ag', gp)"
    and "container_ok pc" "r \<in> {ResourceGPUCore, ResourceGPUMemory}" "list_all utf8_valid ids"
proof -
  obtain srv bp ag' where bp: "map_of gp r = Some (srv, bp)" "prestart_with (parse_for r) bp kl ids ag = (Ok (), ag')"
    using assms(3) unfolding prestart_with_for [symmetric] by (auto split: option.splits prod.splits)
  then have "bp_ResourceName bp = r"
    using assms(1) map_of_SomeD [OF bp(1)] by (auto simp: node_inv_def plugins_ok_def)
  with bp(2) assms(4) obtain gs where "ids \<noteq> []" "parse_for r val = Some gs"
    by (auto simp: prestart_with_def split: if_splits option.splits prod.splits res.splits)
  from prestart_result [OF assms this] that this(2) show ?thesis by metis
qed

lemma gc_overtaken_inv:
  assumes "node_inv (seen, gp)" "node_inv (ag, gp)" "map_order_ok ord" "gc_overtaken ord seen ag = (x, ag')"
  shows "node_inv (ag', gp)"
proof -
  have st: "store_inv (Storage seen)" using assms(1) by (simp add: node_inv_def agent_inv_def)
  then have "store_ok (Storage seen)" "opened (Storage seen)" by (simp_all add: store_inv_def)
  then have "agent_inv (snd (gc_lines (gc_work ord seen) ag))" "gc_overtaken ord seen ag = gc_lines (gc_work ord seen) ag"
    using gc_lines_inv [of ag "gc_work ord seen"] records_ok_gone [OF st assms(3)] gc_work_plain [of seen] assms(2)
    by (auto simp: node_inv_def gc_overtaken_def gc_look_work)
  with assms(2,4) show ?thesis by (simp add: node_inv_def)
qed

lemma call_overwrites:
  assumes "orderly_reach (ag, gp)" "event_ok (EvPreStart r kl ids) (ag, gp)"
    and "node_next (EvPreStart r kl ids) (ag, gp) = Some (Ok (), s1)"
    and "fst (locate_assumed kl (NewDevice ids r) r ag) = Ok (pc, val)" "fits (Storage ag) pc (NewDevice ids r)"
    and "((pc_Namespace pc, pc_Name pc), pc_Container pc, d) \<in> recorded (Storage ag)" "Hash d \<noteq> hash (sort ids)" "j < link_count d"
  shows "leaked (fst s1) (link_id (Hash d) j)" "node_inv s1"
    and "links_of (host (fst s1)) (link_id (Hash d) j) = links_of (host ag) (link_id (Hash d) j)"
proof -
  let ?d = "NewDevice ids r"
  have good: "good ag" and inv: "node_inv (ag, gp)"
    using orderly_good [OF assms(1)] node_reach_inv [OF orderly_node_reach [OF assms(1)]] by simp_all
  obtain ag1 ag' gs where call: "s1 = (ag', gp)" "link_and_record pc ?d gs ag1 = (Ok (), ag')"
      "host ag1 = host ag" "Storage ag1 = Storage ag" "Operator ag1 = Operator ag" "node_inv (ag', gp)"
      "container_ok pc" "r \<in> {ResourceGPUCore, ResourceGPUMemory}" "list_all utf8_valid ids"
    using prestart_call [OF inv assms(2-4)] by metis
  have oper: "Operator ag1 = gpushare_operator" using good call(5) by (simp add: good_def)
  have rec: "recordable (Storage ag) pc ?d"
    using recordable_fits [OF _ _ call(7,9,8) assms(5)] inv good by (simp add: node_inv_def agent_inv_def good_def)
  have dash: "CHR ''-'' \<notin> set (Hash d)" using recorded_dash assms(6) good by (auto simp: good_def)
  have "\<forall>k. link_id (Hash d) j \<noteq> link_id (Hash ?d) k" using dash assms(7) by (simp add: link_id_hash)
  then have links: "links_of (host ag') (link_id (Hash d) j) = links_of (host ag) (link_id (Hash d) j)"
    using link_and_record_frame [OF oper, of "sym_link (link_id (Hash d) j)" ?d pc gs]
      link_and_record_frame [OF oper, of "ctl_link (link_id (Hash d) j)" ?d pc gs] call(2,3)
    by (simp add: links_of_def)
  then show "links_of (host (fst s1)) (link_id (Hash d) j) = links_of (host ag) (link_id (Hash d) j)" using call(1) by simp
  have "Storage ag' = snd (record_device pc ?d (Storage ag))"
    using link_and_record_done [OF oper _ call(2)] rec call(4) by simp
  with overwrite_leaks [OF good assms(6,8) rec _ _ _ links] assms(7) show "leaked (fst s1) (link_id (Hash d) j)"
    by (simp add: call(1))
  show "node_inv s1" using call(1,6) by simp
qed

lemma call_overtakes:
  assumes "orderly_reach (ag, gp)" "i \<in> set (gone_pods ag)" "map_order_ok ord"
    and "event_ok (EvPreStart r kl ids) (ag\<lparr>Sitter := st\<rparr>, gp)"
    and "node_next (EvPreStart r kl ids) (ag\<lparr>Sitter := st\<rparr>, gp) = Some (Ok (), ag1, gp)"
    and "fst (locate_assumed kl (NewDevice ids r) r (ag\<lparr>Sitter := st\<rparr>)) = Ok (pc, val)"
    and "pc_Namespace pc = Namespace i" "pc_Name pc = Name i" "fits (Storage ag) pc (NewDevice ids r)"
    and "\<forall>k c e. (k, c, e) \<in> recorded (Storage ag) \<longrightarrow> Hash e \<noteq> hash (sort ids)"
    and "parse_for r val = Some gs" "j < length gs" "gc_overtaken ord ag ag1 = (x, ag2)"
  shows "x = Ok ()" "pods_of (Storage ag2) (Namespace i, Name i) = None" "leaked ag2 (link_id (hash (sort ids)) j)"
    and "links_of (host ag2) (link_id (hash (sort ids)) j) = links_to (gs ! j)" "node_inv (ag2, gp)"
proof -
  let ?d = "NewDevice ids r" and ?ag = "ag\<lparr>Sitter := st\<rparr>"
  have good: "good ag" and inv: "node_inv (ag, gp)" and reach: "orderly_reach (?ag, gp)"
    using orderly_good [OF assms(1)] node_reach_inv [OF orderly_node_reach [OF assms(1)]]
      orderly_next [OF assms(1), of "EvPods st"] by simp_all
  have g: "records_full (Storage ag)" "balanced ag" "links_writable (host ag)" "Operator ag = gpushare_operator" "usable (Storage ag)"
    using good by (simp_all add: good_def)
  have inv': "node_inv (?ag, gp)" using inv by (simp add: node_inv_def agent_inv_def)
  obtain ag0 ag' gs' where c: "(ag1, gp) = (ag', gp)" "link_and_record pc ?d gs' ag0 = (Ok (), ag')" "parse_for r val = Some gs'"
      "host ag0 = host ?ag" "Storage ag0 = Storage ?ag" "Operator ag0 = Operator ?ag" "node_inv (ag', gp)"
      "container_ok pc" "r \<in> {ResourceGPUCore, ResourceGPUMemory}" "list_all utf8_valid ids"
    by (rule prestart_call [OF inv' assms(4-6)])
  then have call: "link_and_record pc ?d gs' ag0 = (Ok (), ag1)" "parse_for r val = Some gs'"
      "host ag0 = host ag" "Storage ag0 = Storage ag" "Operator ag0 = Operator ag" "node_inv (ag1, gp)"
      "container_ok pc" "r \<in> {ResourceGPUCore, ResourceGPUMemory}" "list_all utf8_valid ids"
    by simp_all
  have gs: "gs' = gs" using call(2) assms(11) by simp
  have rec: "recordable (Storage ag) pc ?d"
    using recordable_fits [OF _ _ call(7,9,8) assms(9)] inv g(5) by (simp add: node_inv_def agent_inv_def)
  have free: "\<forall>k < length gs. links_of (host ag) (link_id (Hash ?d) k) = (None, None)"
    using hash_new_free [OF g(1), of ?d] assms(10) g(2) unfolding balanced_def by (metis NewDevice_simps(1) hash_no_dash)
  have ag1: "ag1 = ag0\<lparr>host := snd (create_loop gpushare_operator (Hash ?d) 0 gs (host ag)), Storage := snd (record_device pc ?d (Storage ag))\<rparr>"
    using link_and_record_ok [of ag0 gs ?d pc] call(1,3-5) g(3,4) free rec by (simp add: gs)
  note made = gpushare.create_loop_made [OF g(3), of gs "Hash ?d" 0]
  have link: "links_of (host ag1) (link_id (Hash ?d) j) = links_to (gs ! j)"
    using made(3) free assms(12) by (simp add: ag1)
  obtain m where m: "ContainerDeviceMap (record_of (Storage ag) pc) = Some m" using rec by (auto simp: recordable_def)
  have now: "CHR ''-'' \<notin> set (Hash e) \<and> (Hash e = Hash ?d \<longrightarrow> k = (Namespace i, Name i))"
    if r: "(k, c, e) \<in> recorded (Storage ag1)" for k c e
  proof -
    have "(k, c, e) \<in> recorded (snd (record_device pc ?d (Storage ag)))" using r by (simp add: ag1)
    from recorded_overwrite [OF record_device_ok(2) [OF rec] m this] show ?thesis
    proof
      assume "(k, c, e) = ((pc_Namespace pc, pc_Name pc), pc_Container pc, ?d)"
      then show ?thesis using assms(7,8) by simp
    next
      assume "(k, c, e) \<in> recorded (Storage ag) \<and> (k, c) \<noteq> ((pc_Namespace pc, pc_Name pc), pc_Container pc)"
      then have e: "(k, c, e) \<in> recorded (Storage ag)" by blast
      then have "Hash e \<noteq> Hash ?d" using assms(10) by fastforce
      with recorded_dash [OF g(1) e] show ?thesis by blast
    qed
  qed
  have seen: "links_of (host ag1) eid = links_of (host ag) eid" if e: "eid \<in> links_needed (Storage ag)" for eid
  proof -
    have "eid \<noteq> link_id (Hash ?d) k" for k using hash_new_free [OF g(1), of ?d k] assms(10) e by auto
    then show ?thesis by (simp add: ag1 gpushare.create_loop_frame)
  qed
  have st: "usable (Storage ag1)" "Operator ag1 = gpushare_operator" "links_writable (host ag1)"
    using record_device_ok(3) [OF rec] made(2) free call(5) g(4) by (simp_all add: ag1)
  have there: "links_of (host ag1) (link_id (Hash ?d) j) \<noteq> (None, None)" using link by simp
  have dash: "CHR ''-'' \<notin> set (Hash ?d)" by simp
  have new: "\<forall>k c e. (k, c, e) \<in> recorded (Storage ag) \<longrightarrow> Hash e \<noteq> Hash ?d" using assms(10) by simp
  note L = overtaken_leaks [OF good assms(3) st _ assms(2) there dash new _ assms(13)]
  show "x = Ok ()" "pods_of (Storage ag2) (Namespace i, Name i) = None" "leaked ag2 (link_id (hash (sort ids)) j)"
    "links_of (host ag2) (link_id (hash (sort ids)) j) = links_to (gs ! j)"
    using L seen now link by auto
  show "node_inv (ag2, gp)" using gc_overtaken_inv [OF inv call(6) assms(3,13)] .
qed

end
