(* ===== verification/Record_Race.thy ===== *)
theory Record_Race
  imports Gpushare_Plugin
begin

text \<open>
  The recording of two pre-start calls side by side.  A call reads the pod's record
  (\<open>LoadOrCreate\<close>), adds its devices and writes the record back (\<open>Save\<close>); the lock it holds is a
  field of its own plugin (\<open>baseDevicePlugin.lock\<close>), so a call of the core plugin and one of the
  memory plugin can overlap.  Each of the two accesses is a transaction of the database and hence
  one step; a schedule says whose step is next.
\<close>

section \<open>The model\<close>

text \<open>Where a call stands: before its read, before its write, or done with the error of \<open>Save\<close>.\<close>

datatype rec_prog = AtLoad | AtSave PodInfo | Recorded "unit res"

definition rec_step :: "PodContainer \<Rightarrow> Device \<Rightarrow> rec_prog \<Rightarrow> boltdb \<Rightarrow> rec_prog \<times> boltdb" where
  "rec_step cur devices p db =
     (case p of
        AtLoad \<Rightarrow>
          (case LoadOrCreate (pc_Namespace cur) (pc_Name cur) db of
             Ok pif \<Rightarrow>
               (case ContainerDeviceMap pif of
                  None \<Rightarrow> (Recorded Panic, db)
                | Some m \<Rightarrow>
                    (AtSave (pif\<lparr>ContainerDeviceMap := Some (amap_put (pc_Container cur) (Some devices) m)\<rparr>), db))
           | Fail e \<Rightarrow> (Recorded (Fail e), db)
           | Panic \<Rightarrow> (Recorded Panic, db))
      | AtSave pif \<Rightarrow> (case Save pif db of (r, db') \<Rightarrow> (Recorded r, db'))
      | Recorded r \<Rightarrow> (Recorded r, db))"

text \<open>Two calls, the first one stepping where the schedule has \<open>True\<close>.\<close>

fun race :: "(PodContainer \<times> Device) \<Rightarrow> (PodContainer \<times> Device) \<Rightarrow> bool list
  \<Rightarrow> rec_prog \<times> rec_prog \<times> boltdb \<Rightarrow> rec_prog \<times> rec_prog \<times> boltdb" where
  "race a b [] s = s"
| "race a b (True # sch) (p, q, db) =
     (case rec_step (fst a) (snd a) p db of (p', db') \<Rightarrow> race a b sch (p', q, db'))"
| "race a b (False # sch) (p, q, db) =
     (case rec_step (fst b) (snd b) q db of (q', db') \<Rightarrow> race a b sch (p, q', db'))"

section \<open>Lemmas\<close>

text \<open>A call that runs alone does what \<open>record_device\<close> does.\<close>

lemma rec_step_alone:
  "race (cur, d) b [True, True] (AtLoad, q, db) =
     (Recorded (fst (record_device cur d db)), q, snd (record_device cur d db))"
  by (auto simp: rec_step_def record_device_def split: res.split option.split prod.split)

text \<open>What the read of a call yields.\<close>

lemma rec_step_load:
  assumes "recordable db cur d"
  shows "rec_step cur d AtLoad db = (AtSave (with_device db cur d), db)"
proof -
  have "LoadOrCreate (pc_Namespace cur) (pc_Name cur) db = Ok (record_of db cur)"
    "ContainerDeviceMap (record_of db cur) \<noteq> None"
    using assms by (simp_all add: recordable_def LoadOrCreate_record)
  then show ?thesis by (auto simp: rec_step_def with_device_def)
qed

lemma rec_step_save:
  assumes "usable db" "storable i"
  shows "rec_step cur d (AtSave i) db = (Recorded (Ok ()), snd (Save i db))"
  using bolt.save_ok [OF assms] by (auto simp: rec_step_def split: prod.split)


definition recorded_in :: "boltdb \<Rightarrow> PodContainer \<Rightarrow> Device \<Rightarrow> bool" where
  "recorded_in db cur d \<longleftrightarrow>
     (case pods_of db (pc_Namespace cur, pc_Name cur) of
        None \<Rightarrow> False
      | Some i \<Rightarrow> (case ContainerDeviceMap i of None \<Rightarrow> False | Some m \<Rightarrow> map_of m (pc_Container cur) = Some (Some d)))"

text \<open>Two containers of a pod that can be recorded, in either order.\<close>

definition two_fit :: "boltdb \<Rightarrow> PodContainer \<times> Device \<Rightarrow> PodContainer \<times> Device \<Rightarrow> bool" where
  "two_fit db a b \<longleftrightarrow>
     pc_Namespace (fst a) = pc_Namespace (fst b) \<and> pc_Name (fst a) = pc_Name (fst b)
     \<and> pc_Container (fst a) \<noteq> pc_Container (fst b)
     \<and> recordable db (fst a) (snd a) \<and> recordable db (fst b) (snd b)
     \<and> recordable (snd (record_device (fst a) (snd a) db)) (fst b) (snd b)
     \<and> recordable (snd (record_device (fst b) (snd b) db)) (fst a) (snd a)"

lemma two_fit_sym: "two_fit db a b \<Longrightarrow> two_fit db b a"
  by (auto simp: two_fit_def)

lemma record_map:
  assumes "recordable db cur d"
  obtains m where "ContainerDeviceMap (record_of db cur) = Some m"
    "ContainerDeviceMap (with_device db cur d) = Some (amap_put (pc_Container cur) (Some d) m)"
  using assms that by (auto simp: recordable_def with_device_def)

lemma recorded_in_record: "recorded_in db cur d \<longleftrightarrow>
    (\<exists>m. ContainerDeviceMap (record_of db cur) = Some m \<and> map_of m (pc_Container cur) = Some (Some d))"
  by (auto simp: recorded_in_def record_of_def split: option.split)

text \<open>The record a write of \<open>cur\<close>, based on \<open>db\<close>, leaves: its own device, the others as in \<open>db\<close>.\<close>

lemma recorded_after_save:
  assumes "recordable db cur d" "usable db1"
    and "pc_Namespace cur' = pc_Namespace cur" "pc_Name cur' = pc_Name cur"
  shows "recorded_in (snd (Save (with_device db cur d) db1)) cur' d' \<longleftrightarrow>
    (if pc_Container cur' = pc_Container cur then d' = d else recorded_in db cur' d')"
proof -
  let ?i = "with_device db cur d"
  have fits: "storable ?i" using assms(1) by (simp add: recordable_def)
  have names: "Namespace ?i = pc_Namespace cur" "Name ?i = pc_Name cur"
    by (simp_all add: with_device_def record_of_names)
  obtain m where m: "ContainerDeviceMap (record_of db cur) = Some m"
      "ContainerDeviceMap ?i = Some (amap_put (pc_Container cur) (Some d) m)"
    using record_map [OF assms(1)] .
  have same: "record_of db cur' = record_of db cur" using assms(3,4) by (simp add: record_of_def split: option.split)
  have "pods_of (snd (Save ?i db1)) (pc_Namespace cur', pc_Name cur') = Some ?i"
    using bolt.save_view [OF assms(2) fits] names assms(3,4) by simp
  with m same show ?thesis
    by (auto simp: recorded_in_def [of "snd (Save ?i db1)"] recorded_in_record [of db])
qed

text \<open>One call after the other: both are recorded.\<close>

lemma race_serial:
  assumes "two_fit db a b"
  shows "\<exists>db'. race a b [True, True, False, False] (AtLoad, AtLoad, db) = (Recorded (Ok ()), Recorded (Ok ()), db')
    \<and> recorded_in db' (fst a) (snd a) \<and> recorded_in db' (fst b) (snd b)"
proof -
  obtain ca da cb db' where ab: "a = (ca, da)" "b = (cb, db')" by force
  let ?w = "with_device db ca da" and ?db = "snd (record_device ca da db)"
  have fit: "recordable db ca da" "recordable ?db cb db'" "pc_Container cb \<noteq> pc_Container ca"
    "pc_Namespace ca = pc_Namespace cb" "pc_Name ca = pc_Name cb"
    using assms ab by (auto simp: two_fit_def)
  have db1: "?db = snd (Save ?w db)" "usable ?db" "usable db" "storable ?w"
    using record_device_save [OF fit(1)] record_device_ok(3) [OF fit(1)] fit(1) by (simp_all add: recordable_def)
  let ?w' = "with_device ?db cb db'"
  have w': "storable ?w'" using fit(2) by (simp add: recordable_def)
  have run: "race a b [True, True, False, False] (AtLoad, AtLoad, db) =
      (Recorded (Ok ()), Recorded (Ok ()), snd (Save ?w' ?db))"
    using rec_step_load [OF fit(1)] rec_step_save [OF db1(3,4)] rec_step_load [OF fit(2)] rec_step_save [OF db1(2) w']
    by (simp add: ab db1(1))
  have "recorded_in ?db ca da"
    unfolding db1(1) using recorded_after_save [OF fit(1) db1(3), of ca da] by simp
  then have "recorded_in (snd (Save ?w' ?db)) ca da"
    using recorded_after_save [OF fit(2) db1(2), of ca da] fit(3-5) by auto
  moreover have "recorded_in (snd (Save ?w' ?db)) cb db'"
    using recorded_after_save [OF fit(2) db1(2), of cb db'] by simp
  ultimately show ?thesis using run ab by auto
qed

text \<open>Two reads before the first write: the later write loses the device of the earlier one.\<close>

lemma race_overlap:
  assumes "two_fit db a b" "\<not> recorded_in db (fst a) (snd a)" "sch \<in> {[True, False], [False, True]}"
  shows "\<exists>db'. race a b (sch @ [True, False]) (AtLoad, AtLoad, db) = (Recorded (Ok ()), Recorded (Ok ()), db')
    \<and> \<not> recorded_in db' (fst a) (snd a) \<and> recorded_in db' (fst b) (snd b)"
proof -
  obtain ca da cb db' where ab: "a = (ca, da)" "b = (cb, db')" by force
  let ?wa = "with_device db ca da" and ?wb = "with_device db cb db'"
  have fit: "recordable db ca da" "recordable db cb db'" "pc_Container cb \<noteq> pc_Container ca"
    "pc_Namespace ca = pc_Namespace cb" "pc_Name ca = pc_Name cb"
    using assms(1) ab by (auto simp: two_fit_def)
  have ok: "usable db" "storable ?wa" "storable ?wb" using fit by (simp_all add: recordable_def)
  let ?db = "snd (Save ?wa db)"
  have "usable ?db" using ok usable_put by blast
  note save = rec_step_save [OF ok(1,2)] rec_step_save [OF this ok(3)] and after = recorded_after_save [OF fit(2) this]
  have "race a b (sch @ [True, False]) (AtLoad, AtLoad, db) =
      (Recorded (Ok ()), Recorded (Ok ()), snd (Save ?wb ?db))"
    using assms(3) rec_step_load [OF fit(1)] rec_step_load [OF fit(2)] save by (auto simp: ab)
  moreover have "\<not> recorded_in (snd (Save ?wb ?db)) ca da" "recorded_in (snd (Save ?wb ?db)) cb db'"
    using after [of ca da] after [of cb db'] assms(2) fit(3-5) ab by auto
  ultimately show ?thesis using ab by auto
qed

text \<open>The two calls in the other roles.\<close>

lemma race_swap:
  "race a b sch (p, q, db) = (p', q', db') \<longleftrightarrow> race b a (map Not sch) (q, p, db) = (q', p', db')"
  by (induction a b sch "(p, q, db)" arbitrary: p q db rule: race.induct) (auto split: prod.splits)

lemma two_steps_each:
  assumes "count_list sch True = 2" "count_list sch False = 2"
  shows "sch \<in> {[True, True, False, False], [False, False, True, True], [True, False, True, False],
                [False, True, True, False], [True, False, False, True], [False, True, False, True]}"
proof -
  have "length sch = count_list sch True + count_list sch False" for sch :: "bool list"
    by (induction sch) auto
  then have "length sch = 4" using assms by simp
  then obtain w x y z where "sch = [w, x, y, z]" by (auto simp: numeral_eq_Suc length_Suc_conv)
  with assms show ?thesis by (cases w; cases x; cases y; cases z) simp_all
qed


text \<open>Two containers of the pod \<open>train-0\<close>, for the instance of the property.\<close>

abbreviation demo_side :: PodContainer where
  "demo_side \<equiv> \<lparr>pc_Namespace = ''default'', pc_Name = ''train-0'', pc_Container = ''side''\<rparr>"

abbreviation demo_first :: "PodContainer \<times> Device" where
  "demo_first \<equiv> (demo_container, NewDevice [''0-00''] ''elasticgpu.io/gpu-core'')"

abbreviation demo_second :: "PodContainer \<times> Device" where
  "demo_second \<equiv> (demo_side, NewDevice [''0-01''] ''elasticgpu.io/gpu-memory'')"

text \<open>Records of the pods of the examples with few, short containers fit.\<close>

lemma small_storable:
  assumes "ContainerDeviceMap i = Some m" "Namespace i = ''default''" "Name i \<in> {''train-0'', ''train-1''}"
    and "devmap_ok (Some m)" "devmap_size m \<le> 10000"
  shows "storable i"
proof -
  have ok: "pod_ok i" using assms by (auto simp: pod_ok_def plain_elem_def)
  moreover have "length (Key i) \<le> 100" using pod_ok_Key [OF ok] assms by auto
  moreover have "length (Val i) \<le> 10000" using length_Val [OF assms(1)] assms(5) by simp
  ultimately show ?thesis by (simp add: storable_def MaxKeySize_def MaxValueSize_def)
qed

lemma small_recordable:
  assumes "usable db" "pc_Namespace pc = ''default''" "pc_Name pc \<in> {''train-0'', ''train-1''}"
    and "ContainerDeviceMap (record_of db pc) = Some m" "devmap_ok (Some (amap_put (pc_Container pc) (Some d) m))"
    and "devmap_size (amap_put (pc_Container pc) (Some d) m) \<le> 10000"
  shows "recordable db pc d"
proof -
  have "storable (with_device db pc d)"
    by (rule small_storable [OF _ _ _ assms(5,6)]) (use assms(3) in \<open>simp_all add: with_device_def record_of_names assms(2,4)\<close>)
  with assms show ?thesis by (auto simp: recordable_def plain_elem_def)
qed

lemma demo_devices:
  "device_ok (NewDevice [''0-00''] ''elasticgpu.io/gpu-core'')"
  "device_ok (NewDevice [''0-01''] ''elasticgpu.io/gpu-memory'')"
  by (simp_all add: device_ok_def del: utf8_valid.simps) code_simp+

lemma demo_record_of:
  "pc_Namespace pc = ''default'' \<Longrightarrow> pc_Name pc = ''train-0'' \<Longrightarrow>
   ContainerDeviceMap (record_of demo_db pc) = Some []"
  by (simp add: record_of_def pods_of_def root_of_def demo_db_def plain_elem_def)

lemma demo_recorded_map:
  assumes "recordable demo_db a d" "pc_Namespace a = ''default''" "pc_Name a = ''train-0''"
    and "pc_Namespace b = ''default''" "pc_Name b = ''train-0''"
  shows "usable (snd (record_device a d demo_db))"
    and "ContainerDeviceMap (record_of (snd (record_device a d demo_db)) b) = Some [(pc_Container a, Some d)]"
  using record_device_ok [OF assms(1)] assms(2-5) demo_record_of [OF assms(2,3)]
  by (simp_all add: record_of_def [of "snd _"] with_device_def)

lemma demo_two_fit: "two_fit demo_db demo_first demo_second"
proof -
  have utf8: "utf8_valid ''main''" "utf8_valid ''side''" by code_simp+
  have a: "recordable demo_db demo_container (NewDevice [''0-00''] ''elasticgpu.io/gpu-core'')"
    using utf8 demo_devices
    by (intro small_recordable [OF demo_db_usable _ _ demo_record_of])
      (simp_all add: demo_container_def devmap_ok_def amap_ok_def devmap_size_def device_size_def del: utf8_valid.simps)
  have b: "recordable demo_db demo_side (NewDevice [''0-01''] ''elasticgpu.io/gpu-memory'')"
    using utf8 demo_devices
    by (intro small_recordable [OF demo_db_usable _ _ demo_record_of])
      (simp_all add: devmap_ok_def amap_ok_def devmap_size_def device_size_def del: utf8_valid.simps)
  have "recordable (snd (record_device demo_container (NewDevice [''0-00''] ''elasticgpu.io/gpu-core'') demo_db))
      demo_side (NewDevice [''0-01''] ''elasticgpu.io/gpu-memory'')"
    using utf8 demo_devices
    by (intro small_recordable [OF demo_recorded_map(1) [OF a, where b = demo_side] _ _ demo_recorded_map(2) [OF a, where b = demo_side]])
      (simp_all add: demo_container_def devmap_ok_def amap_ok_def devmap_size_def device_size_def less_char_def
        del: utf8_valid.simps)
  moreover have "recordable (snd (record_device demo_side (NewDevice [''0-01''] ''elasticgpu.io/gpu-memory'') demo_db))
      demo_container (NewDevice [''0-00''] ''elasticgpu.io/gpu-core'')"
    using utf8 demo_devices
    by (intro small_recordable [OF demo_recorded_map(1) [OF b, where b = demo_container] _ _ demo_recorded_map(2) [OF b, where b = demo_container]])
      (simp_all add: demo_container_def devmap_ok_def amap_ok_def devmap_size_def device_size_def less_char_def
        del: utf8_valid.simps)
  ultimately show ?thesis using a b by (simp add: two_fit_def demo_container_def)
qed

section \<open>Properties\<close>

text \<open>
  C25: Two calls for containers of one pod, one of each plugin, lose an update unless they happen
  not to overlap: both report success under every schedule, but both containers are in the
  record only when one call has written before the other one reads.
\<close>

theorem overlap_loses_record:
  assumes "two_fit db a b" and "\<not> recorded_in db (fst a) (snd a)" and "\<not> recorded_in db (fst b) (snd b)"
    and "count_list sch True = 2" and "count_list sch False = 2"
  shows "\<exists>db'. race a b sch (AtLoad, AtLoad, db) = (Recorded (Ok ()), Recorded (Ok ()), db')
    \<and> ((recorded_in db' (fst a) (snd a) \<and> recorded_in db' (fst b) (snd b)) \<longleftrightarrow>
        sch \<in> {[True, True, False, False], [False, False, True, True]})"
proof -
  note swap = race_swap [of b a _ AtLoad AtLoad db, THEN iffD1] and sym = two_fit_sym [OF assms(1)]
  from two_steps_each [OF assms(4,5)] consider
      "sch = [True, True, False, False]" | "sch = [False, False, True, True]"
    | "sch = [True, False, True, False]" | "sch = [False, True, True, False]"
    | "sch = [True, False, False, True]" | "sch = [False, True, False, True]" by blast
  then show ?thesis
  proof cases
    case 1
    then show ?thesis using race_serial [OF assms(1)] by blast
  next
    case 2
    obtain db' where r: "race b a [True, True, False, False] (AtLoad, AtLoad, db) = (Recorded (Ok ()), Recorded (Ok ()), db')"
        "recorded_in db' (fst b) (snd b) \<and> recorded_in db' (fst a) (snd a)"
      using race_serial [OF sym] by blast
    then have "race a b sch (AtLoad, AtLoad, db) = (Recorded (Ok ()), Recorded (Ok ()), db')"
      using swap [OF r(1)] 2 by (simp del: race.simps)
    with r(2) 2 show ?thesis by blast
  next
    case 3
    then show ?thesis using race_overlap [OF assms(1,2), of "[True, False]"] by fastforce
  next
    case 4
    then show ?thesis using race_overlap [OF assms(1,2), of "[False, True]"] by fastforce
  next
    case 5
    obtain db' where r: "race b a ([False, True] @ [True, False]) (AtLoad, AtLoad, db) = (Recorded (Ok ()), Recorded (Ok ()), db')"
        "\<not> recorded_in db' (fst b) (snd b)"
      using race_overlap [OF sym assms(3), of "[False, True]"] by blast
    then have "race a b sch (AtLoad, AtLoad, db) = (Recorded (Ok ()), Recorded (Ok ()), db')"
      using swap [OF r(1)] 5 by (simp del: race.simps)
    with r(2) 5 show ?thesis by blast
  next
    case 6
    obtain db' where r: "race b a ([True, False] @ [True, False]) (AtLoad, AtLoad, db) = (Recorded (Ok ()), Recorded (Ok ()), db')"
        "\<not> recorded_in db' (fst b) (snd b)"
      using race_overlap [OF sym assms(3), of "[True, False]"] by blast
    then have "race a b sch (AtLoad, AtLoad, db) = (Recorded (Ok ()), Recorded (Ok ()), db')"
      using swap [OF r(1)] 6 by (simp del: race.simps)
    with r(2) 6 show ?thesis by blast
  qed
qed

theorem overlap_loses_record_witness:
  "\<exists>db'. race demo_first demo_second [True, False, True, False] (AtLoad, AtLoad, demo_db)
       = (Recorded (Ok ()), Recorded (Ok ()), db')
     \<and> \<not> (recorded_in db' demo_container (NewDevice [''0-00''] ''elasticgpu.io/gpu-core'')
          \<and> recorded_in db' demo_side (NewDevice [''0-01''] ''elasticgpu.io/gpu-memory''))"
proof -
  have "\<not> recorded_in demo_db pc d" for pc d
    by (simp add: recorded_in_def pods_of_def root_of_def demo_db_def)
  then show ?thesis
    using overlap_loses_record [OF demo_two_fit, of "[True, False, True, False]"] by simp
qed

end
