(* ===== verification/Hash_Vectors.thy ===== *)
theory Hash_Vectors
  imports Types_Device
begin

text \<open>
  Two values of the hash of device lists, evaluated by the simplifier; they agree with the output
  of \<open>sha256sum\<close> on \<open>0-00:0-01\<close> and \<open>0-02\<close>.
\<close>

lemma hash_two_units: "hash [''0-00'', ''0-01''] = ''daf85f12''"
  by code_simp

lemma hash_one_unit: "hash [''0-02''] = ''920dc508''"
  by code_simp

end
