(* ===== verification/Leak_Cases.thy ===== *)
theory Leak_Cases
  imports Leaks Record_Race Hash_Vectors
begin

text \<open>
  Two ways in which links are leaked although nothing fails: a container whose record is overwritten
  with other devices, and a start that overtakes the collector.  The instances are a container that
  is given memory after its cores.
\<close>

section \<open>An instance\<close>

text \<open>The memory of the container that has its cores.\<close>

definition demo_memory :: kubelet where
  "demo_memory = \<lparr>dial_err = None, answer = Inr
     [\<lparr>pr_Name = ''train-0'', pr_Namespace = ''default'', pr_Containers =
        [\<lparr>cr_Name = ''main'', cr_Devices =
           [\<lparr>cd_ResourceName = ResourceGPUMemory, cd_DeviceIds = [''0-02'']\<rparr>]\<rparr>]\<rparr>]\<rparr>"

lemma demo_memory_assigned:
  assumes "DeviceLocator ag ResourceGPUMemory = Some (NewKubeletDeviceLocator ResourceGPUMemory None)"
    and "Sitter ag = demo_sitter"
  shows "assigned demo_memory ResourceGPUMemory [''0-02''] ag demo_container (gpus_text [0])"
proof -
  have zero: "gpus_text [0] = ''0''" by code_simp
  let ?pod = "\<lparr>Annotations = [(''elasticgpu.io/assumed'', ''true''), (''elasticgpu.io/container-main'', ''0'')]\<rparr>"
  show ?thesis
    unfolding assigned_def zero using assms
    by (intro exI [of _ "NewKubeletDeviceLocator ResourceGPUMemory None"] exI [of _ "[\<lparr>pr_Name = ''train-0'', pr_Namespace = ''default'', pr_Containers =
          [\<lparr>cr_Name = ''main'', cr_Devices = [\<lparr>cd_ResourceName = ResourceGPUMemory, cd_DeviceIds = [''0-02'']\<rparr>]\<rparr>]\<rparr>]"]
        exI [of _ "[[''0-02'']]"] exI [of _ ?pod])
      (simp_all add: demo_memory_def NewKubeletDeviceLocator_def exclusive_def holders_def entries_of_def holds_def
        demo_container_def demo_sitter_def NewSitter_def ElasticGPUAssumedAnnotation_def)
qed

definition demo_started :: agent where
  "demo_started = demo_both
     \<lparr>host := snd (create_loop gpushare_operator (hash (sort demo_ids)) 0 [0] demo_host),
      Storage := snd (record_device demo_container (NewDevice demo_ids ResourceGPUCore) demo_db)\<rparr>"

lemma demo_sitter_started [simp]: "Sitter demo_started = demo_sitter"
  by (simp add: demo_started_def)

lemma demo_hashes: "hash (sort [''0-02'']) \<noteq> hash (sort demo_ids)"
proof -
  have "sort demo_ids = demo_ids" by code_simp
  then show ?thesis by (simp add: hash_two_units hash_one_unit)
qed

lemma demo_core_recordable: "recordable demo_db demo_container (NewDevice demo_ids ResourceGPUCore)"
  using demo_recordable by (simp add: ResourceGPUCore_def)

lemma demo_started_recorded:
  "recorded (Storage demo_started) = {((''default'', ''train-0''), ''main'', NewDevice demo_ids ResourceGPUCore)}"
proof -
  have none: "pods_of demo_db k = None" for k
    by (simp add: demo_db_def pods_of_def root_of_def split: prod.split)
  then have "recorded demo_db = {}" by (simp add: recorded_def)
  moreover have "ContainerDeviceMap (record_of demo_db demo_container) = Some []"
    by (simp add: record_of_def none NewPI_def)
  ultimately show ?thesis
    using recorded_put [OF record_device_ok(2) [OF demo_core_recordable], of "[]"]
    by (simp add: demo_started_def demo_container_def)
qed

lemma demo_second_recordable:
  "recordable (Storage demo_started) demo_container (NewDevice [''0-02''] ResourceGPUMemory)"
proof -
  note rec = demo_recorded_map [OF demo_core_recordable, where b = demo_container]
  have "device_ok (NewDevice [''0-02''] ResourceGPUMemory)" by (rule device_ok_NewDevice) (simp_all, code_simp)
  moreover have "utf8_valid ''main''" by code_simp
  moreover have "length ResourceGPUMemory < 30" by (simp add: ResourceGPUMemory_def)
  ultimately show ?thesis
    using rec unfolding demo_started_def
    by (intro small_recordable [where m = "[(''main'', Some (NewDevice demo_ids ResourceGPUCore))]"])
      (simp_all add: demo_container_def devmap_ok_def amap_ok_def devmap_size_def device_size_def del: utf8_valid.simps)
qed

lemma demo_second_fresh: "fresh_start demo_memory ResourceGPUMemory [''0-02''] [0] demo_container demo_started"
proof -
  let ?fs = "snd (create_loop gpushare_operator (hash (sort demo_ids)) 0 [0] demo_host)"
  have "link_id (hash (sort [''0-02''])) 0 \<noteq> link_id (hash (sort demo_ids)) (0 + k)" for k
    using demo_hashes by (simp add: link_id_hash)
  then have "links_of ?fs (link_id (hash (sort [''0-02''])) 0) = (None, None)"
    using gpushare.create_loop_frame [of "[0]" "link_id (hash (sort [''0-02''])) 0" "hash (sort demo_ids)" 0 demo_host]
      demo_host_links by simp
  moreover have "links_writable ?fs" "fs_ok ?fs"
    using demo_host_ok(1,2) create_loop_fs(1) [of "hash (sort demo_ids)" 0 "[0]" demo_host]
      create_loop_fs(2) [of demo_host "hash (sort demo_ids)" 0 "[0]"]
    by (simp_all only: links_writable_def)
  moreover have "assigned demo_memory ResourceGPUMemory [''0-02''] demo_started demo_container (gpus_text [0])"
    by (rule demo_memory_assigned) (simp_all add: demo_started_def demo_both_def)
  ultimately show ?thesis by (simp add: fresh_start_def demo_started_def del: gpus_text_single create_loop.simps)
qed

text \<open>The call for the memory, in the state that has the cores.\<close>

lemma demo_second_call:
  obtains gp ag1 where "orderly_reach (demo_started, gp)"
    and "event_ok (EvPreStart ResourceGPUMemory demo_memory [''0-02'']) (demo_started, gp)"
    and "node_next (EvPreStart ResourceGPUMemory demo_memory [''0-02'']) (demo_started, gp) = Some (Ok (), ag1, gp)"
    and "fst (locate_assumed demo_memory (NewDevice [''0-02''] ResourceGPUMemory) ResourceGPUMemory demo_started) = Ok (demo_container, gpus_text [0])"
    and "fits (Storage demo_started) demo_container (NewDevice [''0-02''] ResourceGPUMemory)"
    and "parse_for ResourceGPUMemory (gpus_text [0]) = Some [0]"
proof -
  obtain gp where reach: "orderly_reach (demo_started, gp)"
    using demo_orderly unfolding demo_started_def by metis
  have "plugins_ok gp" using node_reach_inv [OF orderly_node_reach [OF reach]] by (simp add: node_inv_def)
  then obtain srv c where c: "map_of gp ResourceGPUMemory = Some (srv, c)" "bp_ResourceName c = ResourceGPUMemory"
    by (cases gp) (auto simp: plugins_ok_def)
  have fresh: "fresh_start demo_memory (bp_ResourceName c) [''0-02''] [0] demo_container demo_started"
    using demo_second_fresh c(2) by simp
  have rec: "recordable (Storage demo_started) demo_container (NewDevice [''0-02''] (bp_ResourceName c))"
    using demo_second_recordable c(2) by simp
  obtain ag1 where "PreStartContainer_mem c demo_memory [''0-02''] demo_started = (Ok (), ag1)"
    using PreStart_mem_state [OF fresh rec] by blast
  then have next': "node_next (EvPreStart ResourceGPUMemory demo_memory [''0-02'']) (demo_started, gp) = Some (Ok (), ag1, gp)"
    using c(1) by simp
  have ev: "event_ok (EvPreStart ResourceGPUMemory demo_memory [''0-02'']) (demo_started, gp)"
    by (simp add: demo_memory_def answer_ok_def) code_simp
  have "locate_assumed demo_memory (NewDevice [''0-02''] ResourceGPUMemory) ResourceGPUMemory demo_started
      = (Ok (demo_container, gpus_text [0]), demo_started)"
    using demo_second_fresh unfolding fresh_start_def by (intro locate_assumed_ok) simp_all
  moreover have "fits (Storage demo_started) demo_container (NewDevice [''0-02''] ResourceGPUMemory)"
    using demo_second_recordable by (simp add: recordable_def storable_def fits_def)
  moreover have "parse_for ResourceGPUMemory (gpus_text [0]) = Some [0]"
    by (simp add: parse_for_def atoi_itoa)
  ultimately show ?thesis using that [OF reach ev next'] by simp
qed

section \<open>Properties\<close>





end
