(* ===== verification/Prestart_Crash.thy ===== *)
theory Prestart_Crash
  imports Accounts
begin

text \<open>
  An agent that dies in the middle of a pre-start call.  The call makes its links one by one and
  writes the record last; what is on the disk when the process ends is the files as they were
  between two system calls and the database without the record.  The kubelet calls again once the
  agent is back.
\<close>

section \<open>The files at the time of the crash\<close>

text \<open>
  The loop of the handler has finished the links of \<open>j\<close> cards; with \<open>half\<close> it has also made the
  first of the two links of the next card, the first system call of \<open>Create\<close> that changes anything.
\<close>

definition crash_host :: "string \<Rightarrow> int list \<Rightarrow> nat \<Rightarrow> bool \<Rightarrow> host_fs \<Rightarrow> host_fs" where
  "crash_host h gs j half fs =
     (let fs1 = snd (create_loop gpushare_operator h 0 (take j gs) fs)
      in if half then snd (os_Symlink (gpu_node (gs ! j)) (sym_link (link_id h j)) fs1) else fs1)"

lemma create_loop_append:
  "create_loop oper h i (xs @ ys) fs =
     (case create_loop oper h i xs fs of
        (Some e, fs') \<Rightarrow> (Some e, fs')
      | (None, fs') \<Rightarrow> create_loop oper h (i + length xs) ys fs')"
  by (induction xs arbitrary: i fs) (auto split: prod.split option.split)

text \<open>The crashes before the end are the starts of what a whole call does.\<close>

lemma crash_host_end: "crash_host h gs (length gs) False fs = snd (create_loop gpushare_operator h 0 gs fs)"
  by (simp add: crash_host_def)

lemma create_loop_again:
  assumes "links_writable fs"
    and "\<forall>k < length gs. node_at fs (sym_link (link_id h (i + k))) = Some (Symlink (gpu_node (gs ! k))) \<and> gpu_present (gs ! k) fs"
  shows "create_loop gpushare_operator h i gs fs = (None, fs)"
  using assms(2)
proof (induction gs arbitrary: i)
  case (Cons g gs)
  have "node_at fs (sym_link (link_id h i)) = Some (Symlink (gpu_node g))" "gpu_present g fs"
    using Cons.prems by force+
  then have "GPUShare_Create NewGPUShareOperator g (link_id h i) fs = (None, fs)"
    using Create_again assms(1) by blast
  moreover have "create_loop gpushare_operator h (Suc i) gs fs = (None, fs)"
    using Cons.prems by (intro Cons.IH) force
  ultimately show ?case by simp
qed simp

lemma create_loop_files:
  "\<not> is_link_path p \<Longrightarrow> node_at (snd (create_loop gpushare_operator h i gs fs)) p = node_at fs p"
  by (intro create_loop_nodes) (auto simp: is_link_path_def)

text \<open>What the links made so far look like, and the others.\<close>

lemma crash_links:
  assumes "links_writable fs" "\<forall>k < length gs. links_of fs (link_id h k) = (None, None)" "j \<le> length gs"
  defines "fs1 \<equiv> snd (create_loop gpushare_operator h 0 (take j gs) fs)"
  shows "create_loop gpushare_operator h 0 (take j gs) fs = (None, fs1)" "links_writable fs1"
    and "k < j \<Longrightarrow> links_of fs1 (link_id h k) = links_to (gs ! k)"
    and "j \<le> k \<Longrightarrow> links_of fs1 (link_id h k) = links_of fs (link_id h k)"
    and "gpu_present g fs \<Longrightarrow> gpu_present g fs1"
proof -
  have made: "fst (create_loop gpushare_operator h 0 (take j gs) fs) = None" "links_writable fs1"
      "\<forall>k < length (take j gs). links_of fs1 (link_id h (0 + k)) = links_to (take j gs ! k)"
    unfolding fs1_def
    using gpushare.create_loop_made [of fs "take j gs" h 0] assms(1-3) by simp_all
  then show "create_loop gpushare_operator h 0 (take j gs) fs = (None, fs1)" "links_writable fs1"
    by (simp_all add: fs1_def prod_eq_iff)
  show "k < j \<Longrightarrow> links_of fs1 (link_id h k) = links_to (gs ! k)"
    using made(3) assms(3) by simp
  show "j \<le> k \<Longrightarrow> links_of fs1 (link_id h k) = links_of fs (link_id h k)"
    unfolding fs1_def by (intro gpushare.create_loop_frame) auto
  show "gpu_present g fs \<Longrightarrow> gpu_present g fs1"
    unfolding fs1_def by (erule gpu_present_cong) (rule create_loop_files)
qed

text \<open>After a crash between two cards the next call ends with the files of an undisturbed one.\<close>

lemma retry_whole:
  assumes "links_writable fs" "\<forall>k < length gs. links_of fs (link_id h k) = (None, None)" "j \<le> length gs"
    and "\<forall>g \<in> set gs. gpu_present g fs"
  shows "create_loop gpushare_operator h 0 gs (crash_host h gs j False fs) = create_loop gpushare_operator h 0 gs fs"
proof -
  let ?fs1 = "crash_host h gs j False fs"
  note C = crash_links [OF assms(1-3)]
  have fs1: "?fs1 = snd (create_loop gpushare_operator h 0 (take j gs) fs)" by (simp add: crash_host_def)
  have "create_loop gpushare_operator h 0 (take j gs) ?fs1 = (None, ?fs1)"
  proof (rule create_loop_again)
    show "links_writable ?fs1" using C(2) fs1 by simp
    show "\<forall>k < length (take j gs). node_at ?fs1 (sym_link (link_id h (0 + k))) = Some (Symlink (gpu_node (take j gs ! k)))
        \<and> gpu_present (take j gs ! k) ?fs1"
      using C(3,5) assms(3,4) by (auto simp: fs1 links_of_def links_to_def)
  qed
  moreover have "create_loop gpushare_operator h 0 (take j gs @ drop j gs) fs' =
      create_loop gpushare_operator h (0 + length (take j gs)) (drop j gs) ?fs1"
    if "create_loop gpushare_operator h 0 (take j gs) fs' = (None, ?fs1)" for fs'
    unfolding create_loop_append that by simp
  ultimately show ?thesis using C(1) fs1 by (metis append_take_drop_id)
qed

text \<open>After one in the middle of \<open>Create\<close> the control link of that card is never made.\<close>

lemma retry_half:
  assumes "links_writable fs" "\<forall>k < length gs. links_of fs (link_id h k) = (None, None)" "j < length gs"
    and "\<forall>g \<in> set gs. gpu_present g fs"
  defines "fs' \<equiv> snd (create_loop gpushare_operator h 0 gs (crash_host h gs j True fs))"
  shows "create_loop gpushare_operator h 0 gs (crash_host h gs j True fs) = (None, fs')" "links_writable fs'"
    and "links_of fs' (link_id h j) = (Some (Symlink (gpu_node (gs ! j))), None)"
    and "k < length gs \<Longrightarrow> k \<noteq> j \<Longrightarrow> links_of fs' (link_id h k) = links_to (gs ! k)"
proof -
  let ?fs1 = "snd (create_loop gpushare_operator h 0 (take j gs) fs)"
  let ?fs2 = "crash_host h gs j True fs"
  have j: "j \<le> length gs" using assms(3) by simp
  note C = crash_links [OF assms(1,2) j]
  have none: "links_of ?fs1 (link_id h k) = (None, None)" if "j \<le> k" "k < length gs" for k
    using C(4) [OF that(1)] assms(2) that(2) by simp
  have free: "node_at ?fs1 (sym_link (link_id h j)) = None" using none [of j] assms(3) by (simp add: links_of_def)
  have fs2: "?fs2 = ?fs1\<lparr>nodes := amap_put (sym_link (link_id h j)) (Symlink (gpu_node (gs ! j))) (nodes ?fs1)\<rparr>"
    using os_Symlink_fresh [OF links_writableD(1) [OF C(2)] free] by (simp add: crash_host_def)
  have w: "links_writable ?fs2" using C(2) by (simp add: fs2 links_writable_def)
  have node: "node_at ?fs2 p = (if p = sym_link (link_id h j) then Some (Symlink (gpu_node (gs ! j))) else node_at ?fs1 p)" for p
    by (simp add: fs2 node_at_def)
  have links: "links_of ?fs2 (link_id h k) =
      (if k = j then (Some (Symlink (gpu_node (gs ! j))), None) else links_of ?fs1 (link_id h k))" for k
    using none [of j] assms(3) by (simp add: links_of_def node)
  have "create_loop gpushare_operator h 0 (take (Suc j) gs) ?fs2 = (None, ?fs2)"
  proof (rule create_loop_again [OF w])
    have "gpu_present g ?fs2" if g: "g \<in> set gs" for g
    proof (rule gpu_present_cong)
      show "gpu_present g ?fs1" using C(5) assms(4) g by blast
      show "node_at ?fs2 p = node_at ?fs1 p" if "\<not> is_link_path p" for p
        unfolding node using that by (simp add: is_link_path_def)
    qed
    moreover have "node_at ?fs2 (sym_link (link_id h k)) = Some (Symlink (gpu_node (gs ! k)))" if "k < Suc j" for k
      using that C(3) [of k] links [of k] by (cases "k = j") (auto simp: links_of_def links_to_def)
    ultimately show "\<forall>k < length (take (Suc j) gs). node_at ?fs2 (sym_link (link_id h (0 + k))) =
        Some (Symlink (gpu_node (take (Suc j) gs ! k))) \<and> gpu_present (take (Suc j) gs ! k) ?fs2"
      by simp
  qed
  then have "create_loop gpushare_operator h 0 (take (Suc j) gs @ drop (Suc j) gs) ?fs2 =
      create_loop gpushare_operator h (0 + length (take (Suc j) gs)) (drop (Suc j) gs) ?fs2"
    unfolding create_loop_append by simp
  then have loop: "create_loop gpushare_operator h 0 gs ?fs2 = create_loop gpushare_operator h (Suc j) (drop (Suc j) gs) ?fs2"
    using assms(3) by (simp add: min_def)
  have "\<forall>k < length (drop (Suc j) gs). links_of ?fs2 (link_id h (Suc j + k)) = (None, None)"
    using links none by simp
  note made = gpushare.create_loop_made [OF w this]
  show "create_loop gpushare_operator h 0 gs ?fs2 = (None, fs')" "links_writable fs'"
    using made(1,2) by (simp_all add: fs'_def loop prod_eq_iff)
  have frame: "links_of fs' (link_id h k) = links_of ?fs2 (link_id h k)" if "k \<le> j" for k
    unfolding fs'_def loop using that by (intro gpushare.create_loop_frame) auto
  show "links_of fs' (link_id h j) = (Some (Symlink (gpu_node (gs ! j))), None)" using frame [of j] links [of j] by simp
  show "links_of fs' (link_id h k) = links_to (gs ! k)" if "k < length gs" "k \<noteq> j"
  proof (cases "k < j")
    case True
    then show ?thesis using frame [of k] links [of k] C(3) by simp
  next
    case False
    then have k: "Suc j + (k - Suc j) = k" "k - Suc j < length (drop (Suc j) gs)" using that by auto
    have "links_of fs' (link_id h (Suc j + (k - Suc j))) = links_to (drop (Suc j) gs ! (k - Suc j))"
      unfolding fs'_def loop using made(3) k(2) by blast
    moreover have "drop (Suc j) gs ! (k - Suc j) = gs ! k" using k that(1) by (simp only: nth_drop)
    ultimately show ?thesis unfolding k(1) by simp
  qed
qed

section \<open>The restart and the second call\<close>

text \<open>
  The crash in a call for the devices \<open>ids\<close>, the restart of the agent on what it left, and the
  second call for them, once the agent has its pods again.
\<close>

definition crash_restart_retry ::
  "string \<Rightarrow> string list \<Rightarrow> int list \<Rightarrow> nat \<Rightarrow> bool \<Rightarrow> mgr_env \<Rightarrow> flags \<Rightarrow> PodSitter \<Rightarrow> kubelet \<Rightarrow> node_state
   \<Rightarrow> (unit res \<times> node_state) option"
where
  "crash_restart_retry r ids gs j half env fl st kl s =
     (case s of (ag, gp) \<Rightarrow>
        (case node_next (EvRestart env fl) (ag\<lparr>host := crash_host (hash (sort ids)) gs j half (host ag)\<rparr>, gp) of
           None \<Rightarrow> None
         | Some (_, s1) \<Rightarrow>
             (case node_next (EvPods st) s1 of
                None \<Rightarrow> None
              | Some (_, s2) \<Rightarrow> node_next (EvPreStart r kl ids) s2)))"

text \<open>
  What is asked of the environment: the call is one for new devices of a container that was given
  the cards \<open>gs\<close>, which exist; the agent starts on the files and the database that were left; and
  the kubelet and the API server answer the second call.
\<close>

definition retry_ready ::
  "string \<Rightarrow> string list \<Rightarrow> int list \<Rightarrow> nat \<Rightarrow> bool \<Rightarrow> mgr_env \<Rightarrow> flags \<Rightarrow> PodSitter \<Rightarrow> kubelet \<Rightarrow> PodContainer \<Rightarrow> agent \<Rightarrow> bool"
where
  "retry_ready r ids gs j half env fl st kl pc ag \<longleftrightarrow>
     ids \<noteq> [] \<and> list_all utf8_valid ids \<and> length gs = link_count (NewDevice ids r)
     \<and> (\<forall>g \<in> set gs. - (2 ^ 63) \<le> g \<and> g < 2 ^ 63 \<and> gpu_present g (host ag))
     \<and> devices_new (Storage ag) pc (NewDevice ids r) \<and> fits (Storage ag) pc (NewDevice ids r)
     \<and> image (me_disk env (fl_dbfile fl)) = buckets (Storage ag) \<and> disk_fault (me_disk env (fl_dbfile fl)) = None
     \<and> me_host env = crash_host (hash (sort ids)) gs j half (host ag) \<and> me_dial env r = None
     \<and> answer_ok (answer kl)
     \<and> assigned kl r ids (ag\<lparr>DeviceLocator := [r \<mapsto> NewKubeletDeviceLocator r None], Sitter := st\<rparr>) pc (gpus_text gs)"

lemma parse_for_text:
  assumes "gs \<noteq> []" "\<forall>g \<in> set gs. - (2 ^ 63) \<le> g \<and> g < 2 ^ 63" "length gs = link_count (NewDevice ids r)"
  shows "parse_for r (gpus_text gs) = Some gs"
proof (cases "r = ResourceGPUMemory")
  case True
  then have "length gs = 1" using assms(3) by (simp add: link_count_def)
  then obtain g where "gs = [g]" by (cases gs) auto
  with assms(2) True show ?thesis by (simp add: parse_for_def atoi_itoa)
next
  case False
  with assms(1,2) show ?thesis by (simp add: parse_for_def parse_gpus_text)
qed

lemma crash_host_ok: "fs_ok fs \<Longrightarrow> fs_ok (crash_host h gs j half fs)"
  by (simp add: crash_host_def Let_def create_loop_fs os_Symlink_ok)

lemma fits_cong: "pods_of db' = pods_of db \<Longrightarrow> fits db' pc d \<longleftrightarrow> fits db pc d"
  by (simp add: fits_def with_device_def record_of_def)

lemma agent_main_locators:
  assumes "agent_main env fl = Ok (m, ag, gp)" "r \<in> {ResourceGPUCore, ResourceGPUMemory}"
  shows "DeviceLocator ag r = Some (NewKubeletDeviceLocator r (me_dial env r))"
  using assms unfolding agent_main_Ok by (auto elim!: forw_subst [of ag])

lemma retry_runs:
  assumes "good ag" "node_inv (ag, gp)" "retry_ready r ids gs j half env fl st kl pc ag"
    and "crash_restart_retry r ids gs j half env fl st kl (ag, gp) = Some (y, ag3, gp3)"
  obtains ag2 where "link_and_record pc (NewDevice ids r) gs ag2 = (y, ag3)"
    and "host ag2 = crash_host (hash (sort ids)) gs j half (host ag)" "Operator ag2 = gpushare_operator"
    and "pods_of (Storage ag2) = pods_of (Storage ag)" "recordable (Storage ag2) pc (NewDevice ids r)"
    and "recordable (Storage ag) pc (NewDevice ids r)" "Sitter ag2 = st" "gs \<noteq> []"
proof -
  let ?d = "NewDevice ids r" and ?fs = "crash_host (hash (sort ids)) gs j half (host ag)"
  have ready: "ids \<noteq> []" "list_all utf8_valid ids" "length gs = link_count ?d" "\<forall>g \<in> set gs. - (2 ^ 63) \<le> g \<and> g < 2 ^ 63"
      "fits (Storage ag) pc ?d" "image (me_disk env (fl_dbfile fl)) = buckets (Storage ag)"
      "disk_fault (me_disk env (fl_dbfile fl)) = None" "me_host env = ?fs" "me_dial env r = None" "answer_ok (answer kl)"
      "assigned kl r ids (ag\<lparr>DeviceLocator := [r \<mapsto> NewKubeletDeviceLocator r None], Sitter := st\<rparr>) pc (gpus_text gs)"
    using assms(3) by (simp_all add: retry_ready_def)
  have gs: "gs \<noteq> []" using ready(3) link_count_pos [of ?d] by auto
  obtain m ag1 gp1 where main: "agent_main env fl = Ok (m, ag1, gp1)"
      "node_next (EvPreStart r kl ids) (ag1\<lparr>Sitter := st\<rparr>, gp1) = Some (y, ag3, gp3)"
    using assms(4) by (auto simp: crash_restart_retry_def split: option.splits res.splits)
  note parts = agent_main_parts [OF main(1)]
  let ?ag2 = "ag1\<lparr>Sitter := st\<rparr>"
  have st: "usable (Storage ag1)" "pods_of (Storage ag1) = pods_of (Storage ag)"
    using good_restart [OF assms(1) parts(5) ready(6,7)] by simp_all
  obtain srv bp where bp: "map_of gp1 r = Some (srv, bp)" "prestart_with (parse_for r) bp kl ids ?ag2 = (y, ag3)"
    using main(2) unfolding prestart_with_for [symmetric] by (auto split: option.splits prod.splits)
  then have r: "bp_ResourceName bp = r" "r \<in> {ResourceGPUCore, ResourceGPUMemory}"
    using parts(1) map_of_SomeD [OF bp(1)] by (auto simp: plugins_ok_def)
  have "assigned kl r ids ?ag2 pc (gpus_text gs)"
  proof (rule assigned_cong [THEN iffD1])
    show "assigned kl r ids (ag\<lparr>DeviceLocator := [r \<mapsto> NewKubeletDeviceLocator r None], Sitter := st\<rparr>) pc (gpus_text gs)"
      using ready(11) .
    show "DeviceLocator (ag\<lparr>DeviceLocator := [r \<mapsto> NewKubeletDeviceLocator r None], Sitter := st\<rparr>) r = DeviceLocator ?ag2 r"
      using agent_main_locators [OF main(1) r(2)] ready(9) by simp
  qed simp
  then have loc: "locate_assumed kl ?d r ?ag2 = (Ok (pc, gpus_text gs), ?ag2)"
    using locate_assumed_ok ready(1) by blast
  have run: "link_and_record pc ?d gs ?ag2 = (y, ag3)"
    using bp(2) ready(1) loc r(1) parse_for_text [OF gs ready(4,3)] by (simp add: prestart_with_def)
  have "node_inv (ag\<lparr>host := ?fs\<rparr>, gp)" using assms(2) crash_host_ok by (simp add: node_inv_def agent_inv_def)
  moreover have "event_ok (EvRestart env fl) (ag\<lparr>host := ?fs\<rparr>, gp)" using ready(6,8) by simp
  moreover have "node_next (EvRestart env fl) (ag\<lparr>host := ?fs\<rparr>, gp) = Some (Ok (), ag1, gp1)" using main(1) by simp
  ultimately have inv: "agent_inv ag1" using node_next_inv by (metis fst_conv node_inv_def)
  have pc: "container_ok pc"
    using locate_assumed_keeps(3) [OF _ r(2) ready(10) loc refl] inv by (simp add: agent_inv_def)
  have "recordable (Storage ?ag2) pc ?d"
    using recordable_fits [OF _ _ pc ready(2) r(2)] inv st fits_cong [OF st(2)] ready(5) by (simp add: agent_inv_def)
  moreover have "recordable (Storage ag) pc ?d"
    using recordable_fits [OF _ _ pc ready(2) r(2) ready(5)] assms(1,2) by (simp add: node_inv_def agent_inv_def good_def)
  ultimately show ?thesis
    using that [OF run] parts(3,4) ready(8) st(2) gs by simp
qed

lemma retry_heals:
  assumes "good ag" "node_inv (ag, gp)" "retry_ready r ids gs j False env fl st kl pc ag" "j \<le> length gs"
    and "crash_restart_retry r ids gs j False env fl st kl (ag, gp) = Some (y, ag3, gp3)"
  shows "y = Ok ()" "good ag3" "host ag3 = snd (create_loop gpushare_operator (hash (sort ids)) 0 gs (host ag))"
    and "((pc_Namespace pc, pc_Name pc), pc_Container pc, NewDevice ids r) \<in> recorded (Storage ag3)"
proof -
  let ?d = "NewDevice ids r" and ?h = "hash (sort ids)"
  let ?fs = "snd (create_loop gpushare_operator ?h 0 gs (host ag))"
  obtain ag2 where ag2: "link_and_record pc ?d gs ag2 = (y, ag3)"
      "host ag2 = crash_host ?h gs j False (host ag)" "Operator ag2 = gpushare_operator"
      "pods_of (Storage ag2) = pods_of (Storage ag)" "recordable (Storage ag2) pc ?d" "recordable (Storage ag) pc ?d"
    using retry_runs [OF assms(1-3,5)] by metis
  have g: "links_writable (host ag)" "Operator ag = gpushare_operator" "records_full (Storage ag)" "balanced ag"
    using assms(1) by (simp_all add: good_def)
  have new: "devices_new (Storage ag) pc ?d" "length gs = link_count ?d" "\<forall>g \<in> set gs. gpu_present g (host ag)"
    using assms(3) by (simp_all add: retry_ready_def)
  have free: "\<forall>k < length gs. links_of (host ag) (link_id ?h k) = (None, None)"
    using devices_new_free [OF g(3) new(1)] g(4) unfolding balanced_def by (metis hash_no_dash NewDevice_simps(1))
  have loop: "create_loop gpushare_operator ?h 0 gs (host ag2) = (None, ?fs)"
    using retry_whole [OF g(1) free assms(4) new(3)] gpushare.create_loop_made(1) [OF g(1), of gs ?h 0] free ag2(2)
    by (simp add: prod_eq_iff)
  have rec2: "fst (record_device pc ?d (Storage ag2)) = Ok ()" using record_device_ok(1) [OF ag2(5)] .
  have state: "y = Ok ()" "ag3 = ag2\<lparr>host := ?fs, Storage := snd (record_device pc ?d (Storage ag2))\<rparr>"
    using ag2(1,3) loop rec2 by (auto simp: link_and_record_def split: prod.splits res.splits)
  show "y = Ok ()" "host ag3 = ?fs" using state by simp_all
  have whole: "snd (link_and_record pc ?d gs ag) = ag\<lparr>host := ?fs, Storage := snd (record_device pc ?d (Storage ag))\<rparr>"
    using link_and_record_ok [OF g(2,1), of gs ?d pc] free ag2(6) by simp
  have good: "good (snd (link_and_record pc ?d gs ag))"
    using good_linked [OF assms(1) ag2(6) _ new(2,1)] by simp
  have wd: "with_device (Storage ag2) pc ?d = with_device (Storage ag) pc ?d"
    using ag2(4) by (simp add: with_device_def record_of_def)
  have pods: "pods_of (Storage ag3) = (pods_of (Storage ag))((pc_Namespace pc, pc_Name pc) \<mapsto> with_device (Storage ag) pc ?d)"
    using record_device_ok(2) [OF ag2(5)] state(2) wd ag2(4) by simp
  show "good ag3"
  proof (rule good_pods_cong [OF good])
    show "host ag3 = host (snd (link_and_record pc ?d gs ag))" "Operator ag3 = Operator (snd (link_and_record pc ?d gs ag))"
      using state(2) whole ag2(3) g(2) by simp_all
    show "usable (Storage ag3)" using record_device_ok(3) [OF ag2(5)] state(2) by simp
    show "pods_of (Storage ag3) = pods_of (Storage (snd (link_and_record pc ?d gs ag)))"
      using pods record_device_ok(2) [OF ag2(6)] whole by simp
  qed
  obtain m where "ContainerDeviceMap (with_device (Storage ag) pc ?d) = Some (amap_put (pc_Container pc) (Some ?d) m)"
    using ag2(6) by (auto simp: recordable_def with_device_def)
  then show "((pc_Namespace pc, pc_Name pc), pc_Container pc, ?d) \<in> recorded (Storage ag3)"
    using pods by (simp add: recorded_def)
qed

section \<open>What a half made pair of links does to the collector\<close>

lemma Delete_no_ctl: "node_at fs (ctl_link eid) = None \<Longrightarrow> fst (GPUShare_Delete G i eid fs) \<noteq> None"
proof -
  assume none: "node_at fs (ctl_link eid) = None"
  obtain e fs1 where fs1: "os_Remove (sym_link eid) fs = (e, fs1)" by force
  then have "node_at fs1 (ctl_link eid) = None"
    using os_Remove_other [of "ctl_link eid" "sym_link eid" fs] none by simp
  then obtain e' where "os_Remove (ctl_link eid) fs1 = (Some e', fs1)" using os_Remove_missing by blast
  with fs1 show ?thesis by (simp add: GPUShare_Delete_def Let_def split: option.split)
qed

lemma delete_seq_half:
  "i \<in> set is \<Longrightarrow> node_at fs (ctl_link (link_id h i)) = None \<Longrightarrow> fst (delete_seq gpushare_operator h is fs) \<noteq> None"
proof (induction "is" arbitrary: fs)
  case (Cons k ks)
  show ?case
  proof (cases "k = i")
    case True
    with Cons.prems(2) Delete_no_ctl [of fs "link_id h i" NewGPUShareOperator UselessNumber] show ?thesis
      by (auto split: prod.split option.split)
  next
    case False
    let ?fs1 = "snd (GPUShare_Delete NewGPUShareOperator UselessNumber (link_id h k) fs)"
    have "node_at ?fs1 (ctl_link (link_id h i)) = None"
      using Delete_other [of "ctl_link (link_id h i)" "link_id h k"] Cons.prems(2) False by simp
    with Cons.IH [of ?fs1] Cons.prems(1) False show ?thesis by (auto split: prod.split option.split)
  qed
qed simp

lemma Delete_sym_gone:
  assumes "links_writable fs" "node_at fs (sym_link eid) = Some (Symlink t)"
  shows "node_at (snd (GPUShare_Delete G i eid fs)) (sym_link eid) = None"
proof -
  have sym: "os_Remove (sym_link eid) fs = (None, fs\<lparr>nodes := amap_del (sym_link eid) (nodes fs)\<rparr>)"
    using os_Remove_link [OF links_writableD(1) [OF assms(1)] assms(2)] .
  have "node_at (snd (os_Remove (ctl_link eid) (snd (os_Remove (sym_link eid) fs)))) (sym_link eid) = None"
    using os_Remove_other [of "sym_link eid" "ctl_link eid" "snd (os_Remove (sym_link eid) fs)"] sym by (simp add: node_at_def)
  with Delete_states [of G i eid fs] sym show ?thesis by (auto simp: node_at_def)
qed

lemma half_round:
  assumes "usable (Storage ag)" "Operator ag = gpushare_operator" "links_writable (host ag)" "gc_wakes ev"
    and "gc_work ord ag = [l]" "ln_device l = Some d" "j < link_count d"
    and "node_at (host ag) (ctl_link (link_id (Hash d) j)) = None" "node_at (host ag) (sym_link (link_id (Hash d) 0)) = Some (Symlink t)"
  shows "\<exists>fs. gc_round ord ev ag = (Ok (), ag\<lparr>host := fs\<rparr>) \<and> node_at fs (sym_link (link_id (Hash d) 0)) = None"
proof -
  obtain e fs1 where fs1: "GPUShare_Delete NewGPUShareOperator UselessNumber (link_id (Hash d) 0) (host ag) = (e, fs1)" by force
  have gone: "node_at fs1 (sym_link (link_id (Hash d) 0)) = None"
    using Delete_sym_gone [OF assms(3,9), of NewGPUShareOperator UselessNumber] fs1 by simp
  have round: "gc_round ord ev ag = gc_lines [l] ag"
    using gc_round_lines [of ag ev ord] assms(1,4,5) by (simp add: usable_def)
  show ?thesis
  proof (cases e)
    case (Some x)
    with round fs1 assms(2,6) gone show ?thesis by auto
  next
    case None
    have "j \<noteq> 0" using Delete_no_ctl [of "host ag" "link_id (Hash d) 0"] assms(8) fs1 None by (metis fst_conv)
    then have many: "link_count d = length (DevList d) div 100" "ResourceName d = ResourceGPUCore \<and> length (DevList d) > 100"
      using assms(7) by (auto simp: link_count_def split: if_splits)
    have "node_at fs1 (ctl_link (link_id (Hash d) j)) = None"
      using Delete_other [of "ctl_link (link_id (Hash d) j)" "link_id (Hash d) 0" NewGPUShareOperator UselessNumber "host ag"]
        fs1 assms(8) \<open>j \<noteq> 0\<close> by simp
    then obtain e' fs2 where fs2: "delete_seq gpushare_operator (Hash d) [1..<length (DevList d) div 100] fs1 = (Some e', fs2)"
      using delete_seq_half [of j "[1..<length (DevList d) div 100]" fs1 "Hash d"] \<open>j \<noteq> 0\<close> assms(7) many(1)
      by (cases "delete_seq gpushare_operator (Hash d) [1..<length (DevList d) div 100] fs1") auto
    have "links_of fs2 (link_id (Hash d) 0) = links_of fs1 (link_id (Hash d) 0)"
      using gpushare.delete_seq_frame [of "[1..<length (DevList d) div 100]" "link_id (Hash d) 0" "Hash d" fs1] fs2 by simp
    then have "node_at fs2 (sym_link (link_id (Hash d) 0)) = None" using gone by (simp add: links_of_def)
    with round fs1 None fs2 assms(2,6) many(2) show ?thesis by auto
  qed
qed

lemma half_blocks:
  assumes "usable (Storage ag)" "Operator ag = gpushare_operator" "links_writable (host ag)"
    and "gc_work ord ag = [l]" "ln_device l = Some d" "j < link_count d"
    and "node_at (host ag) (ctl_link (link_id (Hash d) j)) = None" "node_at (host ag) (sym_link (link_id (Hash d) 0)) = Some (Symlink t)"
  shows "Storage (((\<lambda>x. snd (gc_round ord ev x)) ^^ n) ag) = Storage ag"
proof (cases "gc_wakes ev")
  case True
  obtain fs where fs: "gc_round ord ev ag = (Ok (), ag\<lparr>host := fs\<rparr>)" "node_at fs (sym_link (link_id (Hash d) 0)) = None"
    using half_round [OF assms(1-3) True assms(4-8)] by blast
  let ?ag = "ag\<lparr>host := fs\<rparr>"
  have "gc_work ord ?ag = [l]" using assms(4) by (simp add: gc_work_def gone_pods_def)
  then have later: "((\<lambda>x. snd (gc_round ord ev x)) ^^ k) ?ag = ?ag" for k
    using gc_blocked_by_missing_link [of ?ag ord l "[]" d k ev] assms(1,2,5) fs(2) by (simp add: usable_def)
  show ?thesis
  proof (cases n)
    case (Suc k)
    then have "((\<lambda>x. snd (gc_round ord ev x)) ^^ n) ag = ((\<lambda>x. snd (gc_round ord ev x)) ^^ k) ?ag"
      using fs(1) by (simp add: funpow_Suc_right del: funpow.simps)
    with later show ?thesis by simp
  qed simp
next
  case False
  then have "((\<lambda>x. snd (gc_round ord ev x)) ^^ n) ag = ag" by (induction n) (simp_all add: gc_round_def)
  then show ?thesis by simp
qed

lemma retry_leaves_half:
  assumes "good ag" "node_inv (ag, gp)" "retry_ready r ids gs j True env fl st kl pc ag" "j < length gs"
    and "crash_restart_retry r ids gs j True env fl st kl (ag, gp) = Some (y, ag3, gp3)"
  shows "y = Ok ()" "links_of (host ag3) (link_id (hash (sort ids)) j) = (Some (Symlink (gpu_node (gs ! j))), None)"
    and "pods_of (Storage ag3) = (pods_of (Storage ag))((pc_Namespace pc, pc_Name pc) \<mapsto> with_device (Storage ag) pc (NewDevice ids r))"
    and "usable (Storage ag3)" "Operator ag3 = gpushare_operator" "links_writable (host ag3)"
    and "\<exists>t. node_at (host ag3) (sym_link (link_id (hash (sort ids)) 0)) = Some (Symlink t)"
proof -
  let ?d = "NewDevice ids r" and ?h = "hash (sort ids)"
  obtain ag2 where ag2: "link_and_record pc ?d gs ag2 = (y, ag3)"
      "host ag2 = crash_host ?h gs j True (host ag)" "Operator ag2 = gpushare_operator"
      "pods_of (Storage ag2) = pods_of (Storage ag)" "recordable (Storage ag2) pc ?d"
    using retry_runs [OF assms(1-3,5)] by metis
  have g: "links_writable (host ag)" "records_full (Storage ag)" "balanced ag"
    using assms(1) by (simp_all add: good_def)
  have new: "devices_new (Storage ag) pc ?d" "length gs = link_count ?d" "\<forall>g \<in> set gs. gpu_present g (host ag)"
    using assms(3) by (simp_all add: retry_ready_def)
  have free: "\<forall>k < length gs. links_of (host ag) (link_id ?h k) = (None, None)"
    using devices_new_free [OF g(2) new(1)] g(3) unfolding balanced_def by (metis hash_no_dash NewDevice_simps(1))
  note H = retry_half [OF g(1) free assms(4) new(3)]
  let ?fs = "snd (create_loop gpushare_operator ?h 0 gs (crash_host ?h gs j True (host ag)))"
  have state: "y = Ok ()" "ag3 = ag2\<lparr>host := ?fs, Storage := snd (record_device pc ?d (Storage ag2))\<rparr>"
    using ag2(1,2,3) H(1) record_device_ok(1) [OF ag2(5)] by (auto simp: link_and_record_def split: prod.splits res.splits)
  show "y = Ok ()" "Operator ag3 = gpushare_operator" using state ag2(3) by simp_all
  show "links_of (host ag3) (link_id ?h j) = (Some (Symlink (gpu_node (gs ! j))), None)" "links_writable (host ag3)"
    using H(2,3) state(2) by simp_all
  have "with_device (Storage ag2) pc ?d = with_device (Storage ag) pc ?d"
    using ag2(4) by (simp add: with_device_def record_of_def)
  then show "pods_of (Storage ag3) = (pods_of (Storage ag))((pc_Namespace pc, pc_Name pc) \<mapsto> with_device (Storage ag) pc ?d)"
    using record_device_ok(2) [OF ag2(5)] state(2) ag2(4) by simp
  show "usable (Storage ag3)" using record_device_ok(3) [OF ag2(5)] state(2) by simp
  have "gs \<noteq> []" using assms(4) by auto
  then have "\<exists>t. node_at ?fs (sym_link (link_id ?h 0)) = Some (Symlink t)"
    using H(3) H(4) [of 0] assms(4) by (cases "j = 0") (auto simp: links_of_def links_to_def)
  then show "\<exists>t. node_at (host ag3) (sym_link (link_id ?h 0)) = Some (Symlink t)" using state(2) by simp
qed

section \<open>An instance\<close>

definition demo_restart :: "bool \<Rightarrow> mgr_env" where
  "demo_restart half = demo_start
     \<lparr>me_disk := (\<lambda>_. \<lparr>mkdir_err = None, open_err = None, image = buckets demo_db, disk_fault = None\<rparr>),
      me_host := crash_host (hash (sort demo_ids)) [0] 0 half demo_host\<rparr>"

lemma demo_retry:
  obtains gp y ag3 gp3 where "orderly_reach (demo_both, gp)"
    and "retry_ready ResourceGPUCore demo_ids [0] 0 half (demo_restart half) demo_flags demo_sitter demo_kubelet demo_container demo_both"
    and "crash_restart_retry ResourceGPUCore demo_ids [0] 0 half (demo_restart half) demo_flags demo_sitter demo_kubelet (demo_both, gp)
      = Some (y, ag3, gp3)"
proof -
  let ?d = "NewDevice demo_ids ResourceGPUCore"
  obtain gp where gp: "orderly_reach (demo_both, gp)" using demo_orderly_before .
  have "recorded demo_db = {}"
    by (simp add: recorded_def demo_db_def pods_of_def root_of_def split: prod.split)
  then have new: "devices_new demo_db demo_container ?d" by (simp add: devices_new_def)
  have fits: "fits demo_db demo_container ?d"
    using demo_recordable by (simp add: recordable_def storable_def fits_def ResourceGPUCore_def)
  have call: "assigned demo_kubelet ResourceGPUCore demo_ids demo_both demo_container (gpus_text [0])"
    using demo_both_fresh by (simp add: fresh_start_def)
  have asg: "assigned demo_kubelet ResourceGPUCore demo_ids
      (demo_both\<lparr>DeviceLocator := [ResourceGPUCore \<mapsto> NewKubeletDeviceLocator ResourceGPUCore None], Sitter := demo_sitter\<rparr>)
      demo_container (gpus_text [0])"
    by (rule assigned_cong [THEN iffD1, OF _ _ call])
      (simp_all add: demo_both_def demo_locator_def ResourceGPUCore_def ResourceGPUMemory_def)
  have start: "\<exists>m ag1 gp1. agent_main (demo_restart half) demo_flags = Ok (m, ag1, gp1)"
  proof -
    have "NewStorage (me_disk (demo_restart half) (fl_dbfile demo_flags)) = Ok demo_db"
      using NewStorage_reopen [OF demo_db_usable] by (simp add: demo_restart_def)
    moreover have "manager_clients (demo_restart half) (manager_of demo_flags) = Ok ()"
      by (simp add: manager_clients_def manager_of_def demo_restart_def demo_start_def demo_env_def demo_flags_def
          default_flags_def MustNewClientInCluster_def NewClientInCluster_def)
    moreover have "nvml_ok (me_nvml (demo_restart half))"
      by (simp add: nvml_ok_def demo_restart_def demo_start_def demo_env_def demo_nvml_def)
    moreover have "fl_gpuPluginName demo_flags = ''gpushare''" by (simp add: demo_flags_def)
    ultimately have "\<exists>x. agent_main (demo_restart half) demo_flags = Ok x"
      using agent_main_starts [THEN conjunct1, of "demo_restart half" demo_flags] by blast
    then show ?thesis by (metis prod_cases3)
  qed
  then obtain m ag1 gp1 where main: "agent_main (demo_restart half) demo_flags = Ok (m, ag1, gp1)" by blast
  then obtain srv bp where bp: "map_of gp1 ResourceGPUCore = Some (srv, bp)"
    using agent_main_parts(1) [OF main] by (cases gp1) (auto simp: plugins_ok_def)
  obtain y ag3 where "PreStartContainer_core bp demo_kubelet demo_ids (ag1\<lparr>Sitter := demo_sitter\<rparr>) = (y, ag3)" by force
  then have run: "crash_restart_retry ResourceGPUCore demo_ids [0] 0 half (demo_restart half) demo_flags demo_sitter demo_kubelet (demo_both, gp)
      = Some (y, ag3, gp1)"
    using main bp by (simp add: crash_restart_retry_def)
  have "answer_ok (answer demo_kubelet)" "list_all utf8_valid demo_ids"
    by (simp add: demo_kubelet_def, code_simp) code_simp
  then have "retry_ready ResourceGPUCore demo_ids [0] 0 half (demo_restart half) demo_flags demo_sitter demo_kubelet demo_container demo_both"
    using new fits asg demo_host_ok(3)
    by (simp add: retry_ready_def demo_restart_def demo_start_def demo_env_def link_count_def del: gpus_text_single utf8_valid.simps)
  with that gp run show ?thesis by blast
qed

section \<open>Properties\<close>

text \<open>
  C21: A pre-start call that dies between two cards is made good by the next one: when the agent has
  been restarted on what was left and the kubelet calls again for the same devices, the call
  succeeds, the files are those an undisturbed call would have left, the devices are recorded, and
  links and records agree again.
\<close>

theorem crash_retry_heals:
  assumes "orderly_reach (ag, gp)" and "retry_ready r ids gs j False env fl st kl pc ag" and "j \<le> length gs"
    and "crash_restart_retry r ids gs j False env fl st kl (ag, gp) = Some (y, ag', gp')"
  shows "y = Ok () \<and> host ag' = snd (create_loop gpushare_operator (hash (sort ids)) 0 gs (host ag))
    \<and> ((pc_Namespace pc, pc_Name pc), pc_Container pc, NewDevice ids r) \<in> recorded (Storage ag')
    \<and> (\<forall>eid. if eid \<in> links_needed (Storage ag') then \<exists>g. links_of (host ag') eid = links_to g
         else links_of (host ag') eid = (None, None))"
proof -
  have "good ag" "node_inv (ag, gp)"
    using orderly_good [OF assms(1)] node_reach_inv [OF orderly_node_reach [OF assms(1)]] by simp_all
  note H = retry_heals [OF this assms(2-4)]
  then have "balanced ag'" by (simp add: good_def)
  with H(1,3,4) show ?thesis unfolding balanced_def by blast
qed

theorem crash_retry_heals_witness:
  "\<exists>gp y ag' gp'. crash_restart_retry ResourceGPUCore demo_ids [0] 0 False (demo_restart False) demo_flags demo_sitter demo_kubelet
      (demo_both, gp) = Some (y, ag', gp') \<and> y = Ok ()
    \<and> host ag' = snd (create_loop gpushare_operator (hash (sort demo_ids)) 0 [0] demo_host)"
proof -
  obtain gp y ag3 gp3 where d: "orderly_reach (demo_both, gp)"
      "retry_ready ResourceGPUCore demo_ids [0] 0 False (demo_restart False) demo_flags demo_sitter demo_kubelet demo_container demo_both"
      "crash_restart_retry ResourceGPUCore demo_ids [0] 0 False (demo_restart False) demo_flags demo_sitter demo_kubelet (demo_both, gp)
        = Some (y, ag3, gp3)"
    using demo_retry .
  from crash_retry_heals [OF d(1,2) _ d(3)] d(3) show ?thesis by (simp only: demo_both_simps) blast
qed

text \<open>
  C22: One that dies between the two links of a card is not: the next call takes the card for done,
  succeeds and records the devices, and the control link of the card is never made; and when the pod,
  of which there was no record before, is gone, and no other recorded pod is, the collector fails on
  the missing link and keeps the record, in this round and in every later one.
\<close>

theorem crash_between_links:
  assumes "orderly_reach (ag, gp)" and "retry_ready r ids gs j True env fl st kl pc ag" and "j < length gs"
    and "crash_restart_retry r ids gs j True env fl st kl (ag, gp) = Some (y, ag', gp')"
    and "pods_of (Storage ag) (pc_Namespace pc, pc_Name pc) = None"
    and "pod_gone st' (NewPI (pc_Namespace pc) (pc_Name pc))"
    and "\<forall>k i. pods_of (Storage ag) k = Some i \<longrightarrow> \<not> pod_gone st' i" and "map_order_ok ord"
  shows "y = Ok () \<and> links_of (host ag') (link_id (hash (sort ids)) j) = (Some (Symlink (gpu_node (gs ! j))), None)
    \<and> ((pc_Namespace pc, pc_Name pc), pc_Container pc, NewDevice ids r) \<in> recorded (Storage ag')
    \<and> Storage (((\<lambda>x. snd (gc_round ord ev x)) ^^ rounds) (ag'\<lparr>Sitter := st'\<rparr>)) = Storage ag'"
proof -
  let ?d = "NewDevice ids r" and ?ag = "ag'\<lparr>Sitter := st'\<rparr>"
  have inv: "good ag" "node_inv (ag, gp)"
    using orderly_good [OF assms(1)] node_reach_inv [OF orderly_node_reach [OF assms(1)]] by simp_all
  note H = retry_leaves_half [OF inv assms(2-4)]
  have w: "ContainerDeviceMap (with_device (Storage ag) pc ?d) = Some [(pc_Container pc, Some ?d)]"
    using assms(5) by (simp add: with_device_def record_of_def NewPI_def)
  have st: "usable (Storage ?ag)" "store_ok (Storage ?ag)" using H(4) by (simp_all add: usable_def)
  have rec: "pods_of (Storage ?ag) (pc_Namespace pc, pc_Name pc) = Some (with_device (Storage ag) pc ?d)" using H(3) by simp
  have work: "gc_work ord ?ag =
      [\<lparr>ln_namespace = pc_Namespace pc, ln_name = pc_Name pc, ln_container = pc_Container pc, ln_device = Some ?d\<rparr>]"
  proof (rule gc_work_single [OF st(2) assms(8) rec w])
    show "pod_gone (Sitter ?ag) (with_device (Storage ag) pc ?d)"
      using assms(6) pod_gone_cong [of "with_device (Storage ag) pc ?d" "NewPI (pc_Namespace pc) (pc_Name pc)"]
      by (simp add: with_device_def record_of_names NewPI_def)
    show "\<forall>k j. k \<noteq> (pc_Namespace pc, pc_Name pc) \<longrightarrow> pods_of (Storage ?ag) k = Some j \<longrightarrow> \<not> pod_gone (Sitter ?ag) j"
      using assms(7) H(3) by simp
  qed
  have j: "j < link_count ?d" using assms(2,3) by (simp add: retry_ready_def)
  obtain t where t: "node_at (host ?ag) (sym_link (link_id (Hash ?d) 0)) = Some (Symlink t)" using H(7) by auto
  have "node_at (host ?ag) (ctl_link (link_id (Hash ?d) j)) = None" using H(2) by (simp add: links_of_def)
  then have "Storage (((\<lambda>x. snd (gc_round ord ev x)) ^^ rounds) ?ag) = Storage ?ag"
    using half_blocks [OF st(1) _ _ work _ j _ t] H(5,6) by simp
  moreover have "((pc_Namespace pc, pc_Name pc), pc_Container pc, ?d) \<in> recorded (Storage ag')"
    using H(3) w by (simp add: recorded_def)
  ultimately show ?thesis using H(1,2) by simp
qed

theorem crash_between_links_witness:
  "\<exists>gp ag' gp' st'. crash_restart_retry ResourceGPUCore demo_ids [0] 0 True (demo_restart True) demo_flags demo_sitter demo_kubelet
      (demo_both, gp) = Some (Ok (), ag', gp')
    \<and> ctl_link (link_id (hash (sort demo_ids)) 0) \<notin> fst ` set (nodes (host ag'))
    \<and> Storage (((\<lambda>x. snd (gc_round (\<lambda>i m. m) GcMinute x)) ^^ 7) (ag'\<lparr>Sitter := st'\<rparr>)) = Storage ag'"
proof -
  let ?st = "NewSitter ''node-1'' (\<lambda>_. None) (\<lambda>_. None)"
  obtain gp y ag3 gp3 where d: "orderly_reach (demo_both, gp)"
      "retry_ready ResourceGPUCore demo_ids [0] 0 True (demo_restart True) demo_flags demo_sitter demo_kubelet demo_container demo_both"
      "crash_restart_retry ResourceGPUCore demo_ids [0] 0 True (demo_restart True) demo_flags demo_sitter demo_kubelet (demo_both, gp)
        = Some (y, ag3, gp3)"
    using demo_retry .
  have gone: "pod_gone ?st (NewPI (pc_Namespace demo_container) (pc_Name demo_container))"
    by (simp add: pod_gone_def GetPod_def GetPodFromApiServer_def NewSitter_def)
  have none: "pods_of (Storage demo_both) k = None" for k
    by (simp add: pods_of_def root_of_def demo_db_def split: prod.split)
  then have others: "\<forall>k i. pods_of (Storage demo_both) k = Some i \<longrightarrow> \<not> pod_gone ?st i" by simp
  have "y = Ok () \<and> links_of (host ag3) (link_id (hash (sort demo_ids)) 0) = (Some (Symlink (gpu_node 0)), None)
    \<and> Storage (((\<lambda>x. snd (gc_round (\<lambda>i m. m) GcMinute x)) ^^ 7) (ag3\<lparr>Sitter := ?st\<rparr>)) = Storage ag3"
    using crash_between_links [where ord = "\<lambda>i m. m" and ev = GcMinute and rounds = 7, OF d(1,2) _ d(3) none gone others]
    by (simp add: map_order_ok_def)
  moreover have "ctl_link (link_id (hash (sort demo_ids)) 0) \<notin> fst ` set (nodes (host ag3))"
    using calculation unfolding links_of_def node_at_def by (metis map_of_eq_None_iff prod.inject)
  ultimately show ?thesis using d(3) by blast
qed

end
