(* ===== verification/Shared_Links.thy ===== *)
theory Shared_Links
  imports Leak_Cases Prestart_Crash
begin

text \<open>
  Two containers with the same device IDs, one of each resource.  Both plugins number their devices
  \<open>card-unit\<close>, and the hash that names the links does not depend on the resource.
\<close>

section \<open>The second start\<close>

text \<open>A link that is there stays, whichever GPU it is made for now.\<close>

lemma shared_create:
  assumes "links_writable fs" "links_of fs (link_id h 0) = links_to g'" "gpu_present g' fs"
  shows "create_loop gpushare_operator h 0 [g] fs = (None, fs)"
proof -
  have "node_at fs (sym_link (link_id h 0)) = Some (Symlink (gpu_node g'))"
    using assms(2) by (simp add: links_of_def links_to_def)
  from Create_again [OF assms(1) this assms(3)] show ?thesis by simp
qed

lemma shared_start:
  assumes "orderly_reach (ag, gp)" "event_ok (EvPreStart r kl ids) (ag, gp)"
    and "node_next (EvPreStart r kl ids) (ag, gp) = Some (x, ag1, gp)"
    and "fst (locate_assumed kl (NewDevice ids r) r ag) = Ok (pc, val)" "parse_for r val = Some [g]" "ids \<noteq> []"
    and "fits (Storage ag) pc (NewDevice ids r)"
    and "links_of (host ag) (link_id (hash (sort ids)) 0) = links_to g'" "gpu_present g' (host ag)"
  shows "x = Ok ()" "host ag1 = host ag" "Operator ag1 = gpushare_operator" "usable (Storage ag1)"
    and "pods_of (Storage ag1) =
      (pods_of (Storage ag))((pc_Namespace pc, pc_Name pc) \<mapsto> with_device (Storage ag) pc (NewDevice ids r))"
    and "((pc_Namespace pc, pc_Name pc), pc_Container pc, NewDevice ids r) \<in> recorded (Storage ag1)"
proof -
  let ?d = "NewDevice ids r"
  have good: "good ag" and inv: "node_inv (ag, gp)"
    using orderly_good [OF assms(1)] node_reach_inv [OF orderly_node_reach [OF assms(1)]] by simp_all
  then have w: "links_writable (host ag)" "Operator ag = gpushare_operator" by (simp_all add: good_def)
  obtain ag0 ag' where c: "(ag1, gp) = (ag', gp)" "link_and_record pc ?d [g] ag0 = (x, ag')"
      "host ag0 = host ag" "Storage ag0 = Storage ag" "Operator ag0 = Operator ag" "node_inv (ag', gp)"
      "container_ok pc" "r \<in> {ResourceGPUCore, ResourceGPUMemory}" "list_all utf8_valid ids"
    by (rule prestart_result [OF inv assms(2-4,6,5)])
  then have call: "link_and_record pc ?d [g] ag0 = (x, ag1)" by simp
  have rec: "recordable (Storage ag) pc ?d"
    using recordable_fits [OF _ _ c(7,9,8) assms(7)] inv good by (simp add: node_inv_def agent_inv_def good_def)
  have "x = Ok () \<and> ag1 = ag0\<lparr>host := host ag, Storage := snd (record_device pc ?d (Storage ag))\<rparr>"
    using call shared_create [OF w(1) assms(8,9), of g] record_device_ok(1) [OF rec] c(3-5) w(2)
    by (auto simp: link_and_record_def simp del: create_loop.simps split: prod.splits res.splits)
  then have x: "x = Ok ()" and ag1: "ag1 = ag0\<lparr>host := host ag, Storage := snd (record_device pc ?d (Storage ag))\<rparr>"
    by blast+
  show "x = Ok ()" by (rule x)
  show "host ag1 = host ag" "Operator ag1 = gpushare_operator" "usable (Storage ag1)"
    using record_device_ok(3) [OF rec] c(5) w(2) by (simp_all add: ag1)
  show pods: "pods_of (Storage ag1) = (pods_of (Storage ag))((pc_Namespace pc, pc_Name pc) \<mapsto> with_device (Storage ag) pc ?d)"
    using record_device_ok(2) [OF rec] by (simp add: ag1)
  obtain m where "ContainerDeviceMap (with_device (Storage ag) pc ?d) = Some (amap_put (pc_Container pc) (Some ?d) m)"
    using rec by (auto simp: recordable_def with_device_def)
  then show "((pc_Namespace pc, pc_Name pc), pc_Container pc, ?d) \<in> recorded (Storage ag1)"
    using pods by (simp add: recorded_def)
qed

text \<open>What is recorded has IDs.\<close>

lemma recorded_ids:
  assumes "orderly_reach (ag, gp)" "(k, c, NewDevice ids r) \<in> recorded (Storage ag)"
  shows "ids \<noteq> []"
proof -
  have "store_inv (Storage ag)"
    using node_reach_inv [OF orderly_node_reach [OF assms(1)]] by (simp add: node_inv_def agent_inv_def)
  moreover obtain i m where "pods_of (Storage ag) k = Some i" "ContainerDeviceMap i = Some m" "(c, Some (NewDevice ids r)) \<in> set m"
    using assms(2) by (auto simp: recorded_def dest: map_of_SomeD)
  ultimately obtain ids' r' where "ids' \<noteq> []" "Some (NewDevice ids r) = Some (NewDevice ids' r')"
    using store_inv_wf by blast
  then have "sort ids = sort ids'" by (simp add: NewDevice_def clone_def Let_def)
  with \<open>ids' \<noteq> []\<close> show ?thesis by (metis set_empty set_sort)
qed

section \<open>The end of the first pod\<close>

text \<open>A round that finds one recorded pod gone removes the links of its devices.\<close>

lemma one_pod_collected:
  assumes "good ag" "usable (Storage ag1)" "Operator ag1 = gpushare_operator" "host ag1 = host ag"
    and "pods_of (Storage ag) (Namespace i, Name i) = Some i" "gone_pods ag1 = [i]"
    and "map_order_ok ord" "gc_wakes ev"
  shows "fst (gc_round ord ev ag1) = Ok ()"
    and "((Namespace i, Name i), c, d) \<in> recorded (Storage ag) \<Longrightarrow> j < link_count d \<Longrightarrow>
      links_of (host (snd (gc_round ord ev ag1))) (link_id (Hash d) j) = (None, None)"
    and "k \<noteq> (Namespace i, Name i) \<Longrightarrow> pods_of (Storage (snd (gc_round ord ev ag1))) k = pods_of (Storage ag1) k"
proof -
  have good: "records_full (Storage ag)" "balanced ag" "links_writable (host ag1)"
    using assms(1,4) by (simp_all add: good_def)
  have full: "record_full i" using good(1) assms(5) unfolding records_full_def by blast
  then obtain m where m: "ContainerDeviceMap i = Some m" "m \<noteq> []" "distinct (map fst m)"
    by (auto simp: record_full_def)
  have devs: "gone_devices ag1 = map snd m" using assms(6) m(1) by (simp add: gone_devices_def)
  have entry: "\<exists>d. p = Some d \<and> ((Namespace i, Name i), c, d) \<in> recorded (Storage ag)" if "(c, p) \<in> set m" for c p
    using recorded_full [OF full m(1) that] assms(5) m(1) by (auto simp: recorded_def)
  have made: "\<forall>x \<in> set (gone_devices ag1). \<exists>d. x = Some d \<and> CHR ''-'' \<notin> set (Hash d)
      \<and> (\<forall>j < link_count d. \<exists>g. links_of (host ag1) (link_id (Hash d) j) = links_to g)"
  proof
    fix x assume "x \<in> set (gone_devices ag1)"
    then obtain c d where d: "x = Some d" "((Namespace i, Name i), c, d) \<in> recorded (Storage ag)"
      using entry unfolding devs by fastforce
    have "\<exists>g. links_of (host ag1) (link_id (Hash d) j) = links_to g" if "j < link_count d" for j
      using links_neededI [OF d(2) that] good(2) assms(4) unfolding balanced_def by (metis (full_types))
    with d recorded_dash [OF good(1) d(2)]
    show "\<exists>d. x = Some d \<and> CHR ''-'' \<notin> set (Hash d)
      \<and> (\<forall>j < link_count d. \<exists>g. links_of (host ag1) (link_id (Hash d) j) = links_to g)" by blast
  qed
  have dist: "distinct (map (Hash \<circ> the) (gone_devices ag1))"
  proof -
    have "inj_on (\<lambda>q. Hash (the (snd q))) (set m)"
    proof (rule inj_onI)
      fix q q' assume q: "q \<in> set m" "q' \<in> set m" "Hash (the (snd q)) = Hash (the (snd q'))"
      obtain d d' where "((Namespace i, Name i), fst q, d) \<in> recorded (Storage ag)" "snd q = Some d"
          "((Namespace i, Name i), fst q', d') \<in> recorded (Storage ag)" "snd q' = Some d'"
        using entry [of "fst q" "snd q"] entry [of "fst q'" "snd q'"] q(1,2) by auto
      with q(3) good(1) have "fst q = fst q'" unfolding records_full_def by (metis option.sel prod.inject)
      with q(1,2) m(3) show "q = q'" by (metis eq_key_imp_eq_value prod.collapse)
    qed
    then show ?thesis using m(3) by (simp add: devs distinct_map o_def)
  qed
  have ne: "\<forall>i \<in> set (gone_pods ag1). \<exists>m. ContainerDeviceMap i = Some m \<and> m \<noteq> []" using assms(6) m by simp
  note C = gc_round_collects [OF assms(2,3) good(3) assms(7,8) ne made dist]
  from C show "fst (gc_round ord ev ag1) = Ok ()" by blast
  show "links_of (host (snd (gc_round ord ev ag1))) (link_id (Hash d) j) = (None, None)"
    if "((Namespace i, Name i), c, d) \<in> recorded (Storage ag)" "j < link_count d"
  proof -
    have "map_of m c = Some (Some d)" using that(1) assms(5) m(1) by (auto simp: recorded_def)
    then have "Some d \<in> set (gone_devices ag1)" unfolding devs by (force dest: map_of_SomeD)
    with C that(2) show ?thesis by blast
  qed
  show "pods_of (Storage (snd (gc_round ord ev ag1))) k = pods_of (Storage ag1) k" if "k \<noteq> (Namespace i, Name i)"
    using C assms(6) that by (cases k) auto
qed

section \<open>An instance\<close>

text \<open>The memory units \<open>0-00\<close> and \<open>0-01\<close> for \<open>train-1\<close>, which is assumed on card 1.\<close>

definition demo_other :: PodContainer where
  "demo_other = \<lparr>pc_Namespace = ''default'', pc_Name = ''train-1'', pc_Container = ''main''\<rparr>"

definition demo_same_units :: kubelet where
  "demo_same_units = \<lparr>dial_err = None, answer = Inr
     [\<lparr>pr_Name = ''train-1'', pr_Namespace = ''default'', pr_Containers =
        [\<lparr>cr_Name = ''main'', cr_Devices =
           [\<lparr>cd_ResourceName = ResourceGPUMemory, cd_DeviceIds = demo_ids\<rparr>]\<rparr>]\<rparr>]\<rparr>"

definition demo_left :: PodSitter where
  "demo_left =
     (NewSitter ''node-1'' (\<lambda>_. None) (\<lambda>_. None))
       \<lparr>lister := [(''default'', ''train-1'') \<mapsto>
          \<lparr>Annotations = [(''elasticgpu.io/assumed'', ''true''), (''elasticgpu.io/container-main'', ''1'')]\<rparr>]\<rparr>"

abbreviation demo_shared :: agent where
  "demo_shared \<equiv> demo_started\<lparr>Sitter := demo_left\<rparr>"

lemma one_text: "gpus_text [1] = ''1''"
  by code_simp

lemma demo_shared_assigned: "assigned demo_same_units ResourceGPUMemory demo_ids demo_shared demo_other (gpus_text [1])"
proof -
  let ?pod = "\<lparr>Annotations = [(''elasticgpu.io/assumed'', ''true''), (''elasticgpu.io/container-main'', ''1'')]\<rparr>"
  show ?thesis
    unfolding assigned_def one_text
    by (intro exI [of _ "NewKubeletDeviceLocator ResourceGPUMemory None"] exI [of _ "[\<lparr>pr_Name = ''train-1'', pr_Namespace = ''default'', pr_Containers =
          [\<lparr>cr_Name = ''main'', cr_Devices = [\<lparr>cd_ResourceName = ResourceGPUMemory, cd_DeviceIds = demo_ids\<rparr>]\<rparr>]\<rparr>]"]
        exI [of _ "[demo_ids]"] exI [of _ ?pod])
      (simp_all add: demo_same_units_def NewKubeletDeviceLocator_def exclusive_def holders_def entries_of_def holds_def
        demo_other_def demo_left_def NewSitter_def ElasticGPUAssumedAnnotation_def demo_started_def demo_both_def)
qed

lemma demo_first_pod:
  "pods_of (Storage demo_started) (''default'', ''train-0'') =
     Some (with_device demo_db demo_container (NewDevice demo_ids ResourceGPUCore))"
  "k \<noteq> (''default'', ''train-0'') \<Longrightarrow> pods_of (Storage demo_started) k = None"
  using record_device_ok(2) [OF demo_core_recordable]
  by (simp_all add: demo_started_def demo_container_def demo_db_def pods_of_def root_of_def split: prod.split)

lemma demo_other_recordable: "recordable (Storage demo_started) demo_other (NewDevice demo_ids ResourceGPUMemory)"
proof (rule small_recordable [where m = "[]"])
  show "usable (Storage demo_started)" using record_device_ok(3) [OF demo_core_recordable] by (simp add: demo_started_def)
  show "ContainerDeviceMap (record_of (Storage demo_started) demo_other) = Some []"
    using demo_first_pod(2) by (simp add: record_of_def demo_other_def NewPI_def)
  have "device_ok (NewDevice demo_ids ResourceGPUMemory)" by (rule device_ok_NewDevice) (simp_all, code_simp)
  moreover have "utf8_valid ''main''" by code_simp
  ultimately show "devmap_ok (Some (amap_put (pc_Container demo_other) (Some (NewDevice demo_ids ResourceGPUMemory)) []))"
    by (simp add: demo_other_def devmap_ok_def amap_ok_def del: utf8_valid.simps)
qed (simp_all add: demo_other_def devmap_size_def device_size_def ResourceGPUMemory_def)

lemma demo_started_links: "links_of (host demo_started) (link_id (hash (sort demo_ids)) 0) = links_to 0"
    "gpu_present 0 (host demo_started)"
proof -
  have w: "\<forall>k < length [0]. links_of demo_host (link_id (hash (sort demo_ids)) (0 + k)) = (None, None)"
    by (simp add: demo_host_links)
  from gpushare.create_loop_made(3) [OF demo_host_ok(1) this]
  show "links_of (host demo_started) (link_id (hash (sort demo_ids)) 0) = links_to 0"
    by (simp add: demo_started_def del: create_loop.simps)
  show "gpu_present 0 (host demo_started)"
    using gpu_present_cong [OF demo_host_ok(3) create_loop_files] by (simp add: demo_started_def del: create_loop.simps)
qed

lemma demo_other_call:
  obtains gp ag1 where "orderly_reach (demo_shared, gp)"
    and "event_ok (EvPreStart ResourceGPUMemory demo_same_units demo_ids) (demo_shared, gp)"
    and "node_next (EvPreStart ResourceGPUMemory demo_same_units demo_ids) (demo_shared, gp) = Some (Ok (), ag1, gp)"
    and "fst (locate_assumed demo_same_units (NewDevice demo_ids ResourceGPUMemory) ResourceGPUMemory demo_shared)
      = Ok (demo_other, gpus_text [1])"
proof -
  obtain gp where "orderly_reach (demo_started, gp)" using demo_orderly unfolding demo_started_def by metis
  then have reach: "orderly_reach (demo_shared, gp)" using orderly_next [of _ "EvPods demo_left"] by simp
  have "plugins_ok gp" using node_reach_inv [OF orderly_node_reach [OF reach]] by (simp add: node_inv_def)
  then obtain srv c where c: "map_of gp ResourceGPUMemory = Some (srv, c)" "bp_ResourceName c = ResourceGPUMemory"
    by (cases gp) (auto simp: plugins_ok_def)
  have loc: "locate_assumed demo_same_units (NewDevice demo_ids ResourceGPUMemory) ResourceGPUMemory demo_shared
      = (Ok (demo_other, gpus_text [1]), demo_shared)"
    using demo_shared_assigned by (intro locate_assumed_ok) simp_all
  have w: "links_writable (host demo_shared)" "Operator demo_shared = gpushare_operator"
    using orderly_good [OF reach] by (simp_all add: good_def)
  have loop: "create_loop gpushare_operator (hash (sort demo_ids)) 0 [1] (host demo_shared) = (None, host demo_shared)"
    using shared_create [OF w(1), of "hash (sort demo_ids)" 0 1] demo_started_links by (simp del: create_loop.simps)
  have "fst (link_and_record demo_other (NewDevice demo_ids ResourceGPUMemory) [1] demo_shared) = Ok ()"
    using loop record_device_ok(1) [OF demo_other_recordable] w(2)
    by (auto simp: link_and_record_def simp del: create_loop.simps split: prod.splits res.splits)
  moreover have "PreStartContainer_mem c demo_same_units demo_ids demo_shared
      = link_and_record demo_other (NewDevice demo_ids ResourceGPUMemory) [1] demo_shared"
    using PreStart_mem_reduce [of demo_ids 1 demo_same_units c demo_shared demo_other] demo_shared_assigned c(2) by simp
  ultimately have "\<exists>ag1. PreStartContainer_mem c demo_same_units demo_ids demo_shared = (Ok (), ag1)"
    by (metis prod.collapse)
  then obtain ag1 where "node_next (EvPreStart ResourceGPUMemory demo_same_units demo_ids) (demo_shared, gp) = Some (Ok (), ag1, gp)"
    using c(1) by auto
  moreover have "event_ok (EvPreStart ResourceGPUMemory demo_same_units demo_ids) (demo_shared, gp)"
    by (simp add: demo_same_units_def answer_ok_def) code_simp
  moreover have "fst (locate_assumed demo_same_units (NewDevice demo_ids ResourceGPUMemory) ResourceGPUMemory demo_shared)
      = Ok (demo_other, gpus_text [1])"
    unfolding loc by simp
  ultimately show ?thesis using that [OF reach] by blast
qed

lemma only_first_gone:
  assumes "store_ok (Storage ag)"
    and "pods_of (Storage ag) = (pods_of (Storage demo_shared))((pc_Namespace demo_other, pc_Name demo_other) \<mapsto>
      with_device (Storage demo_shared) demo_other d)"
  shows "gone_pods (ag\<lparr>Sitter := demo_left\<rparr>) = [with_device demo_db demo_container (NewDevice demo_ids ResourceGPUCore)]"
proof -
  let ?i = "with_device demo_db demo_container (NewDevice demo_ids ResourceGPUCore)" and ?ag = "ag\<lparr>Sitter := demo_left\<rparr>"
  have pods: "pods_of (Storage ag) k = (if k = (''default'', ''train-1'') then Some (with_device (Storage demo_shared) demo_other d)
      else if k = (''default'', ''train-0'') then Some ?i else None)" for k
    using assms(2) demo_first_pod by (auto simp: demo_other_def)
  have "distinct (gone_pods ?ag)"
    using pod_list_distinct [OF assms(1)] by (auto simp: gone_pods_def distinct_map intro: distinct_filter)
  moreover have gone: "pod_gone demo_left i \<longleftrightarrow> (Namespace i, Name i) \<noteq> (''default'', ''train-1'')" for i
    by (auto simp: pod_gone_def GetPod_def GetPodFromApiServer_def demo_left_def NewSitter_def)
  have "i \<in> set (gone_pods ?ag) \<longleftrightarrow> i = ?i" for i
    using gone_pods_view [of ?ag i] assms(1) gone [of i] pods [of "(Namespace i, Name i)"]
    by (auto simp: demo_with_device split: if_splits)
  then have "set (gone_pods ?ag) = {?i}" by blast
  ultimately show ?thesis by (cases "gone_pods ?ag"; cases "tl (gone_pods ?ag)") auto
qed

section \<open>Properties\<close>

text \<open>
  C26: Containers of two pods that are given the same device IDs, one as cores and one as memory, get
  the same links.  The start of the second, whichever one GPU its annotation names, succeeds (if its
  record fits the limits of the database) and leaves the link to the GPU of the first as it is, so that the container runs on that GPU.  When
  then the first pod is deleted, and is the only recorded pod that is gone, the collector removes
  the link, while the second pod still runs and its record still asks for it.
\<close>

theorem equal_ids_share_links:
  assumes "orderly_reach (ag, gp)" and "event_ok (EvPreStart r kl ids) (ag, gp)"
    and "node_next (EvPreStart r kl ids) (ag, gp) = Some (y, ag1, gp)"
    and "fst (locate_assumed kl (NewDevice ids r) r ag) = Ok (pc, val)" and "parse_for r val = Some [g]"
    and "fits (Storage ag) pc (NewDevice ids r)"
    and "((Namespace i, Name i), c, NewDevice ids r') \<in> recorded (Storage ag)"
    and "(pc_Namespace pc, pc_Name pc) \<noteq> (Namespace i, Name i)"
    and "links_of (host ag) (link_id (hash (sort ids)) 0) = links_to g'" and "gpu_present g' (host ag)"
    and "gone_pods (ag1\<lparr>Sitter := st\<rparr>) = [i]" and "map_order_ok ord" and "gc_wakes ev"
    and "gc_round ord ev (ag1\<lparr>Sitter := st\<rparr>) = (x, ag2)"
  shows "y = Ok () \<and> links_of (host ag1) (link_id (hash (sort ids)) 0) = links_to g'
    \<and> x = Ok ()
    \<and> ((pc_Namespace pc, pc_Name pc), pc_Container pc, NewDevice ids r) \<in> recorded (Storage ag2)
    \<and> links_of (host ag2) (link_id (hash (sort ids)) 0) = (None, None)"
proof -
  have "ids \<noteq> []" using recorded_ids [OF assms(1,7)] .
  note S = shared_start [OF assms(1-5) this assms(6,9,10)]
  have away: "usable (Storage (ag1\<lparr>Sitter := st\<rparr>))" "Operator (ag1\<lparr>Sitter := st\<rparr>) = gpushare_operator"
      "host (ag1\<lparr>Sitter := st\<rparr>) = host ag"
    using S(2-4) by simp_all
  have st: "store_ok (Storage ag1)" using S(4) by (simp add: usable_def)
  have "i \<in> set (gone_pods (ag1\<lparr>Sitter := st\<rparr>))" using assms(11) by simp
  then have "pods_of (Storage ag1) (Namespace i, Name i) = Some i" using gone_pods_view [of "ag1\<lparr>Sitter := st\<rparr>"] st by simp
  then have i: "pods_of (Storage ag) (Namespace i, Name i) = Some i" using S(5) assms(8) by auto
  note C = one_pod_collected [OF orderly_good [OF assms(1), simplified] away i assms(11-13)]
  have "pods_of (Storage ag2) (pc_Namespace pc, pc_Name pc) = pods_of (Storage ag1) (pc_Namespace pc, pc_Name pc)"
    using C(3) [OF assms(8)] assms(14) by simp
  then have "((pc_Namespace pc, pc_Name pc), pc_Container pc, NewDevice ids r) \<in> recorded (Storage ag2)"
    using S(6) by (simp add: recorded_def)
  with C(1) C(2) [OF assms(7) link_count_pos] S(1,2) assms(9,14) show ?thesis by simp
qed

theorem equal_ids_share_links_witness:
  "\<exists>gp ag1 ag2. node_next (EvPreStart ResourceGPUMemory demo_same_units demo_ids) (demo_shared, gp) = Some (Ok (), ag1, gp)
     \<and> links_of (host ag1) (link_id (hash (sort demo_ids)) 0) = links_to 0
     \<and> gc_round (\<lambda>i m. rev m) GcMinute (ag1\<lparr>Sitter := demo_left\<rparr>) = (Ok (), ag2)
     \<and> links_of (host ag2) (link_id (hash (sort demo_ids)) 0) = (None, None)"
proof -
  obtain gp ag1 where c: "orderly_reach (demo_shared, gp)"
      "event_ok (EvPreStart ResourceGPUMemory demo_same_units demo_ids) (demo_shared, gp)"
      "node_next (EvPreStart ResourceGPUMemory demo_same_units demo_ids) (demo_shared, gp) = Some (Ok (), ag1, gp)"
      "fst (locate_assumed demo_same_units (NewDevice demo_ids ResourceGPUMemory) ResourceGPUMemory demo_shared)
        = Ok (demo_other, gpus_text [1])"
    by (rule demo_other_call)
  let ?i = "with_device demo_db demo_container (NewDevice demo_ids ResourceGPUCore)"
  have parse: "parse_for ResourceGPUMemory (gpus_text [1]) = Some [1]" by (simp add: parse_for_def atoi_itoa)
  have fit: "fits (Storage demo_shared) demo_other (NewDevice demo_ids ResourceGPUMemory)"
    using demo_other_recordable by (simp add: recordable_def storable_def fits_def)
  have rec: "((Namespace ?i, Name ?i), ''main'', NewDevice demo_ids ResourceGPUCore) \<in> recorded (Storage demo_shared)"
    by (simp add: demo_started_recorded demo_with_device)
  have other: "(pc_Namespace demo_other, pc_Name demo_other) \<noteq> (Namespace ?i, Name ?i)"
    by (simp add: demo_other_def demo_with_device)
  have link: "links_of (host demo_shared) (link_id (hash (sort demo_ids)) 0) = links_to 0" "gpu_present 0 (host demo_shared)"
    using demo_started_links by simp_all
  have ids: "demo_ids \<noteq> []" by code_simp
  note S = shared_start [OF c parse ids fit link]
  obtain x ag2 where x: "gc_round (\<lambda>i m. rev m) GcMinute (ag1\<lparr>Sitter := demo_left\<rparr>) = (x, ag2)" by force
  have "store_ok (Storage ag1)" using S(4) by (simp add: usable_def)
  then have gone: "gone_pods (ag1\<lparr>Sitter := demo_left\<rparr>) = [?i]"
    by (rule only_first_gone) (simp add: S(5))
  have "map_order_ok (\<lambda>i m. rev m)" "gc_wakes GcMinute" by (simp_all add: map_order_ok_def gc_wakes_def)
  from equal_ids_share_links [OF c parse fit rec other link gone this x] S(2) c(3) x show ?thesis by metis
qed

end
