(* ===== verification/Node_Threads.thy ===== *)
theory Node_Threads
  imports Accounts
begin

text \<open>
  The agent as it runs: any number of pre-start calls at once, each in a goroutine of its own, and
  the collector in another.  A step is one access to what they share: a locator, the cache or the
  API server, one call on a file, one transaction of the database.  The lock of a plugin
  (\<open>baseDevicePlugin.lock\<close>) is taken once the annotation has been read and held to the end of the
  call; the collector takes no lock.  \<open>Node_Life\<close> has the same operations as single steps.
\<close>

section \<open>The operator, call by call\<close>

datatype create_at = CrCheck | CrLink | CrCtlCheck | CrCtlLink
datatype delete_at = DeLink | DeCtl

text \<open>Where \<open>Create\<close> and \<open>Delete\<close> go on, or what they return.\<close>

definition create_step ::
  "GPUShareOperator \<Rightarrow> int \<Rightarrow> string \<Rightarrow> create_at \<Rightarrow> host_fs \<Rightarrow> (create_at + err option) \<times> host_fs"
where
  "create_step G index eid at fs =
     (let devicePath = sprintf1 (Root G) (itoa index);
          deviceCtlPath = RootCtl G;
          symLink = sprintf1 SymPath eid;
          symCtlLink = sprintf1 SymCtlPath eid
      in case at of
           CrCheck \<Rightarrow> (if IsExist fs symLink then Inr None else Inl CrLink, fs)
         | CrLink \<Rightarrow>
             (case os_Symlink devicePath symLink fs of
                (Some e, fs) \<Rightarrow> (Inr (Some (EOs e)), fs)
              | (None, fs) \<Rightarrow> (Inl CrCtlCheck, fs))
         | CrCtlCheck \<Rightarrow> (if IsExist fs symCtlLink then Inr None else Inl CrCtlLink, fs)
         | CrCtlLink \<Rightarrow>
             (case os_Symlink deviceCtlPath symCtlLink fs of
                (Some e, fs) \<Rightarrow> (Inr (Some (EOs e)), fs)
              | (None, fs) \<Rightarrow> (Inr None, fs)))"

definition delete_step ::
  "GPUShareOperator \<Rightarrow> string \<Rightarrow> delete_at \<Rightarrow> host_fs \<Rightarrow> (delete_at + err option) \<times> host_fs"
where
  "delete_step G eid at fs =
     (case at of
        DeLink \<Rightarrow>
          (case os_Remove (sprintf1 SymPath eid) fs of
             (Some e, fs) \<Rightarrow> (Inr (Some (EOs e)), fs)
           | (None, fs) \<Rightarrow> (Inl DeCtl, fs))
      | DeCtl \<Rightarrow>
          (case os_Remove (sprintf1 SymCtlPath eid) fs of
             (Some e, fs) \<Rightarrow> (Inr (Some (EOs e)), fs)
           | (None, fs) \<Rightarrow> (Inr None, fs)))"

section \<open>A pre-start call\<close>

text \<open>The access a call makes next, with the variables it has by then; \<open>idInts\<close> and an index.\<close>

datatype call_at =
    Locating
  | Asking PodContainer
  | Locking PodContainer string
  | Making PodContainer "int list" nat create_at
  | Loading PodContainer "int list"
  | Saving PodInfo "int list"
  | Cleaning "int list" nat delete_at
  | Returned_with "unit res"

record prestart =
  c_res :: string
  c_dev :: Device
  c_at :: call_at

definition make_from :: "PodContainer \<Rightarrow> int list \<Rightarrow> nat \<Rightarrow> call_at" where
  "make_from cur idInts i = (if i < length idInts then Making cur idInts i CrCheck else Loading cur idInts)"

text \<open>The deferred clean-up; the handler then returns without an error.\<close>

definition clean_from :: "int list \<Rightarrow> nat \<Rightarrow> call_at" where
  "clean_from idInts i = (if i < length idInts then Cleaning idInts i DeLink else Returned_with (Ok ()))"

definition call_arrives :: "string \<Rightarrow> string list \<Rightarrow> prestart" where
  "call_arrives resName devicesIDs =
     \<lparr>c_res = resName, c_dev = NewDevice devicesIDs resName,
      c_at = (if length devicesIDs = 0 then Returned_with (Fail EEmptyDeviceList) else Locating)\<rparr>"

definition call_step :: "kubelet \<Rightarrow> prestart \<Rightarrow> agent \<Rightarrow> call_at \<times> agent" where
  "call_step kl c ag =
     (case c_at c of
        Locating \<Rightarrow>
          (case DeviceLocator ag (c_res c) of
             None \<Rightarrow> (Returned_with Panic, ag)
           | Some k \<Rightarrow>
               (case Locate (dial_err kl) (answer kl) (c_dev c) k of
                  (r, k') \<Rightarrow>
                    (case r of Ok cur \<Rightarrow> Asking cur | Fail e \<Rightarrow> Returned_with (Fail e) | Panic \<Rightarrow> Returned_with Panic,
                     ag\<lparr>DeviceLocator := (DeviceLocator ag)(c_res c \<mapsto> k')\<rparr>)))
      | Asking cur \<Rightarrow>
          (case GetPod (pc_Namespace cur) (pc_Name cur) (Sitter ag) of
             Panic \<Rightarrow> Returned_with Panic
           | Fail e \<Rightarrow> Returned_with (Fail e)
           | Ok pod \<Rightarrow>
               if map_of (Annotations pod) ElasticGPUAssumedAnnotation = None
               then Returned_with (Fail (ENoAnnotation ElasticGPUAssumedAnnotation))
               else
                 let containerAssumedKey = sprintf1 ElasticGPUContainerAnnotation (pc_Container cur)
                 in (case map_of (Annotations pod) containerAssumedKey of
                       None \<Rightarrow> Returned_with (Fail (ENoAnnotation containerAssumedKey))
                     | Some val \<Rightarrow> Locking cur val), ag)
      | Locking cur val \<Rightarrow>
          (case parse_for (c_res c) val of
             None \<Rightarrow> Returned_with (Fail (ENotIndex val))
           | Some idInts \<Rightarrow> make_from cur idInts 0, ag)
      | Making cur idInts i at \<Rightarrow>
          (case create_step NewGPUShareOperator (idInts ! i) (link_id (Hash (c_dev c)) i) at (host ag) of
             (r, fs) \<Rightarrow>
               (case r of
                  Inl at \<Rightarrow> Making cur idInts i at
                | Inr None \<Rightarrow> make_from cur idInts (Suc i)
                | Inr (Some e) \<Rightarrow> Returned_with (Fail e), ag\<lparr>host := fs\<rparr>))
      | Loading cur idInts \<Rightarrow>
          (case LoadOrCreate (pc_Namespace cur) (pc_Name cur) (Storage ag) of
             Ok pif \<Rightarrow>
               (case ContainerDeviceMap pif of
                  None \<Rightarrow> Returned_with Panic
                | Some m \<Rightarrow>
                    Saving (pif\<lparr>ContainerDeviceMap := Some (amap_put (pc_Container cur) (Some (c_dev c)) m)\<rparr>) idInts)
           | Fail e \<Rightarrow> clean_from idInts 0
           | Panic \<Rightarrow> Returned_with Panic, ag)
      | Saving pif idInts \<Rightarrow>
          (case Save pif (Storage ag) of
             (r, db) \<Rightarrow>
               (case r of Ok _ \<Rightarrow> Returned_with (Ok ()) | Fail e \<Rightarrow> clean_from idInts 0 | Panic \<Rightarrow> Returned_with Panic,
                ag\<lparr>Storage := db\<rparr>))
      | Cleaning idInts i at \<Rightarrow>
          (case delete_step NewGPUShareOperator (link_id (Hash (c_dev c)) i) at (host ag) of
             (r, fs) \<Rightarrow>
               (case r of Inl at \<Rightarrow> Cleaning idInts i at | Inr _ \<Rightarrow> clean_from idInts (Suc i), ag\<lparr>host := fs\<rparr>))
      | Returned_with r \<Rightarrow> (Returned_with r, ag))"

text \<open>The part of a call that holds the lock.\<close>

fun inside :: "call_at \<Rightarrow> bool" where
  "inside (Making _ _ _ _) \<longleftrightarrow> True"
| "inside (Loading _ _) \<longleftrightarrow> True"
| "inside (Saving _ _) \<longleftrightarrow> True"
| "inside (Cleaning _ _ _) \<longleftrightarrow> True"
| "inside _ \<longleftrightarrow> False"

section \<open>The collector\<close>

datatype gc_at =
    GcWaiting
  | GcLooking                                      \<comment> \<open>opening the transaction of \<open>ForEach\<close>\<close>
  | GcVisiting PodInfo "PodInfo list" "line list"  \<comment> \<open>the callback, before \<open>GetPod\<close>\<close>
  | GcAsking PodInfo "PodInfo list" "line list"    \<comment> \<open>before \<open>GetPodFromApiServer\<close>\<close>
  | GcFirst line Device "line list" delete_at
  | GcMore line Device "line list" nat "nat list" delete_at
  | GcRecord line "line list"
  | GcPanicked

text \<open>The loop over \<open>devicesToDelete\<close>, and the one over the further links of a device.\<close>

definition lines_from :: "line list \<Rightarrow> gc_at" where
  "lines_from ls =
     (case ls of
        [] \<Rightarrow> GcWaiting
      | l # ls \<Rightarrow> (case ln_device l of None \<Rightarrow> GcPanicked | Some d \<Rightarrow> GcFirst l d ls DeLink))"

definition more_from :: "line \<Rightarrow> Device \<Rightarrow> line list \<Rightarrow> nat list \<Rightarrow> gc_at" where
  "more_from l d ls js = (case js of [] \<Rightarrow> GcRecord l ls | j # js \<Rightarrow> GcMore l d ls j js DeLink)"

definition visit_from :: "PodInfo list \<Rightarrow> line list \<Rightarrow> gc_at" where
  "visit_from is devicesToDelete =
     (case is of [] \<Rightarrow> lines_from devicesToDelete | info # is \<Rightarrow> GcVisiting info is devicesToDelete)"

text \<open>
  A view of bolt is a snapshot, so that the records \<open>ForEach\<close> visits are those of its first access.
\<close>

definition gc_step :: "map_order \<Rightarrow> gc_at \<Rightarrow> agent \<Rightarrow> gc_at \<times> agent" where
  "gc_step ord at ag =
     (case at of
        GcLooking \<Rightarrow>
          (case ForEach (\<lambda>info is. (Ok (), is @ [info])) (Storage ag) [] of
             (Panic, _) \<Rightarrow> GcPanicked
           | (_, is) \<Rightarrow> visit_from is [], ag)
      | GcVisiting info is devicesToDelete \<Rightarrow>
          (case GetPod (Namespace info) (Name info) (Sitter ag) of
             Ok _ \<Rightarrow> visit_from is devicesToDelete
           | _ \<Rightarrow> GcAsking info is devicesToDelete, ag)
      | GcAsking info is devicesToDelete \<Rightarrow>
          (if IsNotFound (GetPodFromApiServer (Namespace info) (Name info) (Sitter ag))
           then visit_from is (devicesToDelete @ lines_of ord info)
           else visit_from is devicesToDelete, ag)
      | GcFirst l d ls at \<Rightarrow>
          (case delete_step NewGPUShareOperator (link_id (Hash d) 0) at (host ag) of
             (r, fs) \<Rightarrow>
               (case r of
                  Inl at \<Rightarrow> GcFirst l d ls at
                | Inr (Some e) \<Rightarrow> GcWaiting
                | Inr None \<Rightarrow>
                    more_from l d ls
                      (if ResourceName d = ResourceGPUCore \<and> length (DevList d) > 100
                       then [1..<length (DevList d) div 100] else []), ag\<lparr>host := fs\<rparr>))
      | GcMore l d ls i js at \<Rightarrow>
          (case delete_step NewGPUShareOperator (link_id (Hash d) i) at (host ag) of
             (r, fs) \<Rightarrow>
               (case r of
                  Inl at \<Rightarrow> GcMore l d ls i js at
                | Inr (Some e) \<Rightarrow> lines_from ls
                | Inr None \<Rightarrow> more_from l d ls js, ag\<lparr>host := fs\<rparr>))
      | GcRecord l ls \<Rightarrow>
          (case Storage_Delete (ln_namespace l) (ln_name l) (Storage ag) of
             (r, db) \<Rightarrow> (if r = Panic then GcPanicked else lines_from ls, ag\<lparr>Storage := db\<rparr>))
      | _ \<Rightarrow> (at, ag))"

section \<open>The node\<close>

record node_threads =
  th_agent :: agent
  th_plugins :: GPUSharePlugin
  th_calls :: "prestart list"
  th_locked :: "string set"
  th_gc :: gc_at

text \<open>
  What may happen next: a call of the kubelet arrives, a call goes on, the collector is woken or
  goes on, the environment changes, or the process ends where it is and the agent starts again.
\<close>

datatype thread_event =
    ThCall string "string list"
  | ThRun nat kubelet
  | ThWake gc_event
  | ThCollect map_order
  | ThPods PodSitter
  | ThDisk "err option"
  | ThFiles host_fs
  | ThRestart mgr_env flags

definition run_call :: "nat \<Rightarrow> kubelet \<Rightarrow> node_threads \<Rightarrow> node_threads option" where
  "run_call i kl s =
     (if i < length (th_calls s)
      then let c = th_calls s ! i
           in (case c_at c of
                 Returned_with _ \<Rightarrow> None
               | at \<Rightarrow>
                   if (\<exists>cur val. at = Locking cur val) \<and> c_res c \<in> th_locked s then None
                   else (case call_step kl c (th_agent s) of
                           (at', ag) \<Rightarrow>
                             Some (s\<lparr>th_agent := ag, th_calls := (th_calls s)[i := c\<lparr>c_at := at'\<rparr>],
                                     th_locked :=
                                       (if inside at' then insert (c_res c) (th_locked s)
                                        else if inside at then th_locked s - {c_res c}
                                        else th_locked s)\<rparr>)))
      else None)"

fun threads_next :: "thread_event \<Rightarrow> node_threads \<Rightarrow> node_threads option" where
  "threads_next (ThCall resName ids) s =
     (if map_of (th_plugins s) resName = None then None
      else Some (s\<lparr>th_calls := th_calls s @ [call_arrives resName ids]\<rparr>))"
| "threads_next (ThRun i kl) s = run_call i kl s"
| "threads_next (ThWake ev) s =
     (if th_gc s = GcWaiting then Some (s\<lparr>th_gc := if gc_wakes ev then GcLooking else GcWaiting\<rparr>) else None)"
| "threads_next (ThCollect ord) s =
     (case gc_step ord (th_gc s) (th_agent s) of (at, ag) \<Rightarrow> Some (s\<lparr>th_gc := at, th_agent := ag\<rparr>))"
| "threads_next (ThPods st) s = Some (s\<lparr>th_agent := (th_agent s)\<lparr>Sitter := st\<rparr>\<rparr>)"
| "threads_next (ThDisk f) s =
     Some (s\<lparr>th_agent := (th_agent s)\<lparr>Storage := (Storage (th_agent s))\<lparr>commit_fault := f\<rparr>\<rparr>\<rparr>)"
| "threads_next (ThFiles fs) s = Some (s\<lparr>th_agent := (th_agent s)\<lparr>host := fs\<rparr>\<rparr>)"
| "threads_next (ThRestart env fl) s =
     (case agent_main env fl of
        Ok (_, ag, gp) \<Rightarrow>
          Some \<lparr>th_agent = ag, th_plugins = gp, th_calls = [], th_locked = {}, th_gc = GcWaiting\<rparr>
      | _ \<Rightarrow> None)"

fun thread_ok :: "thread_event \<Rightarrow> node_threads \<Rightarrow> bool" where
  "thread_ok (ThCall resName ids) s \<longleftrightarrow> list_all utf8_valid ids"
| "thread_ok (ThRun i kl) s \<longleftrightarrow> answer_ok (answer kl)"
| "thread_ok (ThCollect ord) s \<longleftrightarrow> map_order_ok ord"
| "thread_ok (ThFiles fs) s \<longleftrightarrow> fs_ok fs"
| "thread_ok (ThRestart env fl) s \<longleftrightarrow>
     image (me_disk env (fl_dbfile fl)) = buckets (Storage (th_agent s)) \<and> me_host env = host (th_agent s)"
| "thread_ok _ s \<longleftrightarrow> True"

inductive thread_step :: "node_threads \<Rightarrow> node_threads \<Rightarrow> bool" where
  thread_stepI: "thread_ok ev s \<Longrightarrow> threads_next ev s = Some s' \<Longrightarrow> thread_step s s'"

inductive_cases thread_stepE: "thread_step s s'"

definition threads_of :: "agent \<Rightarrow> GPUSharePlugin \<Rightarrow> node_threads" where
  "threads_of ag gp = \<lparr>th_agent = ag, th_plugins = gp, th_calls = [], th_locked = {}, th_gc = GcWaiting\<rparr>"

definition threads_reach :: "node_threads \<Rightarrow> bool" where
  "threads_reach s \<longleftrightarrow> (\<exists>ag gp. first_start (ag, gp) \<and> thread_step\<^sup>*\<^sup>* (threads_of ag gp) s)"

end
