(* ===== verification/Thread_Safety.thy ===== *)
theory Thread_Safety
  imports Node_Threads
begin

text \<open>
  What holds in every state of \<open>Node_Threads\<close>, however the calls and the collector are interleaved.
\<close>

section \<open>The invariant\<close>

fun at_ok :: "call_at \<Rightarrow> bool" where
  "at_ok (Asking cur) \<longleftrightarrow> container_ok cur"
| "at_ok (Locking cur val) \<longleftrightarrow> container_ok cur"
| "at_ok (Making cur idInts i at) \<longleftrightarrow> container_ok cur \<and> i < length idInts"
| "at_ok (Loading cur idInts) \<longleftrightarrow> container_ok cur"
| "at_ok (Saving pif idInts) \<longleftrightarrow> pod_ok pif \<and> record_ok pif"
| "at_ok (Cleaning idInts i at) \<longleftrightarrow> i < length idInts"
| "at_ok (Returned_with r) \<longleftrightarrow> r \<noteq> Panic"
| "at_ok Locating \<longleftrightarrow> True"

definition call_ok :: "prestart \<Rightarrow> bool" where
  "call_ok c \<longleftrightarrow>
     c_res c \<in> {ResourceGPUCore, ResourceGPUMemory} \<and> at_ok (c_at c)
     \<and> (\<exists>ids. c_dev c = NewDevice ids (c_res c) \<and> list_all utf8_valid ids
          \<and> (ids \<noteq> [] \<or> (\<exists>r. c_at c = Returned_with r)))"

definition line_ok :: "line \<Rightarrow> bool" where
  "line_ok l \<longleftrightarrow> made_device (ln_device l) \<and> plain_elem (ln_namespace l) \<and> plain_elem (ln_name l)"

definition info_ok :: "PodInfo \<Rightarrow> bool" where
  "info_ok i \<longleftrightarrow> pod_ok i \<and> record_ok i"

fun gc_ok :: "gc_at \<Rightarrow> bool" where
  "gc_ok (GcVisiting info is ls) \<longleftrightarrow> info_ok info \<and> list_all info_ok is \<and> list_all line_ok ls"
| "gc_ok (GcAsking info is ls) \<longleftrightarrow> info_ok info \<and> list_all info_ok is \<and> list_all line_ok ls"
| "gc_ok (GcFirst l d ls at) \<longleftrightarrow> line_ok l \<and> ln_device l = Some d \<and> list_all line_ok ls"
| "gc_ok (GcMore l d ls i js at) \<longleftrightarrow> line_ok l \<and> ln_device l = Some d \<and> list_all line_ok ls"
| "gc_ok (GcRecord l ls) \<longleftrightarrow> line_ok l \<and> list_all line_ok ls"
| "gc_ok GcPanicked \<longleftrightarrow> False"
| "gc_ok _ \<longleftrightarrow> True"

definition locks_ok :: "prestart list \<Rightarrow> string set \<Rightarrow> bool" where
  "locks_ok cs locked \<longleftrightarrow>
     (\<forall>i < length cs. inside (c_at (cs ! i)) \<longrightarrow> c_res (cs ! i) \<in> locked)
     \<and> (\<forall>i < length cs. \<forall>j < length cs. i \<noteq> j \<longrightarrow> inside (c_at (cs ! i)) \<longrightarrow> inside (c_at (cs ! j)) \<longrightarrow>
          c_res (cs ! i) \<noteq> c_res (cs ! j))
     \<and> (\<forall>r \<in> locked. \<exists>i < length cs. inside (c_at (cs ! i)) \<and> c_res (cs ! i) = r)"

definition threads_inv :: "node_threads \<Rightarrow> bool" where
  "threads_inv s \<longleftrightarrow>
     agent_inv (th_agent s) \<and> plugins_ok (th_plugins s) \<and> list_all call_ok (th_calls s) \<and> gc_ok (th_gc s)
     \<and> locks_ok (th_calls s) (th_locked s)"

section \<open>Single steps\<close>

lemma create_step_states:
  "snd (create_step G g eid at fs) = fs
   \<or> snd (create_step G g eid at fs) = snd (os_Symlink (sprintf1 (Root G) (itoa g)) (sym_link eid) fs)
   \<or> snd (create_step G g eid at fs) = snd (os_Symlink (RootCtl G) (ctl_link eid) fs)"
  by (cases at) (simp_all add: create_step_def Let_def split: prod.split option.split)

lemma delete_step_states:
  "snd (delete_step G eid at fs) = snd (os_Remove (sym_link eid) fs)
   \<or> snd (delete_step G eid at fs) = snd (os_Remove (ctl_link eid) fs)"
  by (cases at) (simp_all add: delete_step_def split: prod.split option.split)

lemma create_step_fs:
  "fs_ok fs \<Longrightarrow> fs_ok (snd (create_step G g eid at fs))"
  "p \<noteq> sym_link eid \<Longrightarrow> p \<noteq> ctl_link eid \<Longrightarrow> node_at (snd (create_step G g eid at fs)) p = node_at fs p"
  using create_step_states [of G g eid at fs] by (elim disjE; simp add: frame_simps wf_intros)+

lemma delete_step_fs:
  "fs_ok fs \<Longrightarrow> fs_ok (snd (delete_step G eid at fs))"
  "p \<noteq> sym_link eid \<Longrightarrow> p \<noteq> ctl_link eid \<Longrightarrow> node_at (snd (delete_step G eid at fs)) p = node_at fs p"
  using delete_step_states [of G eid at fs] by (elim disjE; simp add: frame_simps wf_intros)+

lemma from_ok [simp]:
  "at_ok (make_from cur gs i) \<longleftrightarrow> container_ok cur"
  "at_ok (clean_from gs i)"
  by (simp_all add: make_from_def clean_from_def)

lemma lines_from_ok [simp]: "list_all line_ok ls \<Longrightarrow> gc_ok (lines_from ls)"
  by (auto simp: lines_from_def line_ok_def made_device_def split: list.split option.split)

lemma more_from_ok [simp]:
  "line_ok l \<Longrightarrow> ln_device l = Some d \<Longrightarrow> list_all line_ok ls \<Longrightarrow> gc_ok (more_from l d ls js)"
  by (simp add: more_from_def split: list.split)

lemma visit_from_ok [simp]:
  "list_all info_ok is \<Longrightarrow> list_all line_ok ls \<Longrightarrow> gc_ok (visit_from is ls)"
  by (auto simp: visit_from_def split: list.split)

lemma lines_of_ok:
  assumes "info_ok i" "map_order_ok ord"
  shows "list_all line_ok (lines_of ord i)"
proof -
  obtain m where m: "ContainerDeviceMap i = Some m" "\<forall>q \<in> set m. made_device (snd q)"
    using assms(1) by (auto simp: info_ok_def record_ok_def)
  moreover have "set (ord i m) = set m" using assms(2) by (metis map_order_ok_def set_mset_mset)
  ultimately show ?thesis
    using assms(1) by (auto simp: lines_of_def list_all_iff line_ok_def info_ok_def pod_ok_def)
qed

lemma collect_infos: "visit_pods (\<lambda>info is. (Ok (), is @ [info])) infos acc = (Ok (), acc @ infos)"
  by (induction infos arbitrary: acc) auto

lemma pod_list_ok:
  assumes "store_inv db"
  shows "list_all info_ok (pod_list db)"
proof -
  have ok: "store_ok db" "records_ok db" using assms by (simp_all add: store_inv_def)
  have "info_ok i" if "i \<in> set (pod_list db)" for i
  proof -
    have "pods_of db (Namespace i, Name i) = Some i" using that pod_list_view [OF ok(1)] by blast
    with pods_of_ok [OF ok(1)] records_okD [OF ok(2)] show ?thesis by (simp add: info_ok_def)
  qed
  then show ?thesis by (simp add: list_all_iff)
qed

lemma look_infos:
  assumes "store_inv db"
  shows "ForEach (\<lambda>info is. (Ok (), is @ [info])) db [] = (Ok (), pod_list db)"
  using assms by (simp add: store_inv_def ForEach_visit collect_infos)


section \<open>Preservation\<close>

lemma record_pod_put:
  assumes "pod_ok i" "record_ok i" "ContainerDeviceMap i = Some m" "utf8_valid cn"
    and "d = NewDevice ids r" "ids \<noteq> []" "list_all utf8_valid ids" "r \<in> {ResourceGPUCore, ResourceGPUMemory}"
  shows "pod_ok (i\<lparr>ContainerDeviceMap := Some (amap_put cn (Some d) m)\<rparr>)
    \<and> record_ok (i\<lparr>ContainerDeviceMap := Some (amap_put cn (Some d) m)\<rparr>)"
proof -
  have "devmap_ok (Some m)" using assms(1,3) by (simp add: pod_ok_def)
  then have "devmap_ok (Some (amap_put cn (Some d) m))"
    using devmap_ok_put [OF _ assms(4) device_ok_NewDevice [OF assms(7,8)], of "Some m"] assms(5) by simp
  moreover have "made_device (Some d)" using assms(5,6,8) unfolding made_device_def by blast
  then have "record_ok (i\<lparr>ContainerDeviceMap := Some (amap_put cn (Some d) m)\<rparr>)"
    using record_ok_put [OF assms(2), of "Some d" cn] assms(3) by simp
  ultimately show ?thesis using assms(1) by (simp add: pod_ok_def)
qed

lemma call_step_inv:
  assumes "agent_inv ag" "call_ok c" "answer_ok (answer kl)" "call_step kl c ag = (at, ag')"
    and "\<forall>r. c_at c \<noteq> Returned_with r"
  shows "agent_inv ag' \<and> call_ok (c\<lparr>c_at := at\<rparr>)"
proof -
  obtain ids where res: "c_res c \<in> {ResourceGPUCore, ResourceGPUMemory}"
      and ids: "c_dev c = NewDevice ids (c_res c)" "list_all utf8_valid ids" "ids \<noteq> []"
    using assms(2,5) by (auto simp: call_ok_def)
  have inv: "Operator ag = gpushare_operator" "fs_ok (host ag)" "store_inv (Storage ag)" "locators_ok (DeviceLocator ag)"
    using assms(1) by (simp_all add: agent_inv_def)
  have ok: "at_ok (c_at c)" using assms(2) by (simp add: call_ok_def)
  have "agent_inv ag' \<and> at_ok at"
  proof (cases "c_at c")
    case Locating
    obtain k where k: "DeviceLocator ag (c_res c) = Some k" "locator_ok (c_res c) k"
      using inv(4) res by (auto simp: locators_ok_def)
    obtain x k' where x: "Locate (dial_err kl) (answer kl) (c_dev c) k = (x, k')" by force
    have keeps: "x \<noteq> Panic" "locator_ok (c_res c) k'" using Locate_keeps(1,2) [OF k(2) x] by simp_all
    have "locators_ok ((DeviceLocator ag)(c_res c \<mapsto> k'))" using inv(4) keeps(2) by (auto simp: locators_ok_def)
    moreover have "x = Ok pc \<Longrightarrow> container_ok pc" for pc using Locate_keeps(3) [OF k(2) x] assms(3) by blast
    ultimately show ?thesis
      using assms(4) Locating k(1) x keeps(1) inv
      by (cases x) (auto simp: call_step_def agent_inv_def)
  next
    case (Asking cur)
    then show ?thesis
      using assms(1,4) ok
      by (auto simp: call_step_def GetPod_def Let_def split: option.splits if_splits)
  next
    case (Locking cur val)
    then show ?thesis using assms(1,4) ok by (auto simp: call_step_def split: option.splits)
  next
    case (Making cur gs i at0)
    obtain r fs where r: "create_step NewGPUShareOperator (gs ! i) (link_id (Hash (c_dev c)) i) at0 (host ag) = (r, fs)"
      by force
    have "fs_ok fs" using create_step_fs(1) [OF inv(2)] r by (metis snd_conv)
    then show ?thesis
      using assms(4) Making r ok inv by (auto simp: call_step_def agent_inv_def split: sum.splits option.splits)
  next
    case (Loading cur gs)
    then have cur: "plain_elem (pc_Namespace cur)" "plain_elem (pc_Name cur)" "utf8_valid (pc_Container cur)"
      using ok by (simp_all add: container_ok_def)
    obtain pif where pif: "LoadOrCreate (pc_Namespace cur) (pc_Name cur) (Storage ag) = Ok pif" "pod_ok pif" "record_ok pif"
      using LoadOrCreate_read [OF inv(3) cur(1,2)] by blast
    obtain m where m: "ContainerDeviceMap pif = Some m" using pif(3) by (auto simp: record_ok_def)
    then show ?thesis
      using assms(1,4) Loading pif record_pod_put [OF pif(2,3) m cur(3) ids(1,3,2) res] by (auto simp: call_step_def)
  next
    case (Saving pif gs)
    obtain x db where x: "Save pif (Storage ag) = (x, db)" by force
    have "store_inv db" "x \<noteq> Panic"
      using Save_inv [OF inv(3), of pif] Save_states(2) [of "Storage ag" pif] Saving ok x inv(3)
      by (simp_all add: store_inv_def)
    then show ?thesis
      using assms(4) Saving x inv by (cases x) (auto simp: call_step_def agent_inv_def)
  next
    case (Cleaning gs i at0)
    obtain r fs where r: "delete_step NewGPUShareOperator (link_id (Hash (c_dev c)) i) at0 (host ag) = (r, fs)" by force
    have "fs_ok fs" using delete_step_fs(1) [OF inv(2)] r by (metis snd_conv)
    then show ?thesis
      using assms(4) Cleaning r ok inv by (auto simp: call_step_def agent_inv_def split: sum.splits)
  qed (use assms(5) in simp)
  with res ids show ?thesis by (auto simp: call_ok_def)
qed

lemma gc_step_inv:
  assumes "agent_inv ag" "gc_ok at0" "map_order_ok ord" "gc_step ord at0 ag = (at, ag')"
  shows "agent_inv ag' \<and> gc_ok at"
proof -
  have inv: "fs_ok (host ag)" "store_inv (Storage ag)" using assms(1) by (simp_all add: agent_inv_def)
  have del: "fs_ok fs" if "delete_step G eid at (host ag) = (r, fs)" for G eid at r fs
    using that delete_step_fs(1) [OF inv(1)] by (metis snd_conv)
  show ?thesis
  proof (cases at0)
    case GcLooking
    then show ?thesis
      using assms(1,4) inv look_infos pod_list_ok by (auto simp: gc_step_def)
  next
    case (GcVisiting info infos ls)
    then show ?thesis using assms(1,2,4) by (auto simp: gc_step_def split: res.splits)
  next
    case (GcAsking info infos ls)
    then show ?thesis using assms(1-4) lines_of_ok by (auto simp: gc_step_def split: if_splits)
  next
    case (GcFirst l d ls at1)
    with assms(1,2,4) del show ?thesis
      by (auto simp: gc_step_def agent_inv_def split: prod.splits sum.splits option.splits)
  next
    case (GcMore l d ls i js at1)
    with assms(1,2,4) del show ?thesis
      by (auto simp: gc_step_def agent_inv_def split: prod.splits sum.splits option.splits)
  next
    case (GcRecord l ls)
    with Storage_Delete_inv [OF inv(2), of "ln_namespace l" "ln_name l"] assms(1,2,4) show ?thesis
      by (auto simp: gc_step_def agent_inv_def line_ok_def split: prod.splits if_splits)
  qed (use assms in \<open>auto simp: gc_step_def\<close>)
qed

lemma locks_ok_update:
  assumes "locks_ok cs locked" "i < length cs" "inside at \<longrightarrow> inside (c_at (cs ! i)) \<or> c_res (cs ! i) \<notin> locked"
  shows "locks_ok (cs[i := (cs ! i)\<lparr>c_at := at\<rparr>])
     (if inside at then insert (c_res (cs ! i)) locked
      else if inside (c_at (cs ! i)) then locked - {c_res (cs ! i)} else locked)"
  using assms unfolding locks_ok_def by (auto simp: nth_list_update)

lemma run_call_next:
  assumes "i < length (th_calls s)" "c = th_calls s ! i" "\<forall>r. c_at c \<noteq> Returned_with r"
    and "(\<exists>cur val. c_at c = Locking cur val) \<longrightarrow> c_res c \<notin> th_locked s"
    and "call_step kl c (th_agent s) = (at, ag)"
  shows "run_call i kl s = Some (s\<lparr>th_agent := ag, th_calls := (th_calls s)[i := c\<lparr>c_at := at\<rparr>],
     th_locked := (if inside at then insert (c_res c) (th_locked s)
                   else if inside (c_at c) then th_locked s - {c_res c} else th_locked s)\<rparr>)"
  using assms unfolding run_call_def Let_def by (cases "c_at c") simp_all

lemma run_call_inv:
  assumes "threads_inv s" "answer_ok (answer kl)" "run_call i kl s = Some s'"
  shows "threads_inv s'"
proof -
  let ?c = "th_calls s ! i"
  have i: "i < length (th_calls s)" and run: "\<forall>r. c_at ?c \<noteq> Returned_with r"
    using assms(3) by (auto simp: run_call_def split: if_splits)
  obtain at ag where st: "call_step kl ?c (th_agent s) = (at, ag)" by force
  have free: "\<not> ((\<exists>cur val. c_at ?c = Locking cur val) \<and> c_res ?c \<in> th_locked s)"
    and s': "s' = s\<lparr>th_agent := ag, th_calls := (th_calls s)[i := ?c\<lparr>c_at := at\<rparr>],
       th_locked := (if inside at then insert (c_res ?c) (th_locked s)
                     else if inside (c_at ?c) then th_locked s - {c_res ?c} else th_locked s)\<rparr>"
    using assms(3) i st run unfolding run_call_def Let_def by (auto split: call_at.splits if_splits)
  have inv: "agent_inv (th_agent s)" "list_all call_ok (th_calls s)" "locks_ok (th_calls s) (th_locked s)"
    using assms(1) by (simp_all add: threads_inv_def)
  have "call_ok ?c" using inv(2) i by (simp add: list_all_length)
  note step = call_step_inv [OF inv(1) this assms(2) st run]
  have "inside (c_at ?c) \<or> (\<exists>cur val. c_at ?c = Locking cur val)" if "inside at"
    using that st run
    by (cases "c_at ?c")
      (auto simp: call_step_def Let_def GetPod_def split: res.splits option.splits prod.splits if_splits)
  then have "locks_ok (th_calls s') (th_locked s')"
    using locks_ok_update [OF inv(3) i, of at] free unfolding s' by auto
  moreover have "list_all call_ok (th_calls s')"
    using inv(2) step i s' by (auto simp: list_all_length nth_list_update)
  ultimately show ?thesis using assms(1) step s' by (simp add: threads_inv_def)
qed

section \<open>Every reachable state\<close>

lemma threads_next_inv:
  assumes "threads_inv s" "thread_ok ev s" "threads_next ev s = Some s'"
  shows "threads_inv s'"
proof -
  have inv: "agent_inv (th_agent s)" "plugins_ok (th_plugins s)" "list_all call_ok (th_calls s)" "gc_ok (th_gc s)"
      "locks_ok (th_calls s) (th_locked s)"
    using assms(1) by (simp_all add: threads_inv_def)
  have st: "store_inv (Storage (th_agent s))" using inv(1) by (simp add: agent_inv_def)
  show ?thesis
  proof (cases ev)
    case (ThCall resName ids)
    have "map_of (th_plugins s) resName \<noteq> None" using assms(3) ThCall by (auto split: if_splits)
    then have "resName \<in> fst ` set (th_plugins s)" by (simp add: map_of_eq_None_iff)
    moreover have "fst ` set (th_plugins s) = {ResourceGPUCore, ResourceGPUMemory}"
      using inv(2) arg_cong [of _ _ set] by (fastforce simp: plugins_ok_def)
    ultimately have res: "resName \<in> {ResourceGPUCore, ResourceGPUMemory}" by simp
    then have "call_ok (call_arrives resName ids)"
      using assms(2) ThCall by (auto simp: call_ok_def call_arrives_def)
    moreover have "\<not> inside (c_at (call_arrives resName ids))" by (simp add: call_arrives_def)
    then have "locks_ok (th_calls s @ [call_arrives resName ids]) (th_locked s)"
      using inv(5) unfolding locks_ok_def
      by (auto simp: nth_append less_Suc_eq)
    ultimately show ?thesis using assms(3) ThCall inv by (auto simp: threads_inv_def split: if_splits)
  next
    case (ThRun i kl)
    with assms run_call_inv show ?thesis by simp
  next
    case (ThCollect ord)
    obtain at ag where st: "gc_step ord (th_gc s) (th_agent s) = (at, ag)" by force
    with gc_step_inv [OF inv(1,4) _ st] assms(2,3) ThCollect inv show ?thesis by (auto simp: threads_inv_def)
  next
    case (ThDisk f)
    have "store_inv ((Storage (th_agent s))\<lparr>commit_fault := f\<rparr>)"
      using st by (intro store_inv_buckets [OF st]) (simp_all add: store_inv_def)
    with assms(3) ThDisk inv show ?thesis by (auto simp: threads_inv_def agent_inv_def)
  next
    case (ThRestart env fl)
    then obtain m ag gp where main: "agent_main env fl = Ok (m, ag, gp)"
      using assms(3) by (auto split: res.splits)
    have "event_ok (EvRestart env fl) (th_agent s, th_plugins s)" using assms(2) ThRestart by simp
    moreover have "node_inv (th_agent s, th_plugins s)" using inv by (simp add: node_inv_def)
    moreover have "node_next (EvRestart env fl) (th_agent s, th_plugins s) = Some (Ok (), ag, gp)" using main by simp
    ultimately have "node_inv (ag, gp)" using node_next_inv by blast
    with assms(3) ThRestart main show ?thesis by (auto simp: threads_inv_def node_inv_def locks_ok_def)
  qed (use assms inv in \<open>auto simp: threads_inv_def agent_inv_def split: if_splits\<close>)
qed

lemma threads_init: "node_inv (ag, gp) \<Longrightarrow> threads_inv (threads_of ag gp)"
  by (simp add: threads_inv_def threads_of_def node_inv_def locks_ok_def)

lemma thread_steps_inv: "thread_step\<^sup>*\<^sup>* s s' \<Longrightarrow> threads_inv s \<Longrightarrow> threads_inv s'"
  by (induction rule: rtranclp_induct) (auto elim!: thread_stepE dest: threads_next_inv)

lemma threads_reach_inv:
  assumes "threads_reach s"
  shows "threads_inv s"
proof -
  obtain ag gp where "first_start (ag, gp)" "thread_step\<^sup>*\<^sup>* (threads_of ag gp) s"
    using assms by (auto simp: threads_reach_def)
  with first_start_inv [of "(ag, gp)"] threads_init thread_steps_inv show ?thesis by blast
qed

text \<open>The files that no step of the agent touches.\<close>

text \<open>The files a step can change: links of the devices it is about; the collector only removes.\<close>

definition link_of :: "Device \<Rightarrow> string \<Rightarrow> bool" where
  "link_of d p \<longleftrightarrow>
     (\<exists>k. p = ''/host/dev/elastic-gpu-'' @ link_id (Hash d) k \<or> p = ''/host/dev/elastic-gpuctl-'' @ link_id (Hash d) k)"

fun gc_device :: "gc_at \<Rightarrow> Device option" where
  "gc_device (GcFirst l d ls at) = Some d"
| "gc_device (GcMore l d ls i js at) = Some d"
| "gc_device _ = None"

lemma link_ofI: "\<not> link_of d p \<Longrightarrow> p \<noteq> sym_link (link_id (Hash d) k) \<and> p \<noteq> ctl_link (link_id (Hash d) k)"
  by (auto simp: link_of_def sym_link_def ctl_link_def)

lemma call_step_nodes:
  assumes "\<not> link_of (c_dev c) p"
  shows "node_at (host (snd (call_step kl c ag))) p = node_at (host ag) p"
proof -
  have create: "node_at (snd (create_step G g (link_id (Hash (c_dev c)) i) at fs)) p = node_at fs p" for G g i at fs
    using link_ofI [OF assms, of i] create_step_fs(2) by blast
  have delete: "node_at (snd (delete_step G (link_id (Hash (c_dev c)) i) at fs)) p = node_at fs p" for G i at fs
    using link_ofI [OF assms, of i] delete_step_fs(2) by blast
  show ?thesis
    using create delete
    by (cases "c_at c") (auto simp: call_step_def Let_def split: prod.split option.split, (metis snd_conv)+)
qed

lemma delete_step_removes:
  "node_at (snd (delete_step G eid at fs)) p = node_at fs p \<or> node_at (snd (delete_step G eid at fs)) p = None"
proof -
  have "node_at (snd (os_Remove q fs)) p = node_at fs p \<or> node_at (snd (os_Remove q fs)) p = None" for q
    using os_Remove_other [of p q fs] os_Remove_gone [of q fs] os_Remove_failed [of q fs]
    by (cases "p = q"; cases "fst (os_Remove q fs)") auto
  with delete_step_states [of G eid at fs] show ?thesis by metis
qed

lemma gc_step_nodes:
  assumes "node_at (host (snd (gc_step ord at ag))) p \<noteq> node_at (host ag) p"
  shows "node_at (host (snd (gc_step ord at ag))) p = None \<and> (\<exists>d. gc_device at = Some d \<and> link_of d p)"
proof -
  have link: "link_of d p" if "node_at (snd (delete_step G (link_id (Hash d) i) at fs)) p \<noteq> node_at fs p" for d G i at fs
    using that link_ofI [of d p i] delete_step_fs(2) by blast
  show ?thesis
  proof (cases at)
    case (GcFirst l d ls at')
    then show ?thesis
      using assms link [of NewGPUShareOperator d 0 at' "host ag"] delete_step_removes [of NewGPUShareOperator "link_id (Hash d) 0" at' "host ag" p]
      by (auto simp: gc_step_def split: prod.splits)
  next
    case (GcMore l d ls i js at')
    then show ?thesis
      using assms link [of NewGPUShareOperator d i at' "host ag"] delete_step_removes [of NewGPUShareOperator "link_id (Hash d) i" at' "host ag" p]
      by (auto simp: gc_step_def split: prod.splits)
  qed (use assms in \<open>auto simp: gc_step_def split: prod.splits\<close>)
qed

lemma run_call_step:
  assumes "run_call i kl s = Some s'"
  shows "i < length (th_calls s) \<and> th_agent s' = snd (call_step kl (th_calls s ! i) (th_agent s))
    \<and> th_calls s' = (th_calls s)[i := (th_calls s ! i)\<lparr>c_at := fst (call_step kl (th_calls s ! i) (th_agent s))\<rparr>]
    \<and> th_gc s' = th_gc s \<and> th_plugins s' = th_plugins s \<and> (\<forall>r. c_at (th_calls s ! i) \<noteq> Returned_with r)"
  using assms unfolding run_call_def Let_def by (auto split: call_at.splits if_splits prod.splits)

section \<open>Progress\<close>

text \<open>What a call has left: the phase it is in, and its links still to come in that phase.\<close>

fun call_left :: "call_at \<Rightarrow> nat \<times> nat" where
  "call_left Locating = (7, 0)"
| "call_left (Asking cur) = (6, 0)"
| "call_left (Locking cur val) = (5, 0)"
| "call_left (Making cur gs i at) =
     (4, 4 * (length gs - i) - (case at of CrCheck \<Rightarrow> 0 | CrLink \<Rightarrow> 1 | CrCtlCheck \<Rightarrow> 2 | CrCtlLink \<Rightarrow> 3))"
| "call_left (Loading cur gs) = (3, 0)"
| "call_left (Saving pif gs) = (2, 0)"
| "call_left (Cleaning gs i at) = (1, 2 * (length gs - i) - (case at of DeLink \<Rightarrow> 0 | DeCtl \<Rightarrow> 1))"
| "call_left (Returned_with r) = (0, 0)"

definition nearer :: "((nat \<times> nat) \<times> (nat \<times> nat)) set" where
  "nearer = less_than <*lex*> less_than"

lemma nearer_wf: "wf nearer"
  by (simp add: nearer_def wf_lex_prod)

lemma nearer_iff: "((a, b), (c, d)) \<in> nearer \<longleftrightarrow> a < c \<or> a = c \<and> b < d"
  by (auto simp: nearer_def)

lemma make_from_left: "(call_left (make_from cur gs 0), (5, 0)) \<in> nearer"
  by (simp add: make_from_def nearer_iff)

lemma clean_from_left: "(call_left (clean_from gs 0), (2, 0)) \<in> nearer" "(call_left (clean_from gs 0), (3, 0)) \<in> nearer"
  by (simp_all add: clean_from_def nearer_iff)

lemma create_step_on:
  "fst (create_step G g eid at fs) = Inl at' \<Longrightarrow> (at, at') \<in> {(CrCheck, CrLink), (CrLink, CrCtlCheck), (CrCtlCheck, CrCtlLink)}"
  by (cases at) (auto simp: create_step_def Let_def split: prod.splits option.splits if_splits)

lemma delete_step_on: "fst (delete_step G eid at fs) = Inl at' \<Longrightarrow> at = DeLink \<and> at' = DeCtl"
  by (cases at) (auto simp: delete_step_def split: prod.splits option.splits)

lemma call_step_nearer:
  assumes "at_ok (c_at c)" "\<forall>r. c_at c \<noteq> Returned_with r"
  shows "(call_left (fst (call_step kl c ag)), call_left (c_at c)) \<in> nearer"
proof (cases "c_at c")
  case (Making cur gs i at)
  obtain r fs where r: "create_step NewGPUShareOperator (gs ! i) (link_id (Hash (c_dev c)) i) at (host ag) = (r, fs)"
    by force
  have i: "i < length gs" using assms(1) Making by simp
  have on: "r = Inl at' \<Longrightarrow> (at, at') \<in> {(CrCheck, CrLink), (CrLink, CrCtlCheck), (CrCtlCheck, CrCtlLink)}" for at'
    using create_step_on r by (metis fst_conv)
  have "4 * (length gs - Suc i) < 4 * (length gs - i) - (case at of CrCheck \<Rightarrow> 0 | CrLink \<Rightarrow> 1 | CrCtlCheck \<Rightarrow> 2 | CrCtlLink \<Rightarrow> 3)"
    using i by (cases at) auto
  then show ?thesis
    using Making r i on
    by (auto simp: call_step_def make_from_def nearer_iff split: sum.split option.split)
next
  case (Cleaning gs i at)
  obtain r fs where r: "delete_step NewGPUShareOperator (link_id (Hash (c_dev c)) i) at (host ag) = (r, fs)"
    by force
  have i: "i < length gs" using assms(1) Cleaning by simp
  have "2 * (length gs - Suc i) < 2 * (length gs - i) - (case at of DeLink \<Rightarrow> 0 | DeCtl \<Rightarrow> 1)"
    using i by (cases at) auto
  then have next_link: "2 * (length gs - Suc i) < snd (call_left (Cleaning gs i at))" by simp
  show ?thesis
  proof (cases r)
    case (Inl at')
    then have "at = DeLink" "at' = DeCtl" using delete_step_on r by (metis fst_conv)+
    with Inl Cleaning r i show ?thesis by (simp add: call_step_def nearer_iff)
  next
    case (Inr e)
    with Cleaning r next_link show ?thesis by (auto simp: call_step_def clean_from_def nearer_iff)
  qed
next
  case Locating
  then show ?thesis
    by (auto simp: call_step_def nearer_iff split: res.split option.split prod.split)
next
  case (Asking cur)
  then show ?thesis
    by (auto simp: call_step_def Let_def nearer_iff split: res.split option.split)
next
  case (Locking cur val)
  then show ?thesis using make_from_left by (simp add: call_step_def nearer_iff split: option.split)
next
  case (Loading cur gs)
  then show ?thesis using clean_from_left(2) by (simp add: call_step_def nearer_iff split: res.split option.split)
next
  case (Saving pif gs)
  then show ?thesis using clean_from_left(1) by (simp add: call_step_def nearer_iff split: res.split prod.split)
qed (use assms(2) in simp)

text \<open>What is left of a round, counted in the deletions that are still to come.\<close>

definition lines_left :: "line list \<Rightarrow> nat" where
  "lines_left ls = sum_list (map (\<lambda>l. case ln_device l of None \<Rightarrow> 0 | Some d \<Rightarrow> 2 * (length (DevList d) div 100) + 4) ls)"

fun gc_left :: "gc_at \<Rightarrow> nat \<times> nat" where
  "gc_left GcLooking = (3, 0)"
| "gc_left (GcVisiting info is w) = (2, 2 * length is + 2)"
| "gc_left (GcAsking info is w) = (2, 2 * length is + 1)"
| "gc_left (GcFirst l d ls at) = (1, lines_left ls + 2 * (length (DevList d) div 100) + (case at of DeLink \<Rightarrow> 4 | DeCtl \<Rightarrow> 3))"
| "gc_left (GcMore l d ls i js at) = (1, lines_left ls + 2 * length js + (case at of DeLink \<Rightarrow> 3 | DeCtl \<Rightarrow> 2))"
| "gc_left (GcRecord l ls) = (1, lines_left ls + 1)"
| "gc_left _ = (0, 0)"

lemma lines_from_left: "gc_left (lines_from ls) = (0, 0) \<or> gc_left (lines_from ls) = (1, lines_left ls)"
  by (cases ls) (auto simp: lines_from_def lines_left_def split: option.split)

lemma visit_from_left: "gc_left (visit_from is w) = (2, 2 * length is) \<or> fst (gc_left (visit_from is w)) < 2"
  using lines_from_left [of w] by (cases "is") (auto simp: visit_from_def)

lemma more_from_left: "gc_left (more_from l d ls js) = (1, lines_left ls + 2 * length js + 1)"
  by (cases js) (auto simp: more_from_def)

lemma visit_next: "2 * length is < n \<Longrightarrow> (gc_left (visit_from is w), (2, n)) \<in> nearer"
  using visit_from_left [of "is" w] by (cases "gc_left (visit_from is w)") (auto simp: nearer_iff)

lemma lines_next: "n > lines_left ls \<Longrightarrow> (gc_left (lines_from ls), (1, n)) \<in> nearer"
  using lines_from_left [of ls] by (auto simp: nearer_iff)

lemma gc_step_nearer:
  assumes "at \<noteq> GcWaiting" "at \<noteq> GcPanicked"
  shows "(gc_left (fst (gc_step ord at ag)), gc_left at) \<in> nearer"
proof (cases at)
  case GcLooking
  have "(gc_left (visit_from is []), (3, 0)) \<in> nearer" for "is"
    using visit_from_left [of "is" "[]"] by (cases "gc_left (visit_from is [])") (auto simp: nearer_iff)
  then show ?thesis using GcLooking by (simp add: gc_step_def nearer_iff split: prod.split res.split)
next
  case (GcVisiting info "is" w)
  then show ?thesis using visit_next [of "is" _ w] by (simp add: gc_step_def nearer_iff [of 2] split: res.split)
next
  case (GcAsking info "is" w)
  then show ?thesis using visit_next by (simp add: gc_step_def)
next
  case (GcFirst l d ls at')
  obtain r fs where r: "delete_step NewGPUShareOperator (link_id (Hash d) 0) at' (host ag) = (r, fs)" by force
  show ?thesis
  proof (cases r)
    case (Inl at2)
    then have "at' = DeLink" "at2 = DeCtl" using delete_step_on r by (metis fst_conv)+
    with Inl GcFirst r show ?thesis by (simp add: gc_step_def nearer_iff)
  next
    case (Inr e)
    with GcFirst r show ?thesis
      by (cases at') (auto simp: gc_step_def nearer_iff more_from_left split: option.split)
  qed
next
  case (GcMore l d ls i js at')
  obtain r fs where r: "delete_step NewGPUShareOperator (link_id (Hash d) i) at' (host ag) = (r, fs)" by force
  show ?thesis
  proof (cases r)
    case (Inl at2)
    then have "at' = DeLink" "at2 = DeCtl" using delete_step_on r by (metis fst_conv)+
    with Inl GcMore r show ?thesis by (simp add: gc_step_def nearer_iff)
  next
    case (Inr e)
    with GcMore r lines_next [of ls] show ?thesis
      by (cases at') (auto simp: gc_step_def nearer_iff more_from_left split: option.split)
  qed
next
  case (GcRecord l ls)
  then show ?thesis using lines_next [of ls] by (auto simp: gc_step_def nearer_iff split: prod.split)
qed (use assms in simp_all)

text \<open>A waiting call waits for one that can go on.\<close>

lemma run_call_enabled:
  assumes "i < length (th_calls s)" "\<forall>r. c_at (th_calls s ! i) \<noteq> Returned_with r"
    and "(\<exists>cur val. c_at (th_calls s ! i) = Locking cur val) \<longrightarrow> c_res (th_calls s ! i) \<notin> th_locked s"
  shows "\<exists>s'. run_call i kl s = Some s'"
  using run_call_next [OF assms(1) refl assms(2,3)] by (cases "call_step kl (th_calls s ! i) (th_agent s)") blast

lemma some_call_enabled:
  assumes "threads_inv s" "i < length (th_calls s)" "\<forall>r. c_at (th_calls s ! i) \<noteq> Returned_with r"
  shows "\<exists>j s'. c_res (th_calls s ! j) = c_res (th_calls s ! i) \<and> run_call j kl s = Some s'"
proof (cases "(\<exists>cur val. c_at (th_calls s ! i) = Locking cur val) \<and> c_res (th_calls s ! i) \<in> th_locked s")
  case True
  then obtain j where j: "j < length (th_calls s)" "inside (c_at (th_calls s ! j))" "c_res (th_calls s ! j) = c_res (th_calls s ! i)"
    using assms(1) by (auto simp: threads_inv_def locks_ok_def)
  then have "\<exists>s'. run_call j kl s = Some s'" by (intro run_call_enabled) auto
  with j(3) show ?thesis by blast
next
  case False
  with assms(2,3) show ?thesis using run_call_enabled [of i s] by blast
qed

lemma round_goes_on:
  assumes "threads_inv s" "th_gc s \<noteq> GcWaiting"
  shows "\<exists>s'. threads_next (ThCollect ord) s = Some s' \<and> (gc_left (th_gc s'), gc_left (th_gc s)) \<in> nearer
    \<and> th_calls s' = th_calls s"
proof -
  have "th_gc s \<noteq> GcPanicked" using assms(1) by (auto simp: threads_inv_def)
  then show ?thesis using gc_step_nearer [OF assms(2), of ord "th_agent s"] by (auto split: prod.split)
qed

text \<open>A call under way on a node, for the instances of the properties.\<close>

lemma demo_call:
  obtains s where "threads_reach s" "th_calls s = [call_arrives ResourceGPUCore demo_ids]" "th_locked s = {}"
    and "ResourceGPUCore \<in> fst ` set (th_plugins s)"
proof -
  obtain ag gp where first: "first_start (ag, gp)" using demo_node node_reach_def by (metis surj_pair)
  then have "plugins_ok gp" using first_start_inv by (auto simp: node_inv_def)
  then have gp: "ResourceGPUCore \<in> fst ` set gp" by (auto simp: plugins_ok_def image_set simp del: set_map)
  let ?s = "(threads_of ag gp)\<lparr>th_calls := [call_arrives ResourceGPUCore demo_ids]\<rparr>"
  have "map_of gp ResourceGPUCore \<noteq> None" using gp by (simp add: map_of_eq_None_iff)
  moreover have "list_all utf8_valid demo_ids" by code_simp
  ultimately have "thread_step (threads_of ag gp) ?s"
    by (intro thread_stepI [of "ThCall ResourceGPUCore demo_ids"]) (auto simp: threads_of_def)
  with first have "threads_reach ?s" unfolding threads_reach_def by blast
  with that gp show ?thesis by (simp add: threads_of_def)
qed

section \<open>Properties\<close>

text \<open>
  C5: No pre-start call and no round of the collector panics, in any interleaving of them, whatever
  the kubelet, the API server, the disk and the file system answer at each of their steps, and
  wherever the process has been ended and has come up again: no entry is assigned into a nil map,
  no nil device or client is used.  Other parts of the agent do panic on purpose, and are not meant
  here: \<open>Serve\<close> when its socket fails (\<open>Plugin_Server\<close>), and the start outside a cluster.
\<close>

theorem threads_never_panic:
  assumes "threads_reach s"
  shows "th_gc s \<noteq> GcPanicked \<and> (\<forall>c \<in> set (th_calls s). c_at c \<noteq> Returned_with Panic)"
proof -
  have inv: "gc_ok (th_gc s)" "list_all call_ok (th_calls s)"
    using threads_reach_inv [OF assms] by (simp_all add: threads_inv_def)
  have "c_at c \<noteq> Returned_with Panic" if "c \<in> set (th_calls s)" for c
  proof -
    have "at_ok (c_at c)" using inv(2) that by (simp add: list_all_iff call_ok_def)
    then show ?thesis by auto
  qed
  with inv(1) show ?thesis by (cases "th_gc s") simp_all
qed

theorem threads_never_panic_witness:
  "\<exists>s. threads_reach s \<and> length (th_calls s) = 1 \<and> (\<forall>c \<in> set (th_calls s). c_at c \<noteq> Returned_with Panic)"
proof -
  obtain s where s: "threads_reach s" "th_calls s = [call_arrives ResourceGPUCore demo_ids]" using demo_call by blast
  from threads_never_panic [OF s(1)] s show ?thesis by (intro exI [of _ s]) simp
qed

text \<open>
  C8: At every moment the database is readable: going over its records meets no error, and every
  device it holds for a container was made from a non-empty list of IDs of one of the two
  resources, so that its hash is the one the links are named with.
\<close>

theorem threads_records_wf:
  assumes "threads_reach s"
  shows "fst (ForEach (\<lambda>i n. (Ok (), Suc n)) (Storage (th_agent s)) 0) = Ok ()
    \<and> (\<forall>k i m c p. pods_of (Storage (th_agent s)) k = Some i \<and> ContainerDeviceMap i = Some m \<and> (c, p) \<in> set m \<longrightarrow>
         (\<exists>ids r. ids \<noteq> [] \<and> r \<in> {ResourceGPUCore, ResourceGPUMemory} \<and> p = Some (NewDevice ids r)))
    \<and> (\<forall>k i. pods_of (Storage (th_agent s)) k = Some i \<longrightarrow> ContainerDeviceMap i \<noteq> None)"
proof -
  have "store_inv (Storage (th_agent s))"
    using threads_reach_inv [OF assms] by (simp add: threads_inv_def agent_inv_def)
  from store_inv_wf [OF this] show ?thesis by blast
qed

theorem threads_records_wf_witness:
  "\<exists>s. threads_reach s \<and> th_calls s \<noteq> [] \<and> fst (ForEach (\<lambda>i n. (Ok (), Suc n)) (Storage (th_agent s)) 0) = Ok ()"
proof -
  obtain s where s: "threads_reach s" "th_calls s = [call_arrives ResourceGPUCore demo_ids]" using demo_call by blast
  from threads_records_wf [OF s(1)] s show ?thesis by (intro exI [of _ s]) simp
qed

text \<open>
  C11: The lock of a plugin does what it is for: no two calls of one plugin are between taking it and
  giving it back at the same time, and it is held exactly while one is.
\<close>

theorem plugin_lock_excludes:
  assumes "threads_reach s"
  shows "(\<forall>i < length (th_calls s). \<forall>j < length (th_calls s).
       i \<noteq> j \<longrightarrow> inside (c_at (th_calls s ! i)) \<longrightarrow> inside (c_at (th_calls s ! j)) \<longrightarrow>
       c_res (th_calls s ! i) \<noteq> c_res (th_calls s ! j))
    \<and> th_locked s = c_res ` {c \<in> set (th_calls s). inside (c_at c)}"
proof -
  have "locks_ok (th_calls s) (th_locked s)" using threads_reach_inv [OF assms] by (simp add: threads_inv_def)
  then have lk: "\<forall>i < length (th_calls s). inside (c_at (th_calls s ! i)) \<longrightarrow> c_res (th_calls s ! i) \<in> th_locked s"
    and excl: "\<forall>i < length (th_calls s). \<forall>j < length (th_calls s).
       i \<noteq> j \<longrightarrow> inside (c_at (th_calls s ! i)) \<longrightarrow> inside (c_at (th_calls s ! j)) \<longrightarrow>
       c_res (th_calls s ! i) \<noteq> c_res (th_calls s ! j)"
    and held: "\<forall>r \<in> th_locked s. \<exists>i < length (th_calls s). inside (c_at (th_calls s ! i)) \<and> c_res (th_calls s ! i) = r"
    unfolding locks_ok_def by blast+
  have "c_res ` {c \<in> set (th_calls s). inside (c_at c)} \<subseteq> th_locked s" using lk by (auto simp: in_set_conv_nth)
  moreover have "th_locked s \<subseteq> c_res ` {c \<in> set (th_calls s). inside (c_at c)}" using held by fastforce
  ultimately show ?thesis using excl by blast
qed

theorem plugin_lock_excludes_witness:
  "\<exists>s. threads_reach s \<and> length (th_calls s) = 1 \<and> th_locked s = {}"
proof -
  obtain s where s: "threads_reach s" "th_calls s = [call_arrives ResourceGPUCore demo_ids]" using demo_call by blast
  have "th_locked s = c_res ` {c \<in> set (th_calls s). inside (c_at c)}" using plugin_lock_excludes [OF s(1)] by blast
  also have "\<dots> = {}" using s(2) by (simp add: call_arrives_def)
  finally show ?thesis using s by (intro exI [of _ s]) simp
qed

text \<open>
  C27: What the goroutines do to the files of the node: a step of a pre-start call changes no path but
  the links named with the hash of the devices it was called for, and a step of the collector none
  but links of the device it is deleting, and these it only removes.  The sockets of the plugins and
  the file of the database are not among these paths; \<open>Plugin_Server\<close> and \<open>Bolt_Storage\<close> have them.
\<close>

theorem threads_change_only_links:
  shows "(threads_next (ThRun i kl) s = Some s' \<and> node_at (host (th_agent s')) p \<noteq> node_at (host (th_agent s)) p \<longrightarrow>
       link_of (c_dev (th_calls s ! i)) p)
    \<and> (threads_next (ThCollect ord) s = Some s' \<and> node_at (host (th_agent s')) p \<noteq> node_at (host (th_agent s)) p \<longrightarrow>
       node_at (host (th_agent s')) p = None \<and> (\<exists>d. gc_device (th_gc s) = Some d \<and> link_of d p))"
proof -
  have "node_at (host (th_agent s')) p = node_at (host (th_agent s)) p"
    if "threads_next (ThRun i kl) s = Some s'" "\<not> link_of (c_dev (th_calls s ! i)) p"
    using that run_call_step [of i kl s s'] call_step_nodes [of "th_calls s ! i" p kl "th_agent s"] by simp
  moreover have "th_agent s' = snd (gc_step ord (th_gc s) (th_agent s))" if "threads_next (ThCollect ord) s = Some s'"
    using that by (auto split: prod.splits)
  ultimately show ?thesis using gc_step_nodes [of ord "th_gc s" "th_agent s" p] by metis
qed

theorem threads_change_only_links_witness:
  "\<exists>s s'. threads_reach s \<and> threads_next (ThRun 0 demo_kubelet) s = Some s'
     \<and> node_at (host (th_agent s')) ''/dev/nvidia0'' = node_at (host (th_agent s)) ''/dev/nvidia0''"
proof -
  obtain s where s: "threads_reach s" "th_calls s = [call_arrives ResourceGPUCore demo_ids]" using demo_call by blast
  have ids: "demo_ids \<noteq> []" by code_simp
  then obtain s' where s': "threads_next (ThRun 0 demo_kubelet) s = Some s'"
    using run_call_enabled [of 0 s demo_kubelet] s(2) by (auto simp: call_arrives_def)
  have "\<not> link_of d ''/dev/nvidia0''" for d by (simp add: link_of_def)
  with threads_change_only_links [of 0 demo_kubelet s s' "''/dev/nvidia0''"] s(1) s' show ?thesis by blast
qed

text \<open>
  C9: Every call and every round comes to its end.  A call that has not returned is never stuck, it or
  the one call of its plugin that holds the lock can go on, and so can a round of the collector;
  each step brings the goroutine that makes it nearer to its end in a well-founded order, whatever
  the step finds, and moves none of the others.
\<close>

theorem calls_progress:
  assumes "threads_reach s" and "i < length (th_calls s)" and "\<forall>r. c_at (th_calls s ! i) \<noteq> Returned_with r"
  shows "(\<exists>j s'. c_res (th_calls s ! j) = c_res (th_calls s ! i) \<and> run_call j kl s = Some s')
    \<and> wf nearer
    \<and> (\<forall>j s'. run_call j kl s = Some s' \<longrightarrow>
         (call_left (c_at (th_calls s' ! j)), call_left (c_at (th_calls s ! j))) \<in> nearer
         \<and> (\<forall>l. l \<noteq> j \<longrightarrow> th_calls s' ! l = th_calls s ! l) \<and> th_gc s' = th_gc s)
    \<and> (th_gc s \<noteq> GcWaiting \<longrightarrow> (\<exists>s'. threads_next (ThCollect ord) s = Some s'
         \<and> (gc_left (th_gc s'), gc_left (th_gc s)) \<in> nearer \<and> th_calls s' = th_calls s))"
proof -
  have inv: "threads_inv s" using threads_reach_inv [OF assms(1)] .
  have "(call_left (c_at (th_calls s' ! j)), call_left (c_at (th_calls s ! j))) \<in> nearer
      \<and> (\<forall>l. l \<noteq> j \<longrightarrow> th_calls s' ! l = th_calls s ! l) \<and> th_gc s' = th_gc s" if "run_call j kl s = Some s'" for j s'
  proof -
    note run = run_call_step [OF that]
    then have "at_ok (c_at (th_calls s ! j))"
      using inv by (simp add: threads_inv_def list_all_length call_ok_def)
    with call_step_nearer run show ?thesis by simp
  qed
  moreover have "\<exists>s'. threads_next (ThCollect ord) s = Some s' \<and> (gc_left (th_gc s'), gc_left (th_gc s)) \<in> nearer
      \<and> th_calls s' = th_calls s" if "th_gc s \<noteq> GcWaiting"
    using round_goes_on [OF inv that] .
  ultimately show ?thesis using some_call_enabled [OF inv assms(2,3)] nearer_wf by blast
qed

theorem calls_progress_witness:
  "\<exists>s s'. threads_reach s \<and> run_call 0 demo_kubelet s = Some s'
     \<and> (call_left (c_at (th_calls s' ! 0)), (7, 0)) \<in> nearer"
proof -
  obtain s where s: "threads_reach s" "th_calls s = [call_arrives ResourceGPUCore demo_ids]" using demo_call by blast
  have "demo_ids \<noteq> []" by code_simp
  with s(2) have at: "c_at (th_calls s ! 0) = Locating" "0 < length (th_calls s)" by (simp_all add: call_arrives_def)
  then obtain s' where s': "run_call 0 demo_kubelet s = Some s'" using run_call_enabled [of 0 s] by auto
  have "\<forall>r. c_at (th_calls s ! 0) \<noteq> Returned_with r" using at(1) by simp
  from calls_progress [OF s(1) at(2) this, of demo_kubelet] s' at(1) s(1) show ?thesis by fastforce
qed

end
