(* ===== verification/Thread_Refinement.thy ===== *)
theory Thread_Refinement
  imports Thread_Safety
begin

text \<open>
  The handlers of \<open>Gpushare_Plugin\<close> and the round of \<open>Gc\<close>, which \<open>Node_Life\<close> takes as single
  steps, are the runs of \<open>Node_Threads\<close> that nothing interrupts.
\<close>

section \<open>A call on its own\<close>

inductive call_alone :: "kubelet \<Rightarrow> prestart \<times> agent \<Rightarrow> prestart \<times> agent \<Rightarrow> bool" for kl where
  call_aloneI: "\<forall>r. c_at c \<noteq> Returned_with r \<Longrightarrow> call_step kl c ag = (at, ag') \<Longrightarrow>
     call_alone kl (c, ag) (c\<lparr>c_at := at\<rparr>, ag')"

abbreviation call_runs :: "kubelet \<Rightarrow> prestart \<times> agent \<Rightarrow> prestart \<times> agent \<Rightarrow> bool" where
  "call_runs kl \<equiv> (call_alone kl)\<^sup>*\<^sup>*"

lemma call_runs_step:
  assumes "call_step kl (c\<lparr>c_at := at\<rparr>) ag = (at', ag')" "\<forall>r. at \<noteq> Returned_with r"
    and "call_runs kl (c\<lparr>c_at := at'\<rparr>, ag') x"
  shows "call_runs kl (c\<lparr>c_at := at\<rparr>, ag) x"
proof -
  have "call_alone kl (c\<lparr>c_at := at\<rparr>, ag) (c\<lparr>c_at := at'\<rparr>, ag')"
    using call_aloneI [of "c\<lparr>c_at := at\<rparr>" kl ag at' ag'] assms(1,2) by simp
  from this assms(3) show ?thesis by (rule converse_rtranclp_into_rtranclp)
qed

lemma Making_step:
  assumes "create_step NewGPUShareOperator (gs ! i) (link_id (Hash (c_dev c)) i) at fs = (r, fs')"
  shows "call_step kl (c\<lparr>c_at := Making cur gs i at\<rparr>) (ag\<lparr>host := fs\<rparr>) =
    (case r of Inl at \<Rightarrow> Making cur gs i at | Inr None \<Rightarrow> make_from cur gs (Suc i)
     | Inr (Some e) \<Rightarrow> Returned_with (Fail e), ag\<lparr>host := fs'\<rparr>)"
  using assms by (simp add: call_step_def)

lemma Create_runs:
  assumes "GPUShare_Create NewGPUShareOperator (gs ! i) (link_id (Hash (c_dev c)) i) fs = (e, fs')"
  shows "call_runs kl (c\<lparr>c_at := Making cur gs i CrCheck\<rparr>, ag\<lparr>host := fs\<rparr>)
    (c\<lparr>c_at := (case e of None \<Rightarrow> make_from cur gs (Suc i) | Some e \<Rightarrow> Returned_with (Fail e))\<rparr>, ag\<lparr>host := fs'\<rparr>)"
proof -
  let ?id = "link_id (Hash (c_dev c)) i" and ?g = "gs ! i"
  let ?at = "\<lambda>at fs. (c\<lparr>c_at := Making cur gs i at\<rparr>, ag\<lparr>host := fs\<rparr>)"
  let ?step = "\<lambda>at fs r fs'. create_step NewGPUShareOperator ?g ?id at fs = (r, fs')"
  have goes: "call_runs kl (?at at fs) x"
    if "?step at fs (Inl at') fs'" "call_runs kl (?at at' fs') x" for at fs at' fs' x
    using call_runs_step [OF Making_step [OF that(1)]] that(2) by simp
  have ends: "call_runs kl (?at at fs)
      (c\<lparr>c_at := (case e of None \<Rightarrow> make_from cur gs (Suc i) | Some e \<Rightarrow> Returned_with (Fail e))\<rparr>, ag\<lparr>host := fs'\<rparr>)"
    if "?step at fs (Inr e) fs'" for at fs e fs'
    using call_runs_step [OF Making_step [OF that]] by (simp split: option.split)
  show ?thesis
  proof (cases "IsExist fs (sym_link ?id)")
    case True
    then have "?step CrCheck fs (Inr e) fs'"
      using assms by (simp add: GPUShare_Create_def create_step_def Let_def)
    then show ?thesis by (rule ends)
  next
    case False
    then have first: "?step CrCheck fs (Inl CrLink) fs" by (simp add: create_step_def)
    obtain e1 fs1 where link: "os_Symlink (gpu_node ?g) (sym_link ?id) fs = (e1, fs1)" by force
    show ?thesis
    proof (cases e1)
      case (Some x)
      then have "?step CrLink fs (Inr e) fs'"
        using assms False link by (simp add: GPUShare_Create_def create_step_def Let_def)
      from goes [OF first ends [OF this]] show ?thesis .
    next
      case None
      then have second: "?step CrLink fs (Inl CrCtlCheck) fs1" using link by (simp add: create_step_def)
      show ?thesis
      proof (cases "IsExist fs1 (ctl_link ?id)")
        case True
        then have "?step CrCtlCheck fs1 (Inr e) fs'"
          using assms False link None by (simp add: GPUShare_Create_def create_step_def Let_def)
        from goes [OF first goes [OF second ends [OF this]]] show ?thesis .
      next
        case absent: False
        then have third: "?step CrCtlCheck fs1 (Inl CrCtlLink) fs1" by (simp add: create_step_def)
        have "?step CrCtlLink fs1 (Inr e) fs'"
          using assms False link None absent
          by (auto simp: GPUShare_Create_def create_step_def Let_def split: option.splits prod.splits)
        from goes [OF first goes [OF second goes [OF third ends [OF this]]]] show ?thesis .
      qed
    qed
  qed
qed

lemma Cleaning_step:
  assumes "delete_step NewGPUShareOperator (link_id (Hash (c_dev c)) i) at fs = (r, fs')"
  shows "call_step kl (c\<lparr>c_at := Cleaning gs i at\<rparr>) (ag\<lparr>host := fs\<rparr>) =
    (case r of Inl at \<Rightarrow> Cleaning gs i at | Inr _ \<Rightarrow> clean_from gs (Suc i), ag\<lparr>host := fs'\<rparr>)"
  using assms by (simp add: call_step_def)

text \<open>\<open>Delete\<close> step by step, for the clean-up and for the collector.\<close>

lemma Delete_split:
  assumes "GPUShare_Delete G j eid fs = (e, fs')"
  shows "delete_step G eid DeLink fs = (Inr e, fs')
    \<or> (\<exists>fs1. delete_step G eid DeLink fs = (Inl DeCtl, fs1) \<and> delete_step G eid DeCtl fs1 = (Inr e, fs'))"
  using assms by (auto simp: GPUShare_Delete_def delete_step_def Let_def split: option.splits prod.splits)

lemma Delete_runs:
  assumes "GPUShare_Delete NewGPUShareOperator j (link_id (Hash (c_dev c)) i) fs = (e, fs')"
  shows "call_runs kl (c\<lparr>c_at := Cleaning gs i DeLink\<rparr>, ag\<lparr>host := fs\<rparr>)
    (c\<lparr>c_at := clean_from gs (Suc i)\<rparr>, ag\<lparr>host := fs'\<rparr>)"
proof -
  have ends: "call_runs kl (c\<lparr>c_at := Cleaning gs i at\<rparr>, ag\<lparr>host := fs\<rparr>) (c\<lparr>c_at := clean_from gs (Suc i)\<rparr>, ag\<lparr>host := fs'\<rparr>)"
    if "delete_step NewGPUShareOperator (link_id (Hash (c_dev c)) i) at fs = (Inr e, fs')" for at fs
    using call_runs_step [OF Cleaning_step [OF that]] by simp
  from Delete_split [OF assms] show ?thesis
  proof (elim disjE exE conjE)
    fix fs1
    assume "delete_step NewGPUShareOperator (link_id (Hash (c_dev c)) i) DeLink fs = (Inl DeCtl, fs1)"
      and last: "delete_step NewGPUShareOperator (link_id (Hash (c_dev c)) i) DeCtl fs1 = (Inr e, fs')"
    from call_runs_step [OF Cleaning_step [OF this(1)]] ends [OF last] show ?thesis by simp
  qed (rule ends)
qed

lemma create_loop_runs:
  assumes "i \<le> length gs" "create_loop gpushare_operator (Hash (c_dev c)) i (drop i gs) fs = (e, fs')"
  shows "call_runs kl (c\<lparr>c_at := make_from cur gs i\<rparr>, ag\<lparr>host := fs\<rparr>)
    (c\<lparr>c_at := (case e of None \<Rightarrow> Loading cur gs | Some e \<Rightarrow> Returned_with (Fail e))\<rparr>, ag\<lparr>host := fs'\<rparr>)"
  using assms
proof (induction "length gs - i" arbitrary: i fs)
  case 0
  then show ?case by (simp add: make_from_def)
next
  case (Suc n)
  then have i: "i < length gs" by simp
  obtain e1 fs1 where e1: "GPUShare_Create NewGPUShareOperator (gs ! i) (link_id (Hash (c_dev c)) i) fs = (e1, fs1)"
    by force
  note run = Create_runs [OF e1, of kl cur ag]
  have loop: "create_loop gpushare_operator (Hash (c_dev c)) i (drop i gs) fs =
      (case e1 of Some e \<Rightarrow> (Some e, fs1) | None \<Rightarrow> create_loop gpushare_operator (Hash (c_dev c)) (Suc i) (drop (Suc i) gs) fs1)"
    using e1 by (simp add: Cons_nth_drop_Suc [OF i, symmetric])
  show ?case
  proof (cases e1)
    case None
    with Suc.prems(2) loop
    have "create_loop gpushare_operator (Hash (c_dev c)) (Suc i) (drop (Suc i) gs) fs1 = (e, fs')" by simp
    with Suc.hyps i have "call_runs kl (c\<lparr>c_at := make_from cur gs (Suc i)\<rparr>, ag\<lparr>host := fs1\<rparr>)
        (c\<lparr>c_at := (case e of None \<Rightarrow> Loading cur gs | Some e \<Rightarrow> Returned_with (Fail e))\<rparr>, ag\<lparr>host := fs'\<rparr>)"
      by simp
    with run None i show ?thesis by (simp add: make_from_def [of cur gs i])
  next
    case (Some x)
    with Suc.prems(2) loop have "e = Some x" "fs' = fs1" by simp_all
    with run Some i show ?thesis by (simp add: make_from_def [of cur gs i])
  qed
qed

lemma cleanup_loop_runs:
  assumes "i \<le> length gs"
  shows "call_runs kl (c\<lparr>c_at := clean_from gs i\<rparr>, ag\<lparr>host := fs\<rparr>)
    (c\<lparr>c_at := Returned_with (Ok ())\<rparr>, ag\<lparr>host := cleanup_loop gpushare_operator (Hash (c_dev c)) i (drop i gs) fs\<rparr>)"
  using assms
proof (induction "length gs - i" arbitrary: i fs)
  case 0
  then show ?case by (simp add: clean_from_def)
next
  case (Suc n)
  then have i: "i < length gs" by simp
  obtain e1 fs1 where e1: "GPUShare_Delete NewGPUShareOperator (gs ! i) (link_id (Hash (c_dev c)) i) fs = (e1, fs1)"
    by force
  have loop: "cleanup_loop gpushare_operator (Hash (c_dev c)) i (drop i gs) fs =
      cleanup_loop gpushare_operator (Hash (c_dev c)) (Suc i) (drop (Suc i) gs) fs1"
    using e1 by (simp add: Cons_nth_drop_Suc [OF i, symmetric])
  from Suc.hyps i have "call_runs kl (c\<lparr>c_at := clean_from gs (Suc i)\<rparr>, ag\<lparr>host := fs1\<rparr>)
      (c\<lparr>c_at := Returned_with (Ok ())\<rparr>, ag\<lparr>host := cleanup_loop gpushare_operator (Hash (c_dev c)) (Suc i) (drop (Suc i) gs) fs1\<rparr>)"
    by simp
  with Delete_runs [OF e1, of kl gs ag] loop i show ?case by (simp add: clean_from_def [of gs i])
qed


lemma record_runs:
  "call_runs kl (c\<lparr>c_at := Loading cur gs\<rparr>, ag\<lparr>host := fs\<rparr>)
     (c\<lparr>c_at := Returned_with (case fst (record_device cur (c_dev c) (Storage ag)) of Panic \<Rightarrow> Panic | _ \<Rightarrow> Ok ())\<rparr>,
      ag\<lparr>host := (case fst (record_device cur (c_dev c) (Storage ag)) of
                    Fail e \<Rightarrow> cleanup_loop gpushare_operator (Hash (c_dev c)) 0 gs fs | _ \<Rightarrow> fs),
         Storage := snd (record_device cur (c_dev c) (Storage ag))\<rparr>)"
proof -
  let ?ag = "ag\<lparr>host := fs\<rparr>"
  note clean = cleanup_loop_runs [of 0 gs kl c, simplified]
  show ?thesis
  proof (cases "LoadOrCreate (pc_Namespace cur) (pc_Name cur) (Storage ag)")
    case (Fail e)
    then show ?thesis
      using call_runs_step [of kl "Loading cur gs" c ?ag "clean_from gs 0" ?ag] clean [of fs ag]
      by (simp add: call_step_def record_device_def)
  next
    case Panic
    then show ?thesis
      using call_runs_step [of kl "Loading cur gs" c ?ag "Returned_with Panic" ?ag]
      by (simp add: call_step_def record_device_def)
  next
    case (Ok pif)
    show ?thesis
    proof (cases "ContainerDeviceMap pif")
      case None
      with Ok show ?thesis
        using call_runs_step [of kl "Loading cur gs" c ?ag "Returned_with Panic" ?ag]
        by (simp add: call_step_def record_device_def)
    next
      case (Some m)
      let ?pif = "pif\<lparr>ContainerDeviceMap := Some (amap_put (pc_Container cur) (Some (c_dev c)) m)\<rparr>"
      obtain x db where x: "Save ?pif (Storage ag) = (x, db)" by force
      have swap: "ag\<lparr>Storage := db, host := f\<rparr> = ag\<lparr>host := f, Storage := db\<rparr>" for f by simp
      let ?at = "case x of Ok _ \<Rightarrow> Returned_with (Ok ()) | Fail e \<Rightarrow> clean_from gs 0 | Panic \<Rightarrow> Returned_with Panic"
      have "call_runs kl (c\<lparr>c_at := ?at\<rparr>, ?ag\<lparr>Storage := db\<rparr>)
          (c\<lparr>c_at := Returned_with (case x of Panic \<Rightarrow> Panic | _ \<Rightarrow> Ok ())\<rparr>,
           ag\<lparr>host := (case x of Fail e \<Rightarrow> cleanup_loop gpushare_operator (Hash (c_dev c)) 0 gs fs | _ \<Rightarrow> fs), Storage := db\<rparr>)"
        using clean [of fs "ag\<lparr>Storage := db\<rparr>"] swap by (cases x) simp_all
      then have "call_runs kl (c\<lparr>c_at := Saving ?pif gs\<rparr>, ?ag)
          (c\<lparr>c_at := Returned_with (case x of Panic \<Rightarrow> Panic | _ \<Rightarrow> Ok ())\<rparr>,
           ag\<lparr>host := (case x of Fail e \<Rightarrow> cleanup_loop gpushare_operator (Hash (c_dev c)) 0 gs fs | _ \<Rightarrow> fs), Storage := db\<rparr>)"
        using x by (intro call_runs_step [of kl "Saving ?pif gs" c ?ag ?at "?ag\<lparr>Storage := db\<rparr>"])
          (simp_all add: call_step_def)
      then show ?thesis
        using call_runs_step [of kl "Loading cur gs" c ?ag "Saving ?pif gs" ?ag] Ok Some x
        by (simp add: call_step_def record_device_def)
    qed
  qed
qed

lemma link_and_record_runs:
  assumes "Operator ag = gpushare_operator" "link_and_record cur (c_dev c) gs ag = (r, ag')"
  shows "call_runs kl (c\<lparr>c_at := make_from cur gs 0\<rparr>, ag) (c\<lparr>c_at := Returned_with r\<rparr>, ag')"
proof -
  obtain e fs where e: "create_loop gpushare_operator (Hash (c_dev c)) 0 gs (host ag) = (e, fs)" by force
  have links: "call_runs kl (c\<lparr>c_at := make_from cur gs 0\<rparr>, ag)
      (c\<lparr>c_at := (case e of None \<Rightarrow> Loading cur gs | Some e \<Rightarrow> Returned_with (Fail e))\<rparr>, ag\<lparr>host := fs\<rparr>)"
    using create_loop_runs [of 0 gs c "host ag" e fs kl cur ag] e by simp
  show ?thesis
  proof (cases e)
    case None
    obtain x db where x: "record_device cur (c_dev c) (Storage ag) = (x, db)" by force
    have "r = (case x of Panic \<Rightarrow> Panic | _ \<Rightarrow> Ok ())"
      "ag' = ag\<lparr>host := (case x of Fail e \<Rightarrow> cleanup_loop gpushare_operator (Hash (c_dev c)) 0 gs fs | _ \<Rightarrow> fs), Storage := db\<rparr>"
      using assms e None x by (auto simp: link_and_record_def split: res.splits)
    with record_runs [where kl = kl and c = c and cur = cur and gs = gs and ag = ag and fs = fs] x have "call_runs kl (c\<lparr>c_at := Loading cur gs\<rparr>, ag\<lparr>host := fs\<rparr>)
        (c\<lparr>c_at := Returned_with r\<rparr>, ag')" by simp
    with links None show ?thesis by simp
  next
    case (Some x)
    with assms e have "r = Fail x" "ag' = ag\<lparr>host := fs\<rparr>" by (simp_all add: link_and_record_def)
    with links Some show ?thesis by simp
  qed
qed

text \<open>The whole call, from its arrival.\<close>

lemma prestart_runs:
  assumes "Operator ag = gpushare_operator" "bp_ResourceName bp = r"
    and "prestart_with (parse_for r) bp kl ids ag = (x, ag')"
  shows "call_runs kl (call_arrives r ids, ag) ((call_arrives r ids)\<lparr>c_at := Returned_with x\<rparr>, ag')"
proof (cases "ids = []")
  case True
  with assms(3) have "x = Fail EEmptyDeviceList" "ag' = ag" by (simp_all add: prestart_with_def)
  with True show ?thesis by (simp add: call_arrives_def)
next
  case False
  let ?d = "NewDevice ids r" and ?c = "call_arrives r ids"
  have c: "c_res ?c = r" "c_dev ?c = ?d" "?c\<lparr>c_at := Locating\<rparr> = ?c"
    using False by (simp_all add: call_arrives_def)
  obtain y ag1 where y: "locate_assumed kl ?d r ag = (y, ag1)" by force
  have oper: "Operator ag1 = gpushare_operator" using locate_assumed_frame [OF y] assms(1) by simp
  have located: "call_runs kl (?c, ag)
      (?c\<lparr>c_at := (case y of Ok (cur, val) \<Rightarrow> Locking cur val | Fail e \<Rightarrow> Returned_with (Fail e) | Panic \<Rightarrow> Returned_with Panic)\<rparr>, ag1)"
  proof (cases "DeviceLocator ag r")
    case None
    with y have "y = Panic" "ag1 = ag" by (simp_all add: locate_assumed_def)
    moreover have "call_step kl (?c\<lparr>c_at := Locating\<rparr>) ag = (Returned_with Panic, ag)"
      using None c(1,2) by (simp add: call_step_def)
    from call_runs_step [OF this, unfolded c(3)]
    have "call_runs kl (?c, ag) (?c\<lparr>c_at := Returned_with Panic\<rparr>, ag)" by simp
    ultimately show ?thesis by simp
  next
    case (Some k)
    obtain z k' where z: "Locate (dial_err kl) (answer kl) ?d k = (z, k')" by force
    let ?ag = "ag\<lparr>DeviceLocator := (DeviceLocator ag)(r \<mapsto> k')\<rparr>"
    let ?at = "case z of Ok cur \<Rightarrow> Asking cur | Fail e \<Rightarrow> Returned_with (Fail e) | Panic \<Rightarrow> Returned_with Panic"
    have "call_step kl (?c\<lparr>c_at := Locating\<rparr>) ag = (?at, ?ag)"
      using Some z c(1,2) by (simp add: call_step_def)
    note first = call_runs_step [OF this, unfolded c(3)]
    show ?thesis
    proof (cases z)
      case (Ok cur)
      let ?at' = "case y of Ok (cur, val) \<Rightarrow> Locking cur val | Fail e \<Rightarrow> Returned_with (Fail e) | Panic \<Rightarrow> Returned_with Panic"
      have "call_step kl (?c\<lparr>c_at := Asking cur\<rparr>) ?ag = (?at', ag1)"
        using y Some z Ok
        by (auto simp: call_step_def locate_assumed_def Let_def GetPod_def split: option.splits if_splits)
      from first call_runs_step [OF this] Ok show ?thesis by simp
    next
      case (Fail e)
      with y Some z have "y = Fail e" "ag1 = ?ag" by (simp_all add: locate_assumed_def Let_def)
      with first Fail show ?thesis by simp
    next
      case Panic
      with y Some z have "y = Panic" "ag1 = ?ag" by (simp_all add: locate_assumed_def Let_def)
      with first Panic show ?thesis by simp
    qed
  qed
  show ?thesis
  proof (cases y)
    case (Ok cv)
    obtain cur val where cv: "cv = (cur, val)" by force
    show ?thesis
    proof (cases "parse_for r val")
      case None
      then have "x = Fail (ENotIndex val)" "ag' = ag1"
        using assms(2,3) False y Ok cv by (simp_all add: prestart_with_def)
      with None located Ok cv c show ?thesis
        using call_runs_step [of kl "Locking cur val" ?c ag1 "Returned_with (Fail (ENotIndex val))" ag1]
        by (auto simp: call_step_def intro: rtranclp_trans)
    next
      case (Some gs)
      then have "link_and_record cur ?d gs ag1 = (x, ag')"
        using assms(2,3) False y Ok cv by (simp add: prestart_with_def)
      then have "call_runs kl (?c\<lparr>c_at := make_from cur gs 0\<rparr>, ag1) (?c\<lparr>c_at := Returned_with x\<rparr>, ag')"
        using link_and_record_runs [OF oper, where cur = cur and c = ?c and gs = gs and r = x and ag' = ag' and kl = kl] c by simp
      then have "call_runs kl (?c\<lparr>c_at := Locking cur val\<rparr>, ag1) (?c\<lparr>c_at := Returned_with x\<rparr>, ag')"
        using Some c by (intro call_runs_step [of kl "Locking cur val" ?c ag1 "make_from cur gs 0" ag1])
          (simp_all add: call_step_def)
      with located Ok cv show ?thesis by (auto intro: rtranclp_trans)
    qed
  next
    case (Fail e)
    then have "x = Fail e" "ag' = ag1" using assms(2,3) False y by (simp_all add: prestart_with_def)
    with located Fail show ?thesis by simp
  next
    case Panic
    then have "x = Panic" "ag' = ag1" using assms(2,3) False y by (simp_all add: prestart_with_def)
    with located Panic show ?thesis by simp
  qed
qed

section \<open>A round on its own\<close>

inductive gc_alone :: "map_order \<Rightarrow> gc_at \<times> agent \<Rightarrow> gc_at \<times> agent \<Rightarrow> bool" for ord where
  gc_aloneI: "gc_step ord at ag = x \<Longrightarrow> gc_alone ord (at, ag) x"

abbreviation gc_runs :: "map_order \<Rightarrow> gc_at \<times> agent \<Rightarrow> gc_at \<times> agent \<Rightarrow> bool" where
  "gc_runs ord \<equiv> (gc_alone ord)\<^sup>*\<^sup>*"

lemma gc_runs_step: "gc_step ord at ag = y \<Longrightarrow> gc_runs ord y x \<Longrightarrow> gc_runs ord (at, ag) x"
  using converse_rtranclp_into_rtranclp [of "gc_alone ord" "(at, ag)" y x] gc_aloneI by blast

lemma visit_runs:
  "gc_runs ord (visit_from infos acc, ag)
     (lines_from (acc @ concat (map (lines_of ord) (filter (pod_gone (Sitter ag)) infos))), ag)"
proof (induction infos arbitrary: acc)
  case (Cons i infos)
  let ?P = "GetPod (Namespace i) (Name i) (Sitter ag)" and ?A = "GetPodFromApiServer (Namespace i) (Name i) (Sitter ag)"
  have start: "visit_from (i # infos) acc = GcVisiting i infos acc" by (simp add: visit_from_def)
  show ?case
  proof (cases "\<exists>p. ?P = Ok p")
    case True
    then have "\<not> pod_gone (Sitter ag) i" "gc_step ord (GcVisiting i infos acc) ag = (visit_from infos acc, ag)"
      by (auto simp: pod_gone_def gc_step_def)
    with Cons.IH [of acc] show ?thesis unfolding start by (intro gc_runs_step) auto
  next
    case False
    then have ask: "gc_step ord (GcVisiting i infos acc) ag = (GcAsking i infos acc, ag)"
        "pod_gone (Sitter ag) i \<longleftrightarrow> IsNotFound ?A"
      by (cases ?P; auto simp: pod_gone_def gc_step_def)+
    let ?acc = "if pod_gone (Sitter ag) i then acc @ lines_of ord i else acc"
    have "gc_step ord (GcAsking i infos acc) ag = (visit_from infos ?acc, ag)"
      using ask(2) by (simp add: gc_step_def)
    from gc_runs_step [OF ask(1) gc_runs_step [OF this Cons.IH]] show ?thesis
      unfolding start by (cases "pod_gone (Sitter ag) i") simp_all
  qed
qed (simp add: visit_from_def)

lemma delete_seq_runs:
  assumes "delete_seq gpushare_operator (Hash d) js fs = (e, fs')"
  shows "gc_runs ord (more_from l d ls js, ag\<lparr>host := fs\<rparr>)
    (case e of None \<Rightarrow> GcRecord l ls | Some _ \<Rightarrow> lines_from ls, ag\<lparr>host := fs'\<rparr>)"
  using assms
proof (induction js arbitrary: fs)
  case Nil
  then show ?case by (simp add: more_from_def)
next
  case (Cons j js)
  let ?at = "\<lambda>at fs. (GcMore l d ls j js at, ag\<lparr>host := fs\<rparr>)"
  obtain e1 fs1 where e1: "GPUShare_Delete NewGPUShareOperator UselessNumber (link_id (Hash d) j) fs = (e1, fs1)" by force
  have last: "gc_runs ord (?at at fs0) (case e of None \<Rightarrow> GcRecord l ls | Some _ \<Rightarrow> lines_from ls, ag\<lparr>host := fs'\<rparr>)"
    if "delete_step NewGPUShareOperator (link_id (Hash d) j) at fs0 = (Inr e1, fs1)" for at fs0
  proof (cases e1)
    case None
    with Cons.prems e1 have "delete_seq gpushare_operator (Hash d) js fs1 = (e, fs')" by simp
    note rest = Cons.IH [OF this]
    show ?thesis
      by (rule gc_runs_step [OF _ rest]) (use that None in \<open>simp add: gc_step_def\<close>)
  next
    case (Some x)
    with Cons.prems e1 have "e = Some x" "fs' = fs1" by simp_all
    moreover have "gc_step ord (GcMore l d ls j js at) (ag\<lparr>host := fs0\<rparr>) = (lines_from ls, ag\<lparr>host := fs1\<rparr>)"
      using that Some by (simp add: gc_step_def)
    ultimately show ?thesis by (auto intro: r_into_rtranclp gc_aloneI)
  qed
  have start: "more_from l d ls (j # js) = GcMore l d ls j js DeLink" by (simp add: more_from_def)
  from Delete_split [OF e1] show ?case
  proof (elim disjE exE conjE)
    fix fs0
    assume "delete_step NewGPUShareOperator (link_id (Hash d) j) DeLink fs = (Inl DeCtl, fs0)"
      and "delete_step NewGPUShareOperator (link_id (Hash d) j) DeCtl fs0 = (Inr e1, fs1)"
    then show ?thesis unfolding start
      by (intro gc_runs_step [OF _ last]) (simp_all add: gc_step_def)
  qed (unfold start, rule last)
qed

lemma gc_lines_runs:
  assumes "gc_lines ls ag = (x, ag')" "x \<noteq> Panic" "Operator ag = gpushare_operator"
  shows "gc_runs ord (lines_from ls, ag) (GcWaiting, ag')"
  using assms
proof (induction ls arbitrary: ag)
  case Nil
  then show ?case by (simp add: lines_from_def)
next
  case (Cons l ls)
  obtain d where d: "ln_device l = Some d" using Cons.prems(1,2) by (cases "ln_device l") auto
  have start: "lines_from (l # ls) = GcFirst l d ls DeLink" using d by (simp add: lines_from_def)
  let ?js = "if ResourceName d = ResourceGPUCore \<and> length (DevList d) > 100
    then [1..<length (DevList d) div 100] else []"
  obtain e1 fs1 where e1: "GPUShare_Delete NewGPUShareOperator UselessNumber (link_id (Hash d) 0) (host ag) = (e1, fs1)"
    by force
  have rest: "gc_runs ord (case e1 of Some e \<Rightarrow> GcWaiting | None \<Rightarrow> more_from l d ls ?js, ag\<lparr>host := fs1\<rparr>) (GcWaiting, ag')"
  proof (cases e1)
    case (Some e)
    with Cons.prems d e1 show ?thesis by simp
  next
    case None
    obtain e2 fs2 where e2: "delete_seq gpushare_operator (Hash d) ?js fs1 = (e2, fs2)" by force
    then have seq: "(if ResourceName d = ResourceGPUCore \<and> length (DevList d) > 100
        then delete_seq gpushare_operator (Hash d) [1..<length (DevList d) div 100] fs1 else (None, fs1)) = (e2, fs2)"
      by (auto split: if_splits)
    have "gc_runs ord (case e2 of None \<Rightarrow> GcRecord l ls | Some _ \<Rightarrow> lines_from ls, ag\<lparr>host := fs2\<rparr>) (GcWaiting, ag')"
    proof (cases e2)
      case e2_Some: (Some e)
      with Cons.prems d e1 None seq have "gc_lines ls (ag\<lparr>host := fs2\<rparr>) = (x, ag')"
        by (auto split: if_splits)
      with e2_Some Cons.IH [of "ag\<lparr>host := fs2\<rparr>"] Cons.prems(2,3) show ?thesis by simp
    next
      case e2_None: None
      obtain y db where y: "Storage_Delete (ln_namespace l) (ln_name l) (Storage ag) = (y, db)" by force
      have "y \<noteq> Panic" "gc_lines ls (ag\<lparr>host := fs2, Storage := db\<rparr>) = (x, ag')"
        using Cons.prems d e1 None seq e2_None y by (auto split: res.splits if_splits)
      then have "gc_runs ord (lines_from ls, ag\<lparr>host := fs2, Storage := db\<rparr>) (GcWaiting, ag')"
        "gc_step ord (GcRecord l ls) (ag\<lparr>host := fs2\<rparr>) = (lines_from ls, ag\<lparr>host := fs2, Storage := db\<rparr>)"
        using y Cons.IH [of "ag\<lparr>host := fs2, Storage := db\<rparr>"] Cons.prems(2,3) by (simp_all add: gc_step_def)
      then show ?thesis using gc_runs_step e2_None by fastforce
    qed
    with delete_seq_runs [OF e2, of ord l ls ag] None show ?thesis by simp
  qed
  have last: "gc_runs ord (GcFirst l d ls at, ag\<lparr>host := fs0\<rparr>) (GcWaiting, ag')"
    if "delete_step NewGPUShareOperator (link_id (Hash d) 0) at fs0 = (Inr e1, fs1)" for at fs0
    by (rule gc_runs_step [OF _ rest]) (use that in \<open>simp add: gc_step_def split: option.split\<close>)
  from Delete_split [OF e1] show ?case
  proof (elim disjE exE conjE)
    fix fs0
    assume "delete_step NewGPUShareOperator (link_id (Hash d) 0) DeLink (host ag) = (Inl DeCtl, fs0)"
      and two: "delete_step NewGPUShareOperator (link_id (Hash d) 0) DeCtl fs0 = (Inr e1, fs1)"
    then show ?thesis unfolding start
      by (intro gc_runs_step [OF _ last [OF two]]) (simp add: gc_step_def)
  next
    assume "delete_step NewGPUShareOperator (link_id (Hash d) 0) DeLink (host ag) = (Inr e1, fs1)"
    from last [OF this] show ?thesis unfolding start by simp
  qed
qed

lemma gc_round_runs:
  assumes "agent_inv ag" "gc_wakes ev" "gc_round ord ev ag = (x, ag')" "x \<noteq> Panic"
  shows "gc_runs ord (GcLooking, ag) (GcWaiting, ag')"
proof -
  have inv: "store_inv (Storage ag)" "Operator ag = gpushare_operator" using assms(1) by (simp_all add: agent_inv_def)
  then have "gc_lines (gc_work ord ag) ag = (x, ag')"
    using assms(2,3) gc_round_lines by (simp add: store_inv_def)
  note work = gc_lines_runs [OF this assms(4) inv(2), of ord]
  have "gc_step ord GcLooking ag = (visit_from (pod_list (Storage ag)) [], ag)"
    by (simp add: gc_step_def look_infos [OF inv(1)])
  from gc_runs_step [OF this visit_runs] work show ?thesis
    by (simp add: gc_work_def gone_pods_def)
qed

section \<open>Single steps of a node are runs of its threads\<close>

definition quiet :: "node_threads \<Rightarrow> bool" where
  "quiet t \<longleftrightarrow> (\<forall>c \<in> set (th_calls t). \<exists>r. c_at c = Returned_with r) \<and> th_locked t = {} \<and> th_gc t = GcWaiting"

lemma call_runs_lift:
  assumes "call_runs kl (c, ag) (c', ag')" "answer_ok (answer kl)" "i < length cs" "c_res c \<notin> L"
  shows "thread_step\<^sup>*\<^sup>*
      (t\<lparr>th_agent := ag, th_calls := cs[i := c], th_locked := if inside (c_at c) then insert (c_res c) L else L\<rparr>)
      (t\<lparr>th_agent := ag', th_calls := cs[i := c'], th_locked := if inside (c_at c') then insert (c_res c) L else L\<rparr>)
    \<and> c_res c' = c_res c"
  using assms(1)
proof (induction "(c', ag')" arbitrary: c' ag' rule: rtranclp_induct)
  case (step x)
  obtain c1 ag1 where x: "x = (c1, ag1)" by force
  let ?t = "t\<lparr>th_agent := ag1, th_calls := cs[i := c1], th_locked := if inside (c_at c1) then insert (c_res c) L else L\<rparr>"
  have IH: "thread_step\<^sup>*\<^sup>* (t\<lparr>th_agent := ag, th_calls := cs[i := c], th_locked := if inside (c_at c) then insert (c_res c) L else L\<rparr>) ?t"
    "c_res c1 = c_res c"
    using step.hyps(3) [OF x] by simp_all
  obtain at where at: "\<forall>r. c_at c1 \<noteq> Returned_with r" "call_step kl c1 ag1 = (at, ag')" "c' = c1\<lparr>c_at := at\<rparr>"
    using step.hyps(2) unfolding x by (auto elim: call_alone.cases)
  let ?t' = "t\<lparr>th_agent := ag', th_calls := cs[i := c'], th_locked := if inside (c_at c') then insert (c_res c) L else L\<rparr>"
  have blocked: "(\<exists>cur val. c_at c1 = Locking cur val) \<longrightarrow> c_res c1 \<notin> th_locked ?t" using assms(4) IH(2) by auto
  have "run_call i kl ?t = Some ?t'"
    using run_call_next [of i ?t c1 kl at ag', OF _ _ at(1) blocked] at(2,3) assms(3,4) IH(2) by auto
  then have "thread_step ?t ?t'" using assms(2) by (intro thread_stepI [of "ThRun i kl"]) simp_all
  with IH at(3) show ?case by (simp add: rtranclp.rtrancl_into_rtrancl)
qed simp

lemma gc_runs_lift:
  assumes "gc_runs ord (at, ag) (at', ag')" "map_order_ok ord"
  shows "thread_step\<^sup>*\<^sup>* (t\<lparr>th_gc := at, th_agent := ag\<rparr>) (t\<lparr>th_gc := at', th_agent := ag'\<rparr>)"
  using assms(1)
proof (induction "(at', ag')" arbitrary: at' ag' rule: rtranclp_induct)
  case (step x)
  obtain at1 ag1 where x: "x = (at1, ag1)" by force
  have "gc_step ord at1 ag1 = (at', ag')" using step.hyps(2) unfolding x by (auto elim: gc_alone.cases)
  then have "thread_step (t\<lparr>th_gc := at1, th_agent := ag1\<rparr>) (t\<lparr>th_gc := at', th_agent := ag'\<rparr>)"
    using assms(2) by (intro thread_stepI [of "ThCollect ord"]) simp_all
  with step.hyps(3) [OF x] show ?case by (rule rtranclp.rtrancl_into_rtrancl)
qed simp

lemma parse_for_fun:
  "parse_for r = (if r = ResourceGPUMemory then (\<lambda>val. map_option (\<lambda>i. [i]) (atoi val))
     else (\<lambda>val. parse_ids (split_on CHR '','' val) []))"
  by (simp add: fun_eq_iff parse_for_def)

lemma node_step_runs:
  assumes "threads_inv t" "quiet t" "event_ok ev (th_agent t, th_plugins t)"
    and "node_next ev (th_agent t, th_plugins t) = Some (r, ag, gp)"
  shows "\<exists>t'. thread_step\<^sup>*\<^sup>* t t' \<and> quiet t' \<and> th_agent t' = ag \<and> th_plugins t' = gp
    \<and> ((\<exists>resName kl ids. ev = EvPreStart resName kl ids) \<longrightarrow>
         th_calls t' \<noteq> [] \<and> c_at (last (th_calls t')) = Returned_with r)"
proof -
  have inv: "agent_inv (th_agent t)" "plugins_ok (th_plugins t)" using assms(1) by (simp_all add: threads_inv_def)
  have oper: "Operator (th_agent t) = gpushare_operator" using inv(1) by (simp add: agent_inv_def)
  have ninv: "node_inv (th_agent t, th_plugins t)" using inv by (simp add: node_inv_def)
  have idle: "th_locked t = {}" "th_gc t = GcWaiting" "\<forall>c \<in> set (th_calls t). \<exists>r. c_at c = Returned_with r"
    using assms(2) by (simp_all add: quiet_def)
  show ?thesis
  proof (cases ev)
    case (EvPreStart resName kl ids)
    then obtain srv bp where bp: "map_of (th_plugins t) resName = Some (srv, bp)"
      using assms(4) by (auto split: option.splits)
    then have res: "bp_ResourceName bp = resName" "resName \<in> {ResourceGPUCore, ResourceGPUMemory}"
      using inv(2) map_of_SomeD [OF bp] by (auto simp: plugins_ok_def)
    have "(if resName = ResourceGPUMemory then PreStartContainer_mem bp kl ids (th_agent t)
          else PreStartContainer_core bp kl ids (th_agent t)) = (r, ag)" and gp: "gp = th_plugins t"
      using assms(4) EvPreStart bp by (auto split: prod.splits)
    then have "prestart_with (parse_for resName) bp kl ids (th_agent t) = (r, ag)"
      by (auto simp: prestart_with_core prestart_with_mem parse_for_fun split: if_splits)
    note run = prestart_runs [OF oper res(1) this]
    let ?c = "call_arrives resName ids" and ?cs = "th_calls t @ [call_arrives resName ids]"
    let ?t = "t\<lparr>th_calls := ?cs\<rparr>"
    let ?t' = "t\<lparr>th_agent := ag, th_calls := th_calls t @ [?c\<lparr>c_at := Returned_with r\<rparr>]\<rparr>"
    have "thread_step t ?t"
      using assms(3) EvPreStart bp by (intro thread_stepI [of "ThCall resName ids"]) simp_all
    moreover have "t\<lparr>th_agent := th_agent t, th_calls := ?cs, th_locked := {}\<rparr> = ?t"
      "t\<lparr>th_agent := ag, th_calls := th_calls t @ [?c\<lparr>c_at := Returned_with r\<rparr>], th_locked := {}\<rparr> = ?t'"
      using idle(1) by simp_all
    moreover have "\<not> inside (c_at ?c)" by (simp add: call_arrives_def)
    ultimately have "thread_step t ?t" "thread_step\<^sup>*\<^sup>* ?t ?t'"
      using call_runs_lift [OF run, of "length (th_calls t)" ?cs "{}" t] assms(3) EvPreStart by simp_all
    then have "thread_step\<^sup>*\<^sup>* t ?t'" by (rule converse_rtranclp_into_rtranclp)
    moreover have "quiet ?t'" using idle by (auto simp: quiet_def)
    ultimately show ?thesis using gp by (intro exI [of _ ?t']) simp
  next
    case (EvCollect ord e)
    have round: "gc_round ord e (th_agent t) = (r, ag)" "gp = th_plugins t"
      using assms(4) EvCollect by (auto split: prod.splits)
    have "r \<noteq> Panic" using node_next_inv [OF ninv assms(3,4)] by simp
    show ?thesis
    proof (cases "gc_wakes e")
      case True
      let ?t = "t\<lparr>th_gc := GcLooking\<rparr>" and ?t' = "t\<lparr>th_gc := GcWaiting, th_agent := ag\<rparr>"
      have "thread_step t ?t" using True idle(2) by (intro thread_stepI [of "ThWake e"]) simp_all
      moreover have "thread_step\<^sup>*\<^sup>* ?t ?t'"
        using gc_runs_lift [OF gc_round_runs [OF inv(1) True round(1) \<open>r \<noteq> Panic\<close>], of t] assms(3) EvCollect by simp
      ultimately have "thread_step\<^sup>*\<^sup>* t ?t'" by (rule converse_rtranclp_into_rtranclp)
      moreover have "quiet ?t'" using idle by (simp add: quiet_def)
      ultimately show ?thesis using round(2) EvCollect by (intro exI [of _ ?t']) simp
    next
      case False
      with round have "ag = th_agent t" by (simp add: gc_round_def)
      with round(2) assms(2) EvCollect show ?thesis by blast
    qed
  next
    case (EvPods st)
    have "thread_step t (t\<lparr>th_agent := (th_agent t)\<lparr>Sitter := st\<rparr>\<rparr>)" by (intro thread_stepI [of "ThPods st"]) simp_all
    with assms(2,4) EvPods show ?thesis
      by (intro exI [of _ "t\<lparr>th_agent := (th_agent t)\<lparr>Sitter := st\<rparr>\<rparr>"]) (auto simp: quiet_def)
  next
    case (EvDisk f)
    let ?t = "t\<lparr>th_agent := (th_agent t)\<lparr>Storage := (Storage (th_agent t))\<lparr>commit_fault := f\<rparr>\<rparr>\<rparr>"
    have "thread_step t ?t" by (intro thread_stepI [of "ThDisk f"]) simp_all
    with assms(2,4) EvDisk show ?thesis by (intro exI [of _ ?t]) (auto simp: quiet_def)
  next
    case (EvFiles fs)
    let ?t = "t\<lparr>th_agent := (th_agent t)\<lparr>host := fs\<rparr>\<rparr>"
    have "thread_step t ?t" using assms(3) EvFiles by (intro thread_stepI [of "ThFiles fs"]) simp_all
    with assms(2,4) EvFiles show ?thesis by (intro exI [of _ ?t]) (auto simp: quiet_def)
  next
    case (EvRestart env fl)
    then obtain m where main: "agent_main env fl = Ok (m, ag, gp)" using assms(4) by (auto split: res.splits)
    have "thread_step t (threads_of ag gp)"
      using main assms(3) EvRestart by (intro thread_stepI [of "ThRestart env fl"]) (simp_all add: threads_of_def)
    then show ?thesis
      using EvRestart by (intro exI [of _ "threads_of ag gp"]) (auto simp: quiet_def threads_of_def)
  qed
qed

lemma node_reach_threads:
  assumes "node_reach (ag, gp)"
  shows "\<exists>t. threads_reach t \<and> quiet t \<and> th_agent t = ag \<and> th_plugins t = gp"
proof -
  obtain s0 where s0: "first_start s0" "node_step\<^sup>*\<^sup>* s0 (ag, gp)" using assms by (auto simp: node_reach_def)
  from s0(2) show ?thesis
  proof (induction "(ag, gp)" arbitrary: ag gp rule: rtranclp_induct)
    case base
    then have "threads_reach (threads_of ag gp)" using s0(1) unfolding threads_reach_def by blast
    then show ?case by (intro exI [of _ "threads_of ag gp"]) (simp add: threads_of_def quiet_def)
  next
    case (step s1)
    obtain ag1 gp1 where s1: "s1 = (ag1, gp1)" by force
    obtain t where t: "threads_reach t" "quiet t" "th_agent t = ag1" "th_plugins t = gp1"
      using step.hyps(3) [OF s1] by blast
    obtain ev r where "event_ok ev s1" "node_next ev s1 = Some (r, ag, gp)" using step.hyps(2) by (auto elim: node_stepE)
    then obtain t' where t': "thread_step\<^sup>*\<^sup>* t t'" "quiet t'" "th_agent t' = ag" "th_plugins t' = gp"
      using node_step_runs [OF threads_reach_inv [OF t(1)] t(2)] t(3,4) s1 by metis
    have "threads_reach t'" using t(1) t'(1) unfolding threads_reach_def by (meson rtranclp_trans)
    with t' show ?case by blast
  qed
qed

section \<open>Properties\<close>

text \<open>
  C7: The handlers and the round of the collector, as they are modelled from beginning to end,
  are runs of the goroutines: from any state of rest, what \<open>PreStartContainer\<close>, a round or a restart
  does in one piece, some sequence of single steps does, to the same agent and with the same
  result of the call.
\<close>

theorem operations_are_runs:
  assumes "threads_reach t" and "quiet t" and "event_ok ev (th_agent t, th_plugins t)"
    and "node_next ev (th_agent t, th_plugins t) = Some (r, ag, gp)"
  shows "\<exists>t'. thread_step\<^sup>*\<^sup>* t t' \<and> quiet t' \<and> th_agent t' = ag \<and> th_plugins t' = gp
    \<and> ((\<exists>resName kl ids. ev = EvPreStart resName kl ids) \<longrightarrow>
         th_calls t' \<noteq> [] \<and> c_at (last (th_calls t')) = Returned_with r)"
  by (rule node_step_runs [OF threads_reach_inv [OF assms(1)] assms(2-4)])

theorem operations_are_runs_witness:
  "\<exists>t t' r ag gp. threads_reach t \<and> quiet t
     \<and> node_next (EvCollect (\<lambda>i m. m) GcMinute) (th_agent t, th_plugins t) = Some (r, ag, gp)
     \<and> thread_step\<^sup>*\<^sup>* t t' \<and> th_agent t' = ag"
proof -
  obtain ag0 gp0 where "node_reach (ag0, gp0)" using demo_node by metis
  then obtain t where t: "threads_reach t" "quiet t" using node_reach_threads by blast
  obtain r ag gp where step: "node_next (EvCollect (\<lambda>i m. m) GcMinute) (th_agent t, th_plugins t) = Some (r, ag, gp)"
    by (cases "gc_round (\<lambda>i m. m) GcMinute (th_agent t)") simp
  have "event_ok (EvCollect (\<lambda>i m. m) GcMinute) (th_agent t, th_plugins t)" by (simp add: map_order_ok_def)
  from operations_are_runs [OF t this step] t step show ?thesis by blast
qed

end
