(* ===== verification/Thread_Isolation.thy ===== *)
theory Thread_Isolation
  imports Thread_Refinement
begin

text \<open>
  A running pod and the rest of the node: whatever calls for other containers, the collector, the
  environment and restarts of the agent do at the same time, the record of the pod and the links of
  its devices stay as they are, as long as the API server has the pod and no other devices share
  a hash with its own.
\<close>

section \<open>Apart from a pod\<close>

text \<open>
  \<open>k\<close> is the pod, \<open>H\<close> the hashes of its devices.
\<close>

definition info_apart :: "string set \<Rightarrow> PodInfo \<Rightarrow> bool" where
  "info_apart H i \<longleftrightarrow>
     (\<forall>m q d. ContainerDeviceMap i = Some m \<longrightarrow> q \<in> set m \<longrightarrow> snd q = Some d \<longrightarrow> Hash d \<notin> H)"

definition others_apart :: "string \<times> string \<Rightarrow> string set \<Rightarrow> boltdb \<Rightarrow> bool" where
  "others_apart k H db \<longleftrightarrow> (\<forall>k' i. k' \<noteq> k \<longrightarrow> pods_of db k' = Some i \<longrightarrow> info_apart H i)"

abbreviation pc_key :: "PodContainer \<Rightarrow> string \<times> string" where
  "pc_key cur \<equiv> (pc_Namespace cur, pc_Name cur)"

abbreviation pi_key :: "PodInfo \<Rightarrow> string \<times> string" where
  "pi_key i \<equiv> (Namespace i, Name i)"

fun at_apart :: "string \<times> string \<Rightarrow> string set \<Rightarrow> call_at \<Rightarrow> bool" where
  "at_apart k H (Asking cur) \<longleftrightarrow> pc_key cur \<noteq> k"
| "at_apart k H (Locking cur val) \<longleftrightarrow> pc_key cur \<noteq> k"
| "at_apart k H (Making cur gs i at) \<longleftrightarrow> pc_key cur \<noteq> k"
| "at_apart k H (Loading cur gs) \<longleftrightarrow> pc_key cur \<noteq> k"
| "at_apart k H (Saving pif gs) \<longleftrightarrow> pi_key pif \<noteq> k \<and> info_apart H pif"
| "at_apart k H _ \<longleftrightarrow> True"

definition call_apart :: "string \<times> string \<Rightarrow> string set \<Rightarrow> prestart \<Rightarrow> bool" where
  "call_apart k H c \<longleftrightarrow>
     (\<exists>r. c_at c = Returned_with r) \<or> Hash (c_dev c) \<notin> H \<and> at_apart k H (c_at c)"

definition line_apart :: "string \<times> string \<Rightarrow> string set \<Rightarrow> line \<Rightarrow> bool" where
  "line_apart k H l \<longleftrightarrow> (ln_namespace l, ln_name l) \<noteq> k \<and> (\<forall>d. ln_device l = Some d \<longrightarrow> Hash d \<notin> H)"

definition seen_apart :: "string \<times> string \<Rightarrow> string set \<Rightarrow> PodInfo \<Rightarrow> bool" where
  "seen_apart k H i \<longleftrightarrow> (pi_key i \<noteq> k \<longrightarrow> info_apart H i)"

fun gc_apart :: "string \<times> string \<Rightarrow> string set \<Rightarrow> gc_at \<Rightarrow> bool" where
  "gc_apart k H (GcVisiting info is ls) \<longleftrightarrow>
     seen_apart k H info \<and> list_all (seen_apart k H) is \<and> list_all (line_apart k H) ls"
| "gc_apart k H (GcAsking info is ls) \<longleftrightarrow>
     seen_apart k H info \<and> list_all (seen_apart k H) is \<and> list_all (line_apart k H) ls"
| "gc_apart k H (GcFirst l d ls at) \<longleftrightarrow> line_apart k H l \<and> Hash d \<notin> H \<and> list_all (line_apart k H) ls"
| "gc_apart k H (GcMore l d ls i js at) \<longleftrightarrow> line_apart k H l \<and> Hash d \<notin> H \<and> list_all (line_apart k H) ls"
| "gc_apart k H (GcRecord l ls) \<longleftrightarrow> line_apart k H l \<and> list_all (line_apart k H) ls"
| "gc_apart k H _ \<longleftrightarrow> True"

definition apart :: "string \<times> string \<Rightarrow> string set \<Rightarrow> node_threads \<Rightarrow> bool" where
  "apart k H s \<longleftrightarrow>
     others_apart k H (Storage (th_agent s)) \<and> list_all (call_apart k H) (th_calls s) \<and> gc_apart k H (th_gc s)
     \<and> maybe_served (Sitter (th_agent s)) (fst k) (snd k)"

text \<open>
  The devices the kubelet lists for the containers of the pod are those with the hashes \<open>H\<close>.
\<close>

definition answer_for :: "string \<times> string \<Rightarrow> string set \<Rightarrow> err + ListPodResourcesResponse \<Rightarrow> bool" where
  "answer_for k H a \<longleftrightarrow>
     (\<forall>ps r. a = Inr ps \<longrightarrow> (\<forall>(pc, es) \<in> set (holders r ps). pc_key pc = k \<longrightarrow>
        (\<forall>ids \<in> set (concat es # es). hash (sort ids) \<in> H)))"

text \<open>
  What may happen while the pod runs: no call for its devices, no change of its links from outside,
  and the API server keeps it.
\<close>

fun event_apart :: "string \<times> string \<Rightarrow> string set \<Rightarrow> thread_event \<Rightarrow> node_threads \<Rightarrow> bool" where
  "event_apart k H (ThCall resName ids) s \<longleftrightarrow> hash (sort ids) \<notin> H"
| "event_apart k H (ThRun i kl) s \<longleftrightarrow> answer_for k H (answer kl)"
| "event_apart k H (ThPods st) s \<longleftrightarrow> maybe_served st (fst k) (snd k)"
| "event_apart k H (ThFiles fs) s \<longleftrightarrow>
     (\<forall>h \<in> H. \<forall>j. links_of fs (link_id h j) = links_of (host (th_agent s)) (link_id h j))"
| "event_apart k H (ThRestart env fl) s \<longleftrightarrow>
     maybe_served (NewSitter (fl_node fl) (me_pods env) (me_fault env)) (fst k) (snd k)"
| "event_apart k H _ s \<longleftrightarrow> True"

inductive apart_step :: "string \<times> string \<Rightarrow> string set \<Rightarrow> node_threads \<Rightarrow> node_threads \<Rightarrow> bool" for k H where
  apart_stepI: "thread_ok ev s \<Longrightarrow> event_apart k H ev s \<Longrightarrow> threads_next ev s = Some s' \<Longrightarrow> apart_step k H s s'"

inductive_cases apart_stepE: "apart_step k H s s'"

definition same_pod :: "string \<times> string \<Rightarrow> string set \<Rightarrow> agent \<Rightarrow> agent \<Rightarrow> bool" where
  "same_pod k H ag ag' \<longleftrightarrow>
     pods_of (Storage ag') k = pods_of (Storage ag) k
     \<and> (\<forall>h \<in> H. \<forall>j. links_of (host ag') (link_id h j) = links_of (host ag) (link_id h j))"

section \<open>Lemmas\<close>

lemma same_pod_refl [simp]: "same_pod k H ag ag"
  by (simp add: same_pod_def)

lemma same_pod_trans: "same_pod k H a b \<Longrightarrow> same_pod k H b c \<Longrightarrow> same_pod k H a c"
  by (simp add: same_pod_def)

lemma located_holder:
  assumes "Locate dial a (NewDevice ids r) l = (Ok pc, l')" "loc_resource l = r"
  shows "\<exists>ps es. a = Inr ps \<and> (pc, es) \<in> set (holders r ps) \<and> holds ids es"
proof -
  obtain ps where ps: "a = Inr ps" "scan_pods (NewDevice ids r) r ps = Some pc"
    using assms by (auto simp: Locate_def Let_def split: if_splits option.splits sum.splits)
  then obtain es where "find (\<lambda>h. holds ids (snd h)) (holders r ps) = Some (pc, es)"
    by (auto simp: scan_pods_find)
  then have "(pc, es) \<in> set (holders r ps) \<and> holds ids es"
    by (auto simp: find_Some_iff in_set_conv_nth) (metis fst_conv nth_mem snd_conv)+
  with ps(1) show ?thesis by blast
qed

lemma located_apart:
  assumes "answer_for k H a" "hash (sort ids) \<notin> H" "Locate dial a (NewDevice ids r) l = (Ok pc, l')" "loc_resource l = r"
  shows "pc_key pc \<noteq> k"
proof
  assume pc: "pc_key pc = k"
  obtain ps es where h: "a = Inr ps" "(pc, es) \<in> set (holders r ps)" "holds ids es"
    using located_holder [OF assms(3,4)] by blast
  then obtain e where "e \<in> set (concat es # es)" "mset e = mset ids" by (auto simp: holds_def)
  moreover have "sort e = sort ids" using calculation(2) by (metis properties_for_sort mset_sort sorted_sort)
  moreover have "hash (sort e) \<in> H"
    using assms(1) h(1,2) pc calculation(1) unfolding answer_for_def by blast
  ultimately show False using assms(2) by simp
qed

text \<open>Steps on links with other hashes.\<close>

lemma create_step_apart:
  assumes "CHR ''-'' \<notin> set h" "CHR ''-'' \<notin> set h'" "h \<noteq> h'"
  shows "links_of (snd (create_step G g (link_id h i) at fs)) (link_id h' j) = links_of fs (link_id h' j)"
    and "links_of (snd (delete_step G (link_id h i) at' fs)) (link_id h' j) = links_of fs (link_id h' j)"
proof -
  have "link_id h' j \<noteq> link_id h i" using link_id_hash [OF assms(2,1)] assms(3) by auto
  then show "links_of (snd (create_step G g (link_id h i) at fs)) (link_id h' j) = links_of fs (link_id h' j)"
    "links_of (snd (delete_step G (link_id h i) at' fs)) (link_id h' j) = links_of fs (link_id h' j)"
    by (simp_all add: links_of_def create_step_fs delete_step_fs)
qed

lemma Save_apart:
  assumes "store_inv db" "pod_ok i" "pi_key i \<noteq> k"
  shows "pods_of (snd (Save i db)) k = pods_of db k"
    and "info_apart H i \<Longrightarrow> others_apart k H db \<Longrightarrow> others_apart k H (snd (Save i db))"
proof -
  have ok: "store_ok db" using assms(1) by (simp add: store_inv_def)
  have "pods_of (snd (Save i db)) = pods_of db \<or> pods_of (snd (Save i db)) = (pods_of db)(pi_key i \<mapsto> i)"
    using Save_states(1) [OF ok, of i] pods_of_put [OF assms(2)] by metis
  then show "pods_of (snd (Save i db)) k = pods_of db k"
    and "info_apart H i \<Longrightarrow> others_apart k H db \<Longrightarrow> others_apart k H (snd (Save i db))"
    using assms(3) by (auto simp: others_apart_def split: if_splits)
qed

lemma Delete_apart:
  assumes "store_inv db" "plain_elem ns" "plain_elem n" "(ns, n) \<noteq> k"
  shows "pods_of (snd (Storage_Delete ns n db)) k = pods_of db k"
    and "others_apart k H db \<Longrightarrow> others_apart k H (snd (Storage_Delete ns n db))"
  using Storage_Delete_states(2) [OF _ assms(2,3), of db] assms(1,4)
  by (auto simp: store_inv_def others_apart_def split: if_splits)

lemma info_apart_put:
  "info_apart H i \<Longrightarrow> Hash d \<notin> H \<Longrightarrow> ContainerDeviceMap i = Some m \<Longrightarrow>
   info_apart H (i\<lparr>ContainerDeviceMap := Some (amap_put c (Some d) m)\<rparr>)"
  using amap_put_set [of c "Some d" m] by (fastforce simp: info_apart_def)

lemma from_apart [simp]:
  "at_apart k H (make_from cur gs i) \<longleftrightarrow> pc_key cur \<noteq> k" "at_apart k H (clean_from gs i)"
  by (simp_all add: make_from_def clean_from_def)

lemma lines_from_apart [simp]: "list_all (line_apart k H) ls \<Longrightarrow> gc_apart k H (lines_from ls)"
  by (auto simp: lines_from_def line_apart_def split: list.split option.split)

lemma more_from_apart [simp]:
  "line_apart k H l \<Longrightarrow> Hash d \<notin> H \<Longrightarrow> list_all (line_apart k H) ls \<Longrightarrow> gc_apart k H (more_from l d ls js)"
  by (simp add: more_from_def split: list.split)

lemma visit_from_apart [simp]:
  "list_all (seen_apart k H) is \<Longrightarrow> list_all (line_apart k H) ls \<Longrightarrow> gc_apart k H (visit_from is ls)"
  by (auto simp: visit_from_def split: list.split)

lemma lines_of_apart:
  assumes "seen_apart k H i" "pi_key i \<noteq> k" "map_order_ok ord"
  shows "list_all (line_apart k H) (lines_of ord i)"
proof (cases "ContainerDeviceMap i")
  case (Some m)
  have "set (ord i m) = set m" using assms(3) by (metis map_order_ok_def set_mset_mset)
  moreover have "\<forall>q \<in> set m. \<forall>d. snd q = Some d \<longrightarrow> Hash d \<notin> H"
    using assms(1,2) Some by (auto simp: seen_apart_def info_apart_def)
  ultimately show ?thesis using assms(2) Some by (auto simp: lines_of_def list_all_iff line_apart_def)
qed (simp add: lines_of_def)

lemma pod_list_apart:
  assumes "store_inv db" "others_apart k H db"
  shows "list_all (seen_apart k H) (pod_list db)"
proof -
  have ok: "store_ok db" using assms(1) by (simp add: store_inv_def)
  have "seen_apart k H i" if "i \<in> set (pod_list db)" for i
    using that pod_list_view [OF ok] assms(2) unfolding others_apart_def seen_apart_def by blast
  then show ?thesis by (simp add: list_all_iff)
qed

section \<open>Every step leaves the pod alone\<close>

text \<open>The hashes of the calls and of what the collector removes are hexadecimal.\<close>

lemma call_hash: "call_ok c \<Longrightarrow> CHR ''-'' \<notin> set (Hash (c_dev c))"
  by (auto simp: call_ok_def)

lemma line_hash: "line_ok l \<Longrightarrow> ln_device l = Some d \<Longrightarrow> CHR ''-'' \<notin> set (Hash d)"
  by (auto simp: line_ok_def made_device_def)

lemma call_step_apart:
  assumes "agent_inv ag" "call_ok c" "answer_ok (answer kl)" "call_step kl c ag = (at, ag')"
    and "\<forall>r. c_at c \<noteq> Returned_with r"
    and "call_apart k H c" "others_apart k H (Storage ag)" "answer_for k H (answer kl)" "\<forall>h \<in> H. CHR ''-'' \<notin> set h"
  shows "call_apart k H (c\<lparr>c_at := at\<rparr>) \<and> others_apart k H (Storage ag') \<and> same_pod k H ag ag' \<and> Sitter ag' = Sitter ag"
proof -
  have inv: "store_inv (Storage ag)" "locators_ok (DeviceLocator ag)"
    using assms(1) by (simp_all add: agent_inv_def)
  have ok: "at_ok (c_at c)" using assms(2) by (simp add: call_ok_def)
  obtain ids where c: "c_res c \<in> {ResourceGPUCore, ResourceGPUMemory}" "c_dev c = NewDevice ids (c_res c)"
    using assms(2) by (auto simp: call_ok_def)
  have away: "Hash (c_dev c) \<notin> H" "at_apart k H (c_at c)" using assms(5,6) by (auto simp: call_apart_def)
  have links: "links_of (snd (create_step G g (link_id (Hash (c_dev c)) i) a fs)) (link_id h j) = links_of fs (link_id h j)"
    "links_of (snd (delete_step G (link_id (Hash (c_dev c)) i) a' fs)) (link_id h j) = links_of fs (link_id h j)"
    if "h \<in> H" for G g i a a' fs h j
  proof -
    have "CHR ''-'' \<notin> set h" "Hash (c_dev c) \<noteq> h" using that away(1) assms(9) by auto
    with create_step_apart [OF call_hash [OF assms(2)]]
    show "links_of (snd (create_step G g (link_id (Hash (c_dev c)) i) a fs)) (link_id h j) = links_of fs (link_id h j)"
      "links_of (snd (delete_step G (link_id (Hash (c_dev c)) i) a' fs)) (link_id h j) = links_of fs (link_id h j)"
      by blast+
  qed
  have "at_apart k H at \<and> others_apart k H (Storage ag') \<and> same_pod k H ag ag' \<and> Sitter ag' = Sitter ag"
  proof (cases "c_at c")
    case Locating
    obtain l where l: "DeviceLocator ag (c_res c) = Some l" "loc_resource l = c_res c"
      using inv(2) c(1) by (auto simp: locators_ok_def locator_ok_def)
    obtain x l' where x: "Locate (dial_err kl) (answer kl) (c_dev c) l = (x, l')" by force
    have "x = Ok pc \<Longrightarrow> pc_key pc \<noteq> k" for pc
      using located_apart [OF assms(8), of ids] x l(2) away(1) c(2) by simp
    with assms(4,7) Locating l x show ?thesis
      by (cases x) (auto simp: call_step_def same_pod_def)
  next
    case (Asking cur)
    then show ?thesis
      using assms(4,7) away by (auto simp: call_step_def GetPod_def Let_def split: option.splits if_splits)
  next
    case (Locking cur val)
    then show ?thesis using assms(4,7) away by (auto simp: call_step_def split: option.splits)
  next
    case (Making cur gs i at0)
    obtain r fs where r: "create_step NewGPUShareOperator (gs ! i) (link_id (Hash (c_dev c)) i) at0 (host ag) = (r, fs)"
      by force
    have "links_of fs (link_id h j) = links_of (host ag) (link_id h j)" if "h \<in> H" for h j
      using links(1) [OF that, of NewGPUShareOperator "gs ! i" i at0 "host ag" j] r by simp
    with assms(4,7) Making r away show ?thesis
      by (auto simp: call_step_def same_pod_def split: sum.splits option.splits)
  next
    case (Loading cur gs)
    then have cur: "plain_elem (pc_Namespace cur)" "plain_elem (pc_Name cur)" using ok by (simp_all add: container_ok_def)
    obtain pif where pif: "LoadOrCreate (pc_Namespace cur) (pc_Name cur) (Storage ag) = Ok pif" "pi_key pif = pc_key cur"
        "info_apart H pif"
    proof (cases "pods_of (Storage ag) (pc_key cur)")
      case None
      then have "LoadOrCreate (pc_Namespace cur) (pc_Name cur) (Storage ag) = Ok (NewPI (pc_Namespace cur) (pc_Name cur))"
        using cur inv(1) by (simp add: LoadOrCreate_def Load_read store_inv_def)
      with that show ?thesis by (simp add: info_apart_def)
    next
      case (Some i)
      then have "LoadOrCreate (pc_Namespace cur) (pc_Name cur) (Storage ag) = Ok i"
        using cur inv(1) by (simp add: LoadOrCreate_def Load_read store_inv_def)
      moreover have "info_apart H i" using Some assms(7) Loading away(2) by (auto simp: others_apart_def)
      moreover have "pi_key i = pc_key cur" using pods_of_named [OF Some] by auto
      ultimately show ?thesis using that by blast
    qed
    then show ?thesis
      using assms(4,7) Loading away info_apart_put [OF pif(3) away(1)]
      by (auto simp: call_step_def split: option.splits)
  next
    case (Saving pif gs)
    obtain x db where x: "Save pif (Storage ag) = (x, db)" by force
    have "pods_of db k = pods_of (Storage ag) k" "others_apart k H db"
      using Save_apart [OF inv(1), of pif k] Saving ok away(2) assms(7) x by auto
    with assms(4) Saving x show ?thesis
      by (cases x) (auto simp: call_step_def same_pod_def)
  next
    case (Cleaning gs i at0)
    obtain r fs where r: "delete_step NewGPUShareOperator (link_id (Hash (c_dev c)) i) at0 (host ag) = (r, fs)" by force
    have "links_of fs (link_id h j) = links_of (host ag) (link_id h j)" if "h \<in> H" for h j
      using links(2) [OF that, of NewGPUShareOperator i at0 "host ag" j] r by simp
    with assms(4,7) Cleaning r away show ?thesis
      by (auto simp: call_step_def same_pod_def split: sum.splits)
  qed (use assms(5) in simp)
  with away(1) show ?thesis by (auto simp: call_apart_def)
qed

lemma gc_step_apart:
  assumes "agent_inv ag" "gc_ok at0" "map_order_ok ord" "gc_step ord at0 ag = (at, ag')"
    and "gc_apart k H at0" "others_apart k H (Storage ag)" "maybe_served (Sitter ag) (fst k) (snd k)"
    and "\<forall>h \<in> H. CHR ''-'' \<notin> set h"
  shows "gc_apart k H at \<and> others_apart k H (Storage ag') \<and> same_pod k H ag ag' \<and> Sitter ag' = Sitter ag"
proof -
  have st: "store_inv (Storage ag)" using assms(1) by (simp add: agent_inv_def)
  have links: "links_of fs (link_id h j) = links_of (host ag) (link_id h j)"
    if "delete_step G (link_id (Hash d) i) a (host ag) = (r, fs)" "h \<in> H" "line_ok l" "ln_device l = Some d" "Hash d \<notin> H"
    for G i a r fs h j l d
  proof -
    have "CHR ''-'' \<notin> set (Hash d)" "CHR ''-'' \<notin> set h" "Hash d \<noteq> h"
      using line_hash [OF that(3,4)] assms(8) that(2,5) by auto
    from create_step_apart(2) [OF this, of G i a "host ag" j] that(1) show ?thesis by simp
  qed
  show ?thesis
  proof (cases at0)
    case GcLooking
    then show ?thesis
      using assms(4,6) st look_infos pod_list_apart [OF st assms(6)] by (auto simp: gc_step_def)
  next
    case (GcVisiting info infos ls)
    then show ?thesis using assms(4-6) by (auto simp: gc_step_def split: res.splits)
  next
    case (GcAsking info infos ls)
    have "pi_key info \<noteq> k" if "IsNotFound (GetPodFromApiServer (Namespace info) (Name info) (Sitter ag))"
      using kube.served_present [OF assms(7)] that by auto
    then have "list_all (line_apart k H) (lines_of ord info)"
      if "IsNotFound (GetPodFromApiServer (Namespace info) (Name info) (Sitter ag))"
      using that lines_of_apart [OF _ _ assms(3)] GcAsking assms(5) by simp
    with GcAsking assms(4-6) show ?thesis by (auto simp: gc_step_def split: if_splits)
  next
    case (GcFirst l d ls at1)
    obtain r fs where r: "delete_step NewGPUShareOperator (link_id (Hash d) 0) at1 (host ag) = (r, fs)" by force
    have "\<forall>h \<in> H. \<forall>j. links_of fs (link_id h j) = links_of (host ag) (link_id h j)"
      using links [OF r] GcFirst assms(2,5) by auto
    with GcFirst assms(4-6) r show ?thesis
      by (auto simp: gc_step_def same_pod_def split: sum.splits option.splits)
  next
    case (GcMore l d ls i js at1)
    obtain r fs where r: "delete_step NewGPUShareOperator (link_id (Hash d) i) at1 (host ag) = (r, fs)" by force
    have "\<forall>h \<in> H. \<forall>j. links_of fs (link_id h j) = links_of (host ag) (link_id h j)"
      using links [OF r] GcMore assms(2,5) by auto
    with GcMore assms(4-6) r show ?thesis
      by (auto simp: gc_step_def same_pod_def split: sum.splits option.splits)
  next
    case (GcRecord l ls)
    have names: "plain_elem (ln_namespace l)" "plain_elem (ln_name l)" "(ln_namespace l, ln_name l) \<noteq> k"
      using GcRecord assms(2,5) by (auto simp: line_ok_def line_apart_def)
    with GcRecord Delete_apart [OF st names] assms(4-6) show ?thesis
      by (auto simp: gc_step_def same_pod_def split: prod.splits if_splits)
  qed (use assms in \<open>auto simp: gc_step_def\<close>)
qed

lemma apart_call:
  assumes "threads_inv s" "apart k H s" "\<forall>h \<in> H. CHR ''-'' \<notin> set h"
    and "answer_ok (answer kl)" "answer_for k H (answer kl)" "run_call i kl s = Some s'"
  shows "apart k H s' \<and> same_pod k H (th_agent s) (th_agent s')"
proof -
  let ?c = "th_calls s ! i"
  note run = run_call_step [OF assms(6)]
  obtain at ag where st: "call_step kl ?c (th_agent s) = (at, ag)" by force
  have c: "call_ok ?c" "call_apart k H ?c"
    using run assms(1,2) by (auto simp: threads_inv_def apart_def list_all_length)
  have step: "call_apart k H (?c\<lparr>c_at := at\<rparr>) \<and> others_apart k H (Storage ag) \<and> same_pod k H (th_agent s) ag
      \<and> Sitter ag = Sitter (th_agent s)"
    using call_step_apart [OF _ c(1) assms(4) st _ c(2) _ assms(5,3)] run assms(1,2)
    by (simp add: threads_inv_def apart_def)
  moreover have "list_all (call_apart k H) (th_calls s')"
    using run st step assms(2) by (auto simp: apart_def list_all_length nth_list_update)
  ultimately show ?thesis using run st assms(2) by (simp add: apart_def)
qed

lemma apart_next:
  assumes "threads_inv s" "apart k H s" "\<forall>h \<in> H. CHR ''-'' \<notin> set h"
    and "thread_ok ev s" "event_apart k H ev s" "threads_next ev s = Some s'"
  shows "apart k H s' \<and> same_pod k H (th_agent s) (th_agent s')"
proof -
  have inv: "agent_inv (th_agent s)" "gc_ok (th_gc s)" using assms(1) by (simp_all add: threads_inv_def)
  show ?thesis
  proof (cases ev)
    case (ThCall resName ids)
    have "call_apart k H (call_arrives resName ids)"
      using assms(5) ThCall by (simp add: call_apart_def call_arrives_def)
    with assms(2,6) ThCall show ?thesis by (auto simp: apart_def split: if_splits)
  next
    case (ThRun i kl)
    with apart_call [OF assms(1-3)] assms(4-6) show ?thesis by simp
  next
    case (ThCollect ord)
    obtain at ag where st: "gc_step ord (th_gc s) (th_agent s) = (at, ag)" by force
    then show ?thesis
      using gc_step_apart [OF inv _ st, of k H] assms(2-4,6) ThCollect by (auto simp: apart_def)
  next
    case (ThDisk f)
    have "root_of ((Storage (th_agent s))\<lparr>commit_fault := f\<rparr>) = root_of (Storage (th_agent s))" by (simp add: root_of_def)
    then have "pods_of ((Storage (th_agent s))\<lparr>commit_fault := f\<rparr>) = pods_of (Storage (th_agent s))"
      by (simp add: pods_of_def fun_eq_iff)
    with assms(2,6) ThDisk show ?thesis by (auto simp: apart_def same_pod_def others_apart_def)
  next
    case (ThRestart env fl)
    then obtain m ag gp where main: "agent_main env fl = Ok (m, ag, gp)"
      and s': "s' = \<lparr>th_agent = ag, th_plugins = gp, th_calls = [], th_locked = {}, th_gc = GcWaiting\<rparr>"
      using assms(6) by (auto split: res.splits)
    have img: "image (me_disk env (fl_dbfile fl)) = buckets (Storage (th_agent s))" "me_host env = host (th_agent s)"
      using assms(4) ThRestart by simp_all
    note parts = agent_main_parts [OF main]
    have "map_of (buckets (Storage (th_agent s))) RootBucket \<noteq> None"
      using inv(1) by (simp add: agent_inv_def store_inv_def store_ok_def)
    then have "buckets (Storage ag) = buckets (Storage (th_agent s))"
      using NewStorage_image(2) [OF parts(5)] img(1) by simp
    then have "root_of (Storage ag) = root_of (Storage (th_agent s))" by (simp add: root_of_def)
    then have "pods_of (Storage ag) = pods_of (Storage (th_agent s))" by (simp add: pods_of_def fun_eq_iff)
    moreover have "Sitter ag = NewSitter (fl_node fl) (me_pods env) (me_fault env)"
      using main agent_main_Ok by (metis agent.select_convs(2))
    ultimately show ?thesis
      using assms(2,5) ThRestart parts(4) img(2) by (simp add: s' apart_def same_pod_def others_apart_def)
  qed (use assms(2,5,6) in \<open>auto simp: apart_def same_pod_def split: if_splits\<close>)
qed

lemma apart_run:
  assumes "(apart_step k H)\<^sup>*\<^sup>* s s'" "threads_inv s" "apart k H s" "\<forall>h \<in> H. CHR ''-'' \<notin> set h"
  shows "apart k H s' \<and> same_pod k H (th_agent s) (th_agent s') \<and> threads_inv s'"
  using assms(1)
proof (induction rule: rtranclp_induct)
  case (step s1 s2)
  then obtain ev where ev: "thread_ok ev s1" "event_apart k H ev s1" "threads_next ev s1 = Some s2"
    by (auto elim: apart_stepE)
  have "apart k H s2 \<and> same_pod k H (th_agent s1) (th_agent s2)"
    using apart_next [OF _ _ assms(4) ev] step.IH by blast
  moreover have "threads_inv s2" using threads_next_inv [OF _ ev(1,3)] step.IH by blast
  ultimately show ?case using step.IH same_pod_trans by blast
qed (use assms in simp)

text \<open>The devices of a record.\<close>

definition hashes_of :: "PodInfo \<Rightarrow> string set" where
  "hashes_of i = {Hash d | c d m. ContainerDeviceMap i = Some m \<and> (c, Some d) \<in> set m}"

lemma hashes_hex: "record_ok i \<Longrightarrow> h \<in> hashes_of i \<Longrightarrow> CHR ''-'' \<notin> set h"
  by (force simp: hashes_of_def record_ok_def made_device_def)

lemma info_apart_hashes: "hashes_of i \<inter> H = {} \<Longrightarrow> info_apart H i"
  by (force simp: hashes_of_def info_apart_def)

section \<open>Properties\<close>

text \<open>
  C6: A running pod is undisturbed.  From a moment when no call is under way and the collector is not
  in a round, whatever happens next, calls for containers of other pods and the collector in any
  interleaving, with any failure of the kubelet, the API and the disk, even ends of the process and
  restarts: as long as the API server has the pod or cannot tell (the cache may miss it), no call is
  for devices with one of its hashes, and the kubelet lists no further devices for its containers,
  its record and the links of its devices stay as they are, provided that at that moment no other
  record has one of its hashes and that nobody outside the agent touches its links.
\<close>

theorem live_pod_undisturbed:
  assumes "threads_reach s" and "quiet s"
    and "pods_of (Storage (th_agent s)) (ns, n) = Some i"
    and "\<forall>k' j. k' \<noteq> (ns, n) \<longrightarrow> pods_of (Storage (th_agent s)) k' = Some j \<longrightarrow> hashes_of j \<inter> hashes_of i = {}"
    and "maybe_served (Sitter (th_agent s)) ns n"
    and "(apart_step (ns, n) (hashes_of i))\<^sup>*\<^sup>* s s'"
  shows "pods_of (Storage (th_agent s')) (ns, n) = Some i
    \<and> (\<forall>h \<in> hashes_of i. \<forall>j. links_of (host (th_agent s')) (link_id h j) = links_of (host (th_agent s)) (link_id h j))"
proof -
  have inv: "threads_inv s" using threads_reach_inv [OF assms(1)] .
  then have "record_ok i"
    using records_okD [OF _ assms(3)] by (simp add: threads_inv_def agent_inv_def store_inv_def)
  then have hex: "\<forall>h \<in> hashes_of i. CHR ''-'' \<notin> set h" using hashes_hex by blast
  have "others_apart (ns, n) (hashes_of i) (Storage (th_agent s))"
    using assms(4) info_apart_hashes unfolding others_apart_def by blast
  moreover have "list_all (call_apart (ns, n) (hashes_of i)) (th_calls s)" "th_gc s = GcWaiting"
    using assms(2) by (auto simp: quiet_def call_apart_def list_all_iff)
  ultimately have "apart (ns, n) (hashes_of i) s" using assms(5) by (simp add: apart_def)
  with apart_run [OF assms(6) inv _ hex] assms(3) show ?thesis by (simp add: same_pod_def)
qed

theorem live_pod_undisturbed_witness:
  "\<exists>s s' i. threads_reach s \<and> thread_step s s' \<and> th_gc s' = GcLooking
     \<and> pods_of (Storage (th_agent s')) (''default'', ''train-0'') = Some i \<and> hashes_of i \<noteq> {}"
proof -
  let ?k = "(''default'', ''train-0'')"
  obtain s0 ag gp i where node0: "node_reach s0" "s0 = (ag, gp)" and i: "pods_of (Storage ag) ?k = Some i"
      "ContainerDeviceMap i = Some [(''main'', Some (NewDevice demo_ids ResourceGPUCore))]"
      and st: "Sitter ag = demo_sitter" and others: "\<forall>k. k \<noteq> ?k \<longrightarrow> pods_of (Storage ag) k = None"
    by (rule demo_node)
  have node: "node_reach (ag, gp)" using node0 by simp
  obtain t where t: "threads_reach t" "quiet t" "th_agent t = ag" using node_reach_threads [OF node] by blast
  let ?st = "demo_sitter\<lparr>api_pods := lister demo_sitter\<rparr>"
  let ?s = "t\<lparr>th_agent := ag\<lparr>Sitter := ?st\<rparr>\<rparr>"
  let ?s' = "?s\<lparr>th_gc := GcLooking\<rparr>"
  have "thread_step t ?s" using t(3) by (intro thread_stepI [of "ThPods ?st"]) simp_all
  with t(1) have s: "threads_reach ?s" unfolding threads_reach_def by (meson rtranclp.rtrancl_into_rtrancl)
  have wait: "th_gc t = GcWaiting" using t(2) by (simp add: quiet_def)
  then have next_ev: "threads_next (ThWake GcMinute) ?s = Some ?s'" by (simp add: gc_wakes_def)
  have quiet: "quiet ?s" using t(2) by (simp add: quiet_def)
  have rec: "pods_of (Storage (th_agent ?s)) ?k = Some i" using i(1) by simp
  have alone: "\<forall>k' j. k' \<noteq> ?k \<longrightarrow> pods_of (Storage (th_agent ?s)) k' = Some j \<longrightarrow> hashes_of j \<inter> hashes_of i = {}"
    using others by simp
  have served: "maybe_served (Sitter (th_agent ?s)) ''default'' ''train-0''"
    by (simp add: maybe_served_def demo_sitter_def NewSitter_def)
  have run: "(apart_step ?k (hashes_of i))\<^sup>*\<^sup>* ?s ?s'"
    using next_ev by (intro r_into_rtranclp apart_stepI [of "ThWake GcMinute"]) simp_all
  have "pods_of (Storage (th_agent ?s')) ?k = Some i"
    using live_pod_undisturbed [OF s quiet rec alone served run] by blast
  moreover have "hashes_of i \<noteq> {}" using i(2) by (auto simp: hashes_of_def)
  moreover have "thread_step ?s ?s'" using next_ev by (intro thread_stepI [of "ThWake GcMinute"]) simp_all
  ultimately show ?thesis using s by (intro exI [of _ ?s] exI [of _ ?s'] exI [of _ i]) simp
qed

end
