(* ===== verification/Delete_Events.thy ===== *)
theory Delete_Events
  imports Thread_Safety
begin

text \<open>
  How a deleted pod comes to the collector: the informer hands the object to \<open>deleteHook\<close>, which sends
  it to \<open>gcChan\<close>, a channel with room for one object; the \<open>select\<close> of \<open>GC\<close> receives it.  While the
  collector is in a round and the channel is full, the hook blocks and the informer keeps what
  comes after it.
\<close>

section \<open>The model\<close>

text \<open>\<open>deleteHook\<close> (\<open>NewGPUManager\<close>); \<open>None\<close> is a send that blocks.\<close>

definition gcChan_size :: nat where "gcChan_size = 1"

definition deleteHook :: "gc_event \<Rightarrow> gc_event list \<Rightarrow> gc_event list option" where
  "deleteHook obj gcChan = (if length gcChan < gcChan_size then Some (gcChan @ [obj]) else None)"

text \<open>
  The goroutines with the channel and with the objects the informer has for the hook; \<open>handed\<close> and
  \<open>taken\<close> list what was handed to it and what the collector took since the process started.
\<close>

record watched =
  w_node :: node_threads
  w_informer :: "gc_event list"
  w_gcChan :: "gc_event list"
  handed :: "gc_event list"
  taken :: "gc_event list"

datatype watch_event = WtDeleted gc_event | WtHook | WtReceive | WtMinute | WtThread thread_event

text \<open>
  The two cases of the \<open>select\<close>, and everything else that may happen; a restart loses the channel and
  what the informer had.
\<close>

fun watch_next :: "watch_event \<Rightarrow> watched \<Rightarrow> watched option" where
  "watch_next (WtDeleted obj) w = Some (w\<lparr>w_informer := w_informer w @ [obj], handed := handed w @ [obj]\<rparr>)"
| "watch_next WtHook w =
     (case w_informer w of
        [] \<Rightarrow> None
      | obj # objs \<Rightarrow>
          map_option (\<lambda>gcChan. w\<lparr>w_informer := objs, w_gcChan := gcChan\<rparr>) (deleteHook obj (w_gcChan w)))"
| "watch_next WtReceive w =
     (case w_gcChan w of
        [] \<Rightarrow> None
      | o' # objs \<Rightarrow>
          map_option (\<lambda>s. w\<lparr>w_node := s, w_gcChan := objs, taken := taken w @ [o']\<rparr>)
            (threads_next (ThWake o') (w_node w)))"
| "watch_next WtMinute w =
     map_option (\<lambda>s. w\<lparr>w_node := s\<rparr>) (threads_next (ThWake GcMinute) (w_node w))"
| "watch_next (WtThread ev) w =
     (case ev of
        ThWake _ \<Rightarrow> None
      | ThRestart _ _ \<Rightarrow>
          map_option (\<lambda>s. \<lparr>w_node = s, w_informer = [], w_gcChan = [], handed = [], taken = []\<rparr>)
            (threads_next ev (w_node w))
      | _ \<Rightarrow> map_option (\<lambda>s. w\<lparr>w_node := s\<rparr>) (threads_next ev (w_node w)))"

fun watch_ok :: "watch_event \<Rightarrow> watched \<Rightarrow> bool" where
  "watch_ok (WtDeleted obj) w \<longleftrightarrow> (\<exists>pod. obj = GcPodPointer pod) \<or> obj = GcOtherObject"
| "watch_ok (WtThread ev) w \<longleftrightarrow> thread_ok ev (w_node w)"
| "watch_ok _ w \<longleftrightarrow> True"

definition watch_start :: "node_threads \<Rightarrow> watched" where
  "watch_start s = \<lparr>w_node = s, w_informer = [], w_gcChan = [], handed = [], taken = []\<rparr>"

inductive watch_reach :: "watched \<Rightarrow> bool" where
  watch_first: "first_start (ag, gp) \<Longrightarrow> watch_reach (watch_start (threads_of ag gp))"
| watch_step: "watch_reach w \<Longrightarrow> watch_ok ev w \<Longrightarrow> watch_next ev w = Some w' \<Longrightarrow> watch_reach w'"

section \<open>Invariants\<close>

definition watch_inv :: "watched \<Rightarrow> bool" where
  "watch_inv w \<longleftrightarrow>
     threads_reach (w_node w) \<and> handed w = taken w @ w_gcChan w @ w_informer w
     \<and> length (w_gcChan w) \<le> gcChan_size
     \<and> (\<forall>obj \<in> set (handed w). (\<exists>pod. obj = GcPodPointer pod) \<or> obj = GcOtherObject)"

lemma threads_reach_next:
  "threads_reach s \<Longrightarrow> thread_ok ev s \<Longrightarrow> threads_next ev s = Some s' \<Longrightarrow> threads_reach s'"
  unfolding threads_reach_def by (meson rtranclp.rtrancl_into_rtrancl thread_stepI)

lemma watch_inv_step:
  assumes "watch_inv w" "watch_ok ev w" "watch_next ev w = Some w'"
  shows "watch_inv w'"
proof (cases ev)
  case (WtThread e)
  then obtain s where s: "threads_next e (w_node w) = Some s" "w_node w' = s"
    using assms(3) by (cases e) (auto split: res.splits prod.splits)
  have "threads_reach s" using threads_reach_next [OF _ _ s(1)] assms(1,2) WtThread by (simp add: watch_inv_def)
  with WtThread assms(1,3) s show ?thesis
    by (cases e) (auto simp: watch_inv_def simp del: threads_next.simps)
next
  case WtReceive
  then obtain obj objs s where s: "w_gcChan w = obj # objs" "threads_next (ThWake obj) (w_node w) = Some s"
      "w' = w\<lparr>w_node := s, w_gcChan := objs, taken := taken w @ [obj]\<rparr>"
    using assms(3) by (auto split: list.splits simp del: threads_next.simps)
  then show ?thesis
    using assms(1) threads_reach_next [OF _ _ s(2)] by (simp add: watch_inv_def del: threads_next.simps)
next
  case WtMinute
  then obtain s where s: "threads_next (ThWake GcMinute) (w_node w) = Some s" "w' = w\<lparr>w_node := s\<rparr>"
    using assms(3) by (auto simp del: threads_next.simps)
  then show ?thesis
    using assms(1) threads_reach_next [OF _ _ s(1)] by (simp add: watch_inv_def del: threads_next.simps)
qed (use assms in \<open>auto simp: watch_inv_def deleteHook_def split: list.splits if_splits\<close>)

lemma watch_reach_inv: "watch_reach w \<Longrightarrow> watch_inv w"
proof (induction rule: watch_reach.induct)
  case (watch_first ag gp)
  then have "threads_reach (threads_of ag gp)" by (auto simp: threads_reach_def)
  then show ?case by (simp add: watch_inv_def watch_start_def)
qed (rule watch_inv_step)

text \<open>An object on its way can be moved on, and one that is received starts a round.\<close>

lemma receive_starts_round:
  assumes "watch_inv w" "th_gc (w_node w) = GcWaiting" "w_gcChan w = obj # objs"
  obtains w' where "watch_next WtReceive w = Some w'" "th_gc (w_node w') = GcLooking" "taken w' = taken w @ [obj]"
proof -
  have "(\<exists>pod. obj = GcPodPointer pod) \<or> obj = GcOtherObject" using assms(1,3) by (simp add: watch_inv_def)
  then have "gc_wakes obj" by (auto simp: gc_wakes_def)
  with that show ?thesis using assms(2,3) by simp
qed

section \<open>Properties\<close>

text \<open>
  C10: No deletion is lost.  What the collector has received, what is in the channel and what the
  informer still has are, in this order, the objects the informer was given since the process
  started, and the channel holds at most one.  An object on its way is never stuck: either the
  hook can send, or the collector waits and receives, which starts a round, or it is in a round,
  each step of which brings the round nearer to its end.
\<close>

theorem deletions_reach_collector:
  assumes "watch_reach w"
  shows "handed w = taken w @ w_gcChan w @ w_informer w \<and> length (w_gcChan w) \<le> 1
    \<and> (taken w \<noteq> handed w \<longrightarrow>
         (\<exists>w'. watch_next WtHook w = Some w' \<and> w_gcChan w' \<noteq> [])
         \<or> (\<exists>w'. watch_next WtReceive w = Some w' \<and> th_gc (w_node w') = GcLooking
              \<and> length (taken w') = Suc (length (taken w)))
         \<or> (\<exists>w'. watch_next (WtThread (ThCollect ord)) w = Some w'
              \<and> (gc_left (th_gc (w_node w')), gc_left (th_gc (w_node w))) \<in> nearer))"
proof -
  have inv: "watch_inv w" using watch_reach_inv [OF assms] .
  then have fifo: "handed w = taken w @ w_gcChan w @ w_informer w" "length (w_gcChan w) \<le> 1"
    by (simp_all add: watch_inv_def gcChan_size_def)
  consider "w_gcChan w = []" "w_informer w \<noteq> []" | obj objs where "w_gcChan w = obj # objs"
    | "taken w = handed w"
    using fifo(1) by (cases "w_gcChan w") auto
  then show ?thesis
  proof cases
    case 1
    then have "\<exists>w'. watch_next WtHook w = Some w' \<and> w_gcChan w' \<noteq> []"
      by (auto simp: deleteHook_def gcChan_size_def split: list.split)
    with fifo show ?thesis by blast
  next
    case (2 obj objs)
    show ?thesis
    proof (cases "th_gc (w_node w) = GcWaiting")
      case True
      from receive_starts_round [OF inv this 2] fifo show ?thesis by (metis length_append_singleton)
    next
      case False
      have "threads_inv (w_node w)" using inv threads_reach_inv by (simp add: watch_inv_def)
      from round_goes_on [OF this False, of ord]
      have "\<exists>w'. watch_next (WtThread (ThCollect ord)) w = Some w'
          \<and> (gc_left (th_gc (w_node w')), gc_left (th_gc (w_node w))) \<in> nearer"
        by (auto simp del: threads_next.simps)
      with fifo show ?thesis by blast
    qed
  qed (use fifo in blast)
qed

text \<open>Two deleted pods, the first in the channel and the second behind it.\<close>

theorem deletions_reach_collector_witness:
  "\<exists>w. watch_reach w \<and> length (handed w) = 2 \<and> handed w = taken w @ w_gcChan w @ w_informer w
     \<and> w_gcChan w \<noteq> [] \<and> w_informer w \<noteq> []"
proof -
  let ?o = "GcPodPointer \<lparr>Annotations = []\<rparr>"
  obtain ag gp where "first_start (ag, gp)" using demo_node node_reach_def by (metis surj_pair)
  then have "watch_reach (watch_start (threads_of ag gp))" by (rule watch_first)
  from watch_step [OF this, of "WtDeleted ?o"]
  have "watch_reach ((watch_start (threads_of ag gp))\<lparr>w_informer := [?o], handed := [?o]\<rparr>)"
    by (simp add: watch_start_def)
  from watch_step [OF this, of "WtDeleted ?o"]
  have "watch_reach ((watch_start (threads_of ag gp))\<lparr>w_informer := [?o, ?o], handed := [?o, ?o]\<rparr>)"
    by (simp add: watch_start_def)
  from watch_step [OF this, of WtHook]
  have w: "watch_reach ((watch_start (threads_of ag gp))\<lparr>w_informer := [?o], w_gcChan := [?o], handed := [?o, ?o]\<rparr>)"
    by (simp add: watch_start_def deleteHook_def gcChan_size_def)
  let ?w = "(watch_start (threads_of ag gp))\<lparr>w_informer := [?o], w_gcChan := [?o], handed := [?o, ?o]\<rparr>"
  have fifo: "handed ?w = taken ?w @ w_gcChan ?w @ w_informer ?w" using deletions_reach_collector [OF w] by blast
  show ?thesis
  proof (intro exI [of _ ?w] conjI)
    show "watch_reach ?w" by (rule w)
    show "handed ?w = taken ?w @ w_gcChan ?w @ w_informer ?w" by (rule fifo)
  qed simp_all
qed

end
