(* ===== verification/Plugin_Copy.thy ===== *)
theory Plugin_Copy
  imports Plugin_Server
begin

text \<open>
  \<open>pkg/plugins/plugin.go\<close>: the device plugin server once more, as \<open>Plugin\<close>, which nothing uses.  It
  is modelled the way it is written: each label, each blocking call and the \<open>select\<close> is a function of
  its own over what is still to happen, the position in the code is not part of the state, and a
  \<open>goto\<close> is a call.  It is the same program as the step relation of \<open>Plugin_Server\<close>.
\<close>

section \<open>The model\<close>

record Plugin =
  pl_Endpoint :: string
  pl_ResourceName :: string
  pl_PreStartRequired :: bool

text \<open>The variables of \<open>Run\<close>, the goroutines and the kubelet.\<close>

record run_vars =
  v_stoChan :: nat
  v_closed :: "nat list"
  v_fresh :: nat
  v_errChan :: "err list"
  v_servers :: "nat list"
  v_socket :: "nat option"
  v_requests :: "RegisterRequest list"

text \<open>The state as one of the step relation, at a place of the code.\<close>

definition at_loc :: "dp_loc \<Rightarrow> run_vars \<Rightarrow> dp_state" where
  "at_loc l v =
     \<lparr>loc = l, stoChan = v_stoChan v, closed = v_closed v, fresh = v_fresh v, errChan = v_errChan v,
      servers = v_servers v, socket = v_socket v, requests = v_requests v\<rparr>"

definition Plugin_Register :: "Plugin \<Rightarrow> err option \<Rightarrow> err option \<Rightarrow> err option \<times> RegisterRequest list" where
  "Plugin_Register p dial reply =
     (case dial of
        Some e \<Rightarrow> (Some e, [])
      | None \<Rightarrow>
          (reply, [\<lparr>rq_Version = Version, rq_Endpoint = pl_Endpoint p, rq_ResourceName = pl_ResourceName p,
                    rq_PreStartRequired = pl_PreStartRequired p\<rparr>]))"

definition Plugin_Wait :: "err option \<Rightarrow> err option \<Rightarrow> err option" where
  "Plugin_Wait dial close = (if dial \<noteq> None then dial else close)"

text \<open>\<open>Serve\<close> with the new stop channel, and the variables after it; an error of \<open>net.Listen\<close> panics.\<close>

definition Plugin_Serve :: "errno option \<Rightarrow> run_vars \<Rightarrow> bool \<times> run_vars" where
  "Plugin_Serve listen v =
     (let stop = v_fresh v;
          v = v\<lparr>v_stoChan := stop, v_fresh := Suc stop, v_socket := None\<rparr>
      in if listen \<noteq> None then (False, v)
         else (True, v\<lparr>v_socket := Some stop, v_servers := v_servers v @ [stop]\<rparr>))"

text \<open>The goroutine that waits for the stop channel.\<close>

definition stop_goroutine :: "nat \<Rightarrow> run_vars \<Rightarrow> run_vars option" where
  "stop_goroutine c v =
     (if c \<in> set (v_servers v) \<and> c \<in> set (v_closed v)
      then Some (v\<lparr>v_servers := remove1 c (v_servers v), v_socket := None\<rparr>) else None)"

text \<open>
  \<open>Run\<close>, on a list of what happens: its own calls and the events of \<open>select\<close> in the order of the
  code, with the goroutines' steps anywhere.  \<open>None\<close> is a list that cannot happen.
\<close>

fun run_restart :: "Plugin \<Rightarrow> dp_event list \<Rightarrow> run_vars \<Rightarrow> dp_state option"
  and run_serve :: "Plugin \<Rightarrow> dp_event list \<Rightarrow> run_vars \<Rightarrow> dp_state option"
  and run_wait :: "Plugin \<Rightarrow> dp_event list \<Rightarrow> run_vars \<Rightarrow> dp_state option"
  and run_register :: "Plugin \<Rightarrow> dp_event list \<Rightarrow> run_vars \<Rightarrow> dp_state option"
  and run_send :: "Plugin \<Rightarrow> err \<Rightarrow> dp_event list \<Rightarrow> run_vars \<Rightarrow> dp_state option"
  and run_select :: "Plugin \<Rightarrow> dp_event list \<Rightarrow> run_vars \<Rightarrow> dp_state option"
  and run_over :: "dp_loc \<Rightarrow> dp_event list \<Rightarrow> run_vars \<Rightarrow> dp_state option"
where
  "run_restart p [] v = Some (at_loc AtRestart v)"
| "run_restart p (ev # evs) v =
     (case ev of
        EvClose \<Rightarrow>
          if v_stoChan v \<in> set (v_closed v) then run_over (Crashed CloseOfClosed) evs v
          else run_serve p evs (v\<lparr>v_closed := v_closed v @ [v_stoChan v]\<rparr>)
      | EvServerEnds c \<Rightarrow> (case stop_goroutine c v of None \<Rightarrow> None | Some v \<Rightarrow> run_restart p evs v)
      | _ \<Rightarrow> None)"
| "run_serve p [] v = Some (at_loc AtSleep v)"
| "run_serve p (ev # evs) v =
     (case ev of
        EvServe listen \<Rightarrow>
          (case Plugin_Serve listen v of
             (False, v) \<Rightarrow> run_over (Crashed ListenFailed) evs v
           | (True, v) \<Rightarrow> run_wait p evs v)
      | EvServerEnds c \<Rightarrow> (case stop_goroutine c v of None \<Rightarrow> None | Some v \<Rightarrow> run_serve p evs v)
      | _ \<Rightarrow> None)"
| "run_wait p [] v = Some (at_loc AtWait v)"
| "run_wait p (ev # evs) v =
     (case ev of
        EvWait dial close \<Rightarrow>
          if dial = None \<and> v_socket v = None then None
          else if Plugin_Wait dial close \<noteq> None then run_restart p evs v
          else run_register p evs v
      | EvServerEnds c \<Rightarrow> (case stop_goroutine c v of None \<Rightarrow> None | Some v \<Rightarrow> run_wait p evs v)
      | _ \<Rightarrow> None)"
| "run_register p [] v = Some (at_loc AtRegister v)"
| "run_register p (ev # evs) v =
     (case ev of
        EvRegister dial reply \<Rightarrow>
          (case Plugin_Register p dial reply of
             (Some e, rs) \<Rightarrow> run_send p e evs (v\<lparr>v_requests := v_requests v @ rs\<rparr>)
           | (None, rs) \<Rightarrow> run_select p evs (v\<lparr>v_requests := v_requests v @ rs\<rparr>))
      | EvServerEnds c \<Rightarrow> (case stop_goroutine c v of None \<Rightarrow> None | Some v \<Rightarrow> run_register p evs v)
      | _ \<Rightarrow> None)"
| "run_send p e [] v = Some (at_loc (AtSend e) v)"
| "run_send p e (ev # evs) v =
     (case ev of
        EvSend \<Rightarrow> if length (v_errChan v) < 1 then run_select p evs (v\<lparr>v_errChan := v_errChan v @ [e]\<rparr>) else None
      | EvServerEnds c \<Rightarrow> (case stop_goroutine c v of None \<Rightarrow> None | Some v \<Rightarrow> run_send p e evs v)
      | _ \<Rightarrow> None)"
| "run_select p [] v = Some (at_loc AtSelect v)"
| "run_select p (ev # evs) v =
     (case ev of
        EvRecvErr \<Rightarrow> if v_errChan v = [] then None else run_restart p evs (v\<lparr>v_errChan := tl (v_errChan v)\<rparr>)
      | EvKubeletSocket \<Rightarrow> run_restart p evs v
      | EvOtherFile \<Rightarrow> run_select p evs v
      | EvStop \<Rightarrow>
          if v_stoChan v \<in> set (v_closed v) then run_over (Crashed CloseOfClosed) evs v
          else run_over Returned evs (v\<lparr>v_closed := v_closed v @ [v_stoChan v]\<rparr>)
      | EvServerEnds c \<Rightarrow> (case stop_goroutine c v of None \<Rightarrow> None | Some v \<Rightarrow> run_select p evs v)
      | _ \<Rightarrow> None)"
| "run_over l [] v = Some (at_loc l v)"
| "run_over l (ev # evs) v =
     (case ev of
        EvServerEnds c \<Rightarrow> (case stop_goroutine c v of None \<Rightarrow> None | Some v \<Rightarrow> run_over l evs v)
      | _ \<Rightarrow> None)"

text \<open>\<open>Run\<close> from its start; without a watcher the process exits.\<close>

definition Plugin_Run :: "Plugin \<Rightarrow> err option \<Rightarrow> dp_event list \<Rightarrow> dp_state option" where
  "Plugin_Run p watcher evs =
     (if watcher \<noteq> None then None
      else run_restart p evs
        \<lparr>v_stoChan = 0, v_closed = [], v_fresh = 1, v_errChan = [], v_servers = [], v_socket = None, v_requests = []\<rparr>)"

section \<open>Lemmas\<close>

definition server_of :: "Plugin \<Rightarrow> DevicePluginServer" where
  "server_of p =
     \<lparr>dp_Endpoint = pl_Endpoint p, dp_ResourceName = pl_ResourceName p, dp_PreStartRequired = pl_PreStartRequired p\<rparr>"

lemma at_loc_simps [simp]:
  "loc (at_loc l v) = l" "stoChan (at_loc l v) = v_stoChan v" "closed (at_loc l v) = v_closed v" "fresh (at_loc l v) = v_fresh v"
  "errChan (at_loc l v) = v_errChan v" "servers (at_loc l v) = v_servers v" "socket (at_loc l v) = v_socket v"
  "requests (at_loc l v) = v_requests v"
  by (simp_all add: at_loc_def)

lemma Plugin_Register_server: "Plugin_Register p dial reply = Register (server_of p) dial reply"
  by (simp add: Plugin_Register_def Register_def register_request_def server_of_def split: option.split)

lemma Plugin_Wait_server: "Plugin_Wait dial close = Wait dial close"
  by (simp add: Plugin_Wait_def Wait_def split: option.split)

lemma Plugin_Serve_server:
  "Serve listen (at_loc l v) = (case Plugin_Serve listen v of
     (ok, v') \<Rightarrow> at_loc (if ok then AtWait else Crashed ListenFailed) v')"
  by (simp add: Serve_def Plugin_Serve_def at_loc_def Let_def split: option.split)

lemma stop_goroutine_server:
  "dp_next p (EvServerEnds c) (at_loc l v) = map_option (at_loc l) (stop_goroutine c v)"
  by (simp add: stop_goroutine_def server_ends_def at_loc_def)

lemma run_stop: "dp_run p (EvServerEnds c # evs) (at_loc l v) =
    (case stop_goroutine c v of None \<Rightarrow> None | Some v \<Rightarrow> dp_run p evs (at_loc l v))"
  by (simp only: dp_run.simps stop_goroutine_server) (simp split: option.split)

lemma at_loc_updates:
  "(at_loc l v)\<lparr>loc := l'\<rparr> = at_loc l' v"
  "(at_loc l v)\<lparr>errChan := es\<rparr> = at_loc l (v\<lparr>v_errChan := es\<rparr>)"
  "(at_loc l v)\<lparr>requests := rs\<rparr> = at_loc l (v\<lparr>v_requests := rs\<rparr>)"
  "(at_loc l v)\<lparr>closed := cs\<rparr> = at_loc l (v\<lparr>v_closed := cs\<rparr>)"
  by (simp_all add: at_loc_def)

lemma close_at_loc:
  "close_stoChan l' (at_loc l v) =
     (if v_stoChan v \<in> set (v_closed v) then at_loc (Crashed CloseOfClosed) v
      else at_loc l' (v\<lparr>v_closed := v_closed v @ [v_stoChan v]\<rparr>))"
  by (simp add: close_stoChan_def at_loc_def)

lemma run_steps:
  "run_restart p evs v = dp_run (server_of p) evs (at_loc AtRestart v)
   \<and> run_serve p evs v = dp_run (server_of p) evs (at_loc AtSleep v)
   \<and> run_wait p evs v = dp_run (server_of p) evs (at_loc AtWait v)
   \<and> run_register p evs v = dp_run (server_of p) evs (at_loc AtRegister v)
   \<and> (\<forall>e. run_send p e evs v = dp_run (server_of p) evs (at_loc (AtSend e) v))
   \<and> run_select p evs v = dp_run (server_of p) evs (at_loc AtSelect v)
   \<and> (\<forall>l. l = Returned \<or> (\<exists>x. l = Crashed x) \<longrightarrow> run_over l evs v = dp_run (server_of p) evs (at_loc l v))"
proof (induction evs arbitrary: v)
  case (Cons ev evs)
  show ?case
  proof (cases ev)
    case (EvServerEnds c)
    then show ?thesis unfolding EvServerEnds run_stop using Cons.IH by (auto split: option.split)
  next
    case EvClose
    then show ?thesis using Cons.IH by (auto simp: close_at_loc)
  next
    case (EvServe listen)
    then show ?thesis using Cons.IH by (auto simp: Plugin_Serve_server split: prod.split bool.split)
  next
    case (EvWait dial close)
    then show ?thesis using Cons.IH by (auto simp: Plugin_Wait_server at_loc_updates)
  next
    case (EvRegister dial reply)
    then show ?thesis using Cons.IH by (auto simp: Plugin_Register_server at_loc_updates split: prod.split option.split)
  next
    case EvSend
    then show ?thesis using Cons.IH by (auto simp: at_loc_updates)
  next
    case EvRecvErr
    then show ?thesis using Cons.IH by (auto simp: at_loc_updates)
  next
    case EvKubeletSocket
    then show ?thesis using Cons.IH by (auto simp: at_loc_updates)
  next
    case EvOtherFile
    then show ?thesis using Cons.IH by auto
  next
    case EvStop
    then show ?thesis using Cons.IH by (auto simp: close_at_loc)
  qed
qed simp

section \<open>Properties\<close>

text \<open>
  C40: The copy of the device plugin server behaves as the one in use: given a watcher, its \<open>Run\<close> ends in the
  same state after the same calls and events, and it can take no others; without one it does not
  start.
\<close>

theorem Plugin_Run_is_DevicePluginServer_Run:
  "Plugin_Run p None evs = dp_run (server_of p) evs dp_init \<and> Plugin_Run p (Some e) evs = None"
  by (simp add: Plugin_Run_def run_steps at_loc_def dp_init_def)

end
