(* ===== verification/Signals.thy ===== *)
theory Signals
  imports Common_Util
begin

text \<open>
  The signal handlers of \<open>pkg/common/util.go\<close>, from the moment \<open>signal.Notify\<close> has returned: it sends
  a signal to the channel without waiting, so that a channel of no capacity passes a signal on to
  a goroutine that is receiving at that moment and to no other.
\<close>

section \<open>The model\<close>

datatype os_signal = SIGTERM | SIGQUIT | SIGUSR1

text \<open>
  What happens: a signal, \<open>main\<close> coming to its receive, and the goroutine of \<open>DumpSignal\<close> coming
  to its receive, or to the end of the \<open>DumpStacks\<close> it is in, with that result (\<open>None\<close>: it does not
  end).
\<close>

datatype sig_event =
    Signal os_signal
  | MainRuns
  | DumperRuns "(string \<times> nat) res option"

datatype exit_loc = ExitNotified | ExitReceives | Exited

datatype dumper_loc = DumperNotified | DumperReceives | DumperDumps

text \<open>\<open><-common.ExitSignal()\<close>\<close>

fun ExitSignal :: "sig_event \<Rightarrow> exit_loc \<Rightarrow> exit_loc" where
  "ExitSignal MainRuns ExitNotified = ExitReceives"
| "ExitSignal (Signal s) ExitReceives = (if s \<in> {SIGTERM, SIGQUIT} then Exited else ExitReceives)"
| "ExitSignal ev l = l"

text \<open>\<open>go common.DumpSignal()\<close>, with the dumps it has made.\<close>

fun DumpSignal ::
  "sig_event \<Rightarrow> dumper_loc \<times> (string \<times> nat) res list \<Rightarrow> dumper_loc \<times> (string \<times> nat) res list"
where
  "DumpSignal (DumperRuns r) (DumperNotified, out) = (DumperReceives, out)"
| "DumpSignal (DumperRuns r) (DumperDumps, out) =
     (case r of None \<Rightarrow> (DumperDumps, out) | Some d \<Rightarrow> (DumperReceives, out @ [d]))"
| "DumpSignal (Signal s) (DumperReceives, out) =
     (if s = SIGUSR1 then (DumperDumps, out) else (DumperReceives, out))"
| "DumpSignal ev (l, out) = (l, out)"

section \<open>Lemmas\<close>

definition exit_runs :: "sig_event list \<Rightarrow> exit_loc \<Rightarrow> exit_loc" where
  "exit_runs evs l = fold ExitSignal evs l"

definition dumper_runs :: "sig_event list \<Rightarrow> dumper_loc \<times> (string \<times> nat) res list" where
  "dumper_runs evs = fold DumpSignal evs (DumperNotified, [])"

abbreviation ends_main :: "sig_event \<Rightarrow> bool" where
  "ends_main ev \<equiv> ev = Signal SIGTERM \<or> ev = Signal SIGQUIT"

lemma exit_runs_simps [simp]:
  "exit_runs [] l = l" "exit_runs (ev # evs) l = exit_runs evs (ExitSignal ev l)"
  by (simp_all add: exit_runs_def)

lemma exit_runs_Exited [simp]: "exit_runs evs Exited = Exited"
  by (induction evs) simp_all

lemma exit_runs_Receives: "exit_runs evs ExitReceives = Exited \<longleftrightarrow> (\<exists>ev \<in> set evs. ends_main ev)"
proof (induction evs)
  case (Cons ev evs)
  then show ?case by (cases ev rule: sig_event.exhaust) auto
qed simp

text \<open>
  The agent ends exactly when it is told to after it has come to wait for it; what it is told
  between the registration and then is lost.
\<close>

lemma exit_runs_iff:
  "exit_runs evs ExitNotified = Exited
     \<longleftrightarrow> (\<exists>xs ys. evs = xs @ MainRuns # ys \<and> (\<exists>ev \<in> set ys. ends_main ev))"
proof (induction evs)
  case (Cons ev evs)
  show ?case
  proof (cases "ev = MainRuns")
    case True
    have "(\<exists>xs ys. ev # evs = xs @ MainRuns # ys \<and> (\<exists>e \<in> set ys. ends_main e)) \<longleftrightarrow> (\<exists>e \<in> set evs. ends_main e)"
    proof
      assume "\<exists>xs ys. ev # evs = xs @ MainRuns # ys \<and> (\<exists>e \<in> set ys. ends_main e)"
      then obtain xs ys where "ev # evs = xs @ MainRuns # ys" and ys: "\<exists>e \<in> set ys. ends_main e" by blast
      then have "set ys \<subseteq> set evs" by (cases xs) auto
      with ys show "\<exists>e \<in> set evs. ends_main e" by blast
    next
      assume "\<exists>e \<in> set evs. ends_main e"
      with True show "\<exists>xs ys. ev # evs = xs @ MainRuns # ys \<and> (\<exists>e \<in> set ys. ends_main e)"
        by (intro exI [of _ "[]"] exI [of _ evs]) simp
    qed
    with True show ?thesis by (simp add: exit_runs_Receives)
  next
    case False
    then have "ExitSignal ev ExitNotified = ExitNotified" by (cases ev) simp_all
    moreover have "(\<exists>xs ys. ev # evs = xs @ MainRuns # ys \<and> (\<exists>e \<in> set ys. ends_main e))
        \<longleftrightarrow> (\<exists>xs ys. evs = xs @ MainRuns # ys \<and> (\<exists>e \<in> set ys. ends_main e))"
      using False by (simp add: Cons_eq_append_conv) blast
    ultimately show ?thesis using Cons.IH by simp
  qed
qed simp

lemma dumper_steps:
  "fold DumpSignal evs (l, out) = (l', out') \<Longrightarrow>
   length out' + (if l' = DumperDumps then 1 else 0)
     \<le> length out + (if l = DumperDumps then 1 else 0) + count_list evs (Signal SIGUSR1)"
proof (induction evs arbitrary: l out)
  case (Cons ev evs)
  obtain l1 out1 where 1: "DumpSignal ev (l, out) = (l1, out1)" by force
  then have "length out1 + (if l1 = DumperDumps then 1 else 0)
      \<le> length out + (if l = DumperDumps then 1 else 0) + (if ev = Signal SIGUSR1 then 1 else 0)"
    by (cases ev; cases l) (auto split: option.splits if_splits)
  moreover have "fold DumpSignal evs (l1, out1) = (l', out')" using Cons.prems 1 by simp
  ultimately show ?case using Cons.IH [of l1 out1] by auto
qed simp

text \<open>
  There are at most as many dumps as signals; and of any number of signals that come while one
  is written, none leads to another.
\<close>

lemma dumps_at_most: "dumper_runs evs = (l, out) \<Longrightarrow> length out \<le> count_list evs (Signal SIGUSR1)"
  using dumper_steps [of evs DumperNotified "[]" l out] by (simp add: dumper_runs_def)

lemma dumps_lost:
  "dumper_runs ([DumperRuns r, Signal SIGUSR1] @ replicate n (Signal SIGUSR1) @ [DumperRuns (Some d)])
     = (DumperReceives, [d])"
proof -
  have "fold DumpSignal (replicate n (Signal SIGUSR1)) (DumperDumps, []) = (DumperDumps, [])"
    by (induction n) simp_all
  then show ?thesis by (simp add: dumper_runs_def)
qed

end
