(* ===== verification/Pod_Resources.thy ===== *)
theory Pod_Resources
  imports Kube_Locator
begin

text \<open>
  \<open>pkg/podresources/server.go\<close>: the pod-resources service, which answers with the devices of every
  container of every pod.  The providers of the pods and of the devices are the environment.
\<close>

text \<open>Of a pod the service reads the name, the namespace, the UID and the names of the containers.\<close>

record core_Pod =
  po_Name :: string
  po_Namespace :: string
  po_UID :: string
  po_Containers :: "string list"

record podResourcesServer =
  podsProvider :: "core_Pod list"
  devicesProvider :: "string \<Rightarrow> string \<Rightarrow> ContainerDevices list"

definition NewPodResourcesServer ::
  "core_Pod list \<Rightarrow> (string \<Rightarrow> string \<Rightarrow> ContainerDevices list) \<Rightarrow> podResourcesServer"
where
  "NewPodResourcesServer pods devices = \<lparr>podsProvider = pods, devicesProvider = devices\<rparr>"

text \<open>The inner loop fills \<open>pRes.Containers\<close>, the outer one \<open>podResources\<close>, position by position.\<close>

fun fill_containers :: "podResourcesServer \<Rightarrow> core_Pod \<Rightarrow> string list \<Rightarrow> ContainerResources list" where
  "fill_containers p pod [] = []"
| "fill_containers p pod (c # cs) =
     \<lparr>cr_Name = c, cr_Devices = devicesProvider p (po_UID pod) c\<rparr> # fill_containers p pod cs"

fun fill_pods :: "podResourcesServer \<Rightarrow> core_Pod list \<Rightarrow> ListPodResourcesResponse" where
  "fill_pods p [] = []"
| "fill_pods p (pod # pods) =
     \<lparr>pr_Name = po_Name pod, pr_Namespace = po_Namespace pod,
      pr_Containers = fill_containers p pod (po_Containers pod)\<rparr> # fill_pods p pods"

definition Server_List :: "podResourcesServer \<Rightarrow> ListPodResourcesResponse res" where
  "Server_List p = Ok (fill_pods p (podsProvider p))"

section \<open>Lemmas\<close>

lemma fill_containers_map:
  "fill_containers p pod cs = map (\<lambda>c. \<lparr>cr_Name = c, cr_Devices = devicesProvider p (po_UID pod) c\<rparr>) cs"
  by (induction cs) auto

lemma fill_pods_map:
  "fill_pods p pods =
     map (\<lambda>pod. \<lparr>pr_Name = po_Name pod, pr_Namespace = po_Namespace pod,
                 pr_Containers = fill_containers p pod (po_Containers pod)\<rparr>) pods"
  by (induction pods) auto

text \<open>The ID lists that the device manager reports for a container and a resource.\<close>

definition device_ids :: "podResourcesServer \<Rightarrow> string \<Rightarrow> string \<Rightarrow> string \<Rightarrow> string list list" where
  "device_ids p res uid c = map cd_DeviceIds (filter (\<lambda>r. cd_ResourceName r = res) (devicesProvider p uid c))"

definition container_ids :: "podResourcesServer \<Rightarrow> string \<Rightarrow> (PodContainer \<times> string list list) list" where
  "container_ids p res =
     concat (map (\<lambda>pod. map (\<lambda>c. (\<lparr>pc_Namespace = po_Namespace pod, pc_Name = po_Name pod, pc_Container = c\<rparr>,
                                     device_ids p res (po_UID pod) c)) (po_Containers pod)) (podsProvider p))"

lemma holders_server: "holders res (fill_pods p (podsProvider p)) = container_ids p res"
  by (simp add: holders_def fill_pods_map fill_containers_map container_ids_def entries_of_def device_ids_def o_def)

section \<open>Properties\<close>

text \<open>
  C37: The service and the locator agree: when the device manager has given each device to at most
  one container, asking for the devices of a container, in any order, finds that container.
\<close>

theorem Locate_inverts_server:
  assumes "loc_err k = None" and "loc_client k"
    and "distinct (concat (map (concat \<circ> snd) (container_ids p (loc_resource k))))"
    and "pod \<in> set (podsProvider p)" and "c \<in> set (po_Containers pod)"
    and "mset ids = mset (concat (device_ids p (loc_resource k) (po_UID pod) c))" and "ids \<noteq> []"
    and "Server_List p = Ok response"
  shows "Locate dial (Inr response) (NewDevice ids (loc_resource k)) k =
    (Ok \<lparr>pc_Namespace = po_Namespace pod, pc_Name = po_Name pod, pc_Container = c\<rparr>, k)"
proof -
  let ?pc = "\<lparr>pc_Namespace = po_Namespace pod, pc_Name = po_Name pod, pc_Container = c\<rparr>"
  let ?es = "device_ids p (loc_resource k) (po_UID pod) c"
  have resp: "holders (loc_resource k) response = container_ids p (loc_resource k)"
    using assms(8) holders_server [of "loc_resource k" p] by (auto simp: Server_List_def)
  have "(?pc, ?es) \<in> set (holders (loc_resource k) response)"
    using assms(4,5) unfolding resp container_ids_def by auto
  moreover have "exclusive (loc_resource k) response"
    using assms(3) resp by (simp add: exclusive_def)
  moreover have "holds ids ?es" using assms(6) by (simp add: holds_def)
  ultimately show ?thesis using find_holder [OF assms(1,2)] assms(7) by blast
qed

theorem Locate_inverts_server_witness:
  "Locate None (Inr [\<lparr>pr_Name = ''train-0'', pr_Namespace = ''default'',
       pr_Containers = [\<lparr>cr_Name = ''main'', cr_Devices =
         [\<lparr>cd_ResourceName = ''elasticgpu.io/gpu-core'', cd_DeviceIds = [''0-00'']\<rparr>]\<rparr>]\<rparr>])
     (NewDevice [''0-00''] (loc_resource demo_locator)) demo_locator = (Ok demo_container, demo_locator)"
proof -
  let ?pod = "\<lparr>po_Name = ''train-0'', po_Namespace = ''default'', po_UID = ''u1'', po_Containers = [''main'']\<rparr>"
  let ?p = "NewPodResourcesServer [?pod]
      (\<lambda>uid c. [\<lparr>cd_ResourceName = ''elasticgpu.io/gpu-core'', cd_DeviceIds = [''0-00'']\<rparr>])"
  have "Locate None (Inr (fill_pods ?p [?pod])) (NewDevice [''0-00''] (loc_resource demo_locator)) demo_locator =
    (Ok \<lparr>pc_Namespace = po_Namespace ?pod, pc_Name = po_Name ?pod, pc_Container = ''main''\<rparr>, demo_locator)"
    by (rule Locate_inverts_server [of demo_locator ?p])
      (simp_all add: container_ids_def device_ids_def NewPodResourcesServer_def Server_List_def)
  then show ?thesis by (simp add: NewPodResourcesServer_def demo_container_def)
qed

end
