(* ===== verification/Go_Url.thy ===== *)
theory Go_Url
  imports Go_Strings
begin

text \<open>
  \<open>net/url\<close> of the Go standard library (1.16): escaping, \<open>URL.String\<close> of a URL that has a scheme and
  a path, and \<open>url.Parse\<close> as far as the scheme, the host and the path go.
\<close>

section \<open>Escaping\<close>

datatype url_mode = EncodePath | EncodeHost | EncodeZone | EncodeUserPassword | EncodeFragment

definition is_alnum :: "char \<Rightarrow> bool" where
  "is_alnum c \<longleftrightarrow>
     (let n = (of_char c :: nat) in 97 \<le> n \<and> n \<le> 122 \<or> 65 \<le> n \<and> n \<le> 90 \<or> 48 \<le> n \<and> n \<le> 57)"

definition shouldEscape :: "url_mode \<Rightarrow> char \<Rightarrow> bool" where
  "shouldEscape mode c =
     (if is_alnum c then False
      else if (mode = EncodeHost \<or> mode = EncodeZone) \<and> c \<in> set ''!$&()*+,;=:[]<>'' \<union> {CHR 0x27, CHR 0x22} then False
      else if c \<in> set ''-_.~'' then False
      else if c \<in> set ''$&+,/:;=?@'' \<and> mode = EncodePath then c = CHR ''?''
      else if c \<in> set ''$&+,/:;=?@'' \<and> mode = EncodeUserPassword then c \<in> set ''@/?:''
      else if c \<in> set ''$&+,/:;=?@'' \<and> mode = EncodeFragment then False
      else if mode = EncodeFragment \<and> c \<in> set ''!()*'' then False
      else True)"

definition upper_hex :: "nat \<Rightarrow> char" where
  "upper_hex n = char_of (if n < 10 then 48 + n else 55 + n)"

fun url_escape :: "url_mode \<Rightarrow> string \<Rightarrow> string" where
  "url_escape mode [] = []"
| "url_escape mode (c # s) =
     (if shouldEscape mode c
      then CHR ''%'' # upper_hex (of_char c div 16) # upper_hex (of_char c mod 16) # url_escape mode s
      else c # url_escape mode s)"

definition unhex :: "char \<Rightarrow> nat option" where
  "unhex c =
     (let n = (of_char c :: nat)
      in if 48 \<le> n \<and> n \<le> 57 then Some (n - 48)
         else if 97 \<le> n \<and> n \<le> 102 then Some (n - 87)
         else if 65 \<le> n \<and> n \<le> 70 then Some (n - 55)
         else None)"

text \<open>\<open>unescape\<close>; \<open>None\<close> is its error.\<close>

fun url_unescape :: "url_mode \<Rightarrow> string \<Rightarrow> string option" where
  "url_unescape mode [] = Some []"
| "url_unescape mode (c # s) =
     (if c = CHR ''%'' then
        (case s of
           x # y # r \<Rightarrow>
             (case (unhex x, unhex y) of
                (Some a, Some b) \<Rightarrow>
                  if mode = EncodeHost \<and> a < 8 \<and> \<not> (x = CHR ''2'' \<and> y = CHR ''5'') then None
                  else if mode = EncodeZone \<and> \<not> (x = CHR ''2'' \<and> y = CHR ''5'')
                          \<and> 16 * a + b \<noteq> 32 \<and> shouldEscape EncodeHost (char_of (16 * a + b)) then None
                  else map_option ((#) (char_of (16 * a + b))) (url_unescape mode r)
              | _ \<Rightarrow> None)
         | _ \<Rightarrow> None)
      else if (mode = EncodeHost \<or> mode = EncodeZone) \<and> (of_char c :: nat) < 128 \<and> shouldEscape mode c then None
      else map_option ((#) c) (url_unescape mode s))"

section \<open>Parsing\<close>

record URL =
  Scheme :: string
  Host :: string
  URLPath :: string

definition contains_ctl :: "string \<Rightarrow> bool" where
  "contains_ctl s \<longleftrightarrow> (\<exists>c \<in> set s. (of_char c :: nat) < 32 \<or> (of_char c :: nat) = 127)"

text \<open>
  \<open>getScheme\<close>, having read \<open>pre\<close>: \<open>None\<close> is the missing scheme, \<open>Some ([], raw)\<close> a text without one.
\<close>

fun scan_scheme :: "string \<Rightarrow> string \<Rightarrow> string \<Rightarrow> (string \<times> string) option" where
  "scan_scheme raw pre [] = Some ([], raw)"
| "scan_scheme raw pre (c # s) =
     (let n = (of_char c :: nat)
      in if 97 \<le> n \<and> n \<le> 122 \<or> 65 \<le> n \<and> n \<le> 90 then scan_scheme raw (pre @ [c]) s
         else if 48 \<le> n \<and> n \<le> 57 \<or> c \<in> set ''+-.'' then
           (if pre = [] then Some ([], raw) else scan_scheme raw (pre @ [c]) s)
         else if c = CHR '':'' then (if pre = [] then None else Some (pre, s))
         else Some ([], raw))"

definition getScheme :: "string \<Rightarrow> (string \<times> string) option" where
  "getScheme raw = scan_scheme raw [] raw"

definition to_lower :: "string \<Rightarrow> string" where
  "to_lower = map (\<lambda>c. let n = (of_char c :: nat) in if 65 \<le> n \<and> n \<le> 90 then char_of (n + 32) else c)"

text \<open>The parts of a text around the last occurrence of a character.\<close>

definition last_index :: "char \<Rightarrow> string \<Rightarrow> (string \<times> string) option" where
  "last_index c s =
     (if c \<in> set s
      then (let after = rev (takeWhile (\<lambda>x. x \<noteq> c) (rev s)) in Some (take (length s - length after - 1) s, after))
      else None)"

definition valid_optional_port :: "string \<Rightarrow> bool" where
  "valid_optional_port p \<longleftrightarrow> p = [] \<or> (hd p = CHR '':'' \<and> (\<forall>c \<in> set (tl p). is_digit c))"

text \<open>The position of the first \<open>%25\<close>.\<close>

fun find_zone :: "string \<Rightarrow> nat \<Rightarrow> nat option" where
  "find_zone [] i = None"
| "find_zone (c # s) i = (if has_prefix (c # s) ''%25'' then Some i else find_zone s (Suc i))"

definition parseHost :: "string \<Rightarrow> string option" where
  "parseHost h =
     (if has_prefix h ''['' then
        (case last_index CHR '']'' h of
           None \<Rightarrow> None
         | Some (before, after) \<Rightarrow>
             if \<not> valid_optional_port after then None
             else (case find_zone before 0 of
                     Some z \<Rightarrow>
                       (case (url_unescape EncodeHost (take z h), url_unescape EncodeZone (drop z before),
                              url_unescape EncodeHost (CHR '']'' # after)) of
                          (Some h1, Some h2, Some h3) \<Rightarrow> Some (h1 @ h2 @ h3)
                        | _ \<Rightarrow> None)
                   | None \<Rightarrow> url_unescape EncodeHost h))
      else (case last_index CHR '':'' h of
              Some (_, after) \<Rightarrow>
                if \<not> valid_optional_port (CHR '':'' # after) then None else url_unescape EncodeHost h
            | None \<Rightarrow> url_unescape EncodeHost h))"

definition validUserinfo :: "string \<Rightarrow> bool" where
  "validUserinfo s \<longleftrightarrow> (\<forall>c \<in> set s. is_alnum c \<or> c \<in> set ''-._:~!$&()*+,;=%@'' \<or> c = CHR 0x27)"

definition parseAuthority :: "string \<Rightarrow> string option" where
  "parseAuthority authority =
     (case last_index CHR ''@'' authority of
        None \<Rightarrow> parseHost authority
      | Some (userinfo, h) \<Rightarrow>
          (case parseHost h of
             None \<Rightarrow> None
           | Some host \<Rightarrow>
               if \<not> validUserinfo userinfo then None
               else if CHR '':'' \<notin> set userinfo then
                 (if url_unescape EncodeUserPassword userinfo = None then None else Some host)
               else if url_unescape EncodeUserPassword (takeWhile (\<lambda>c. c \<noteq> CHR '':'') userinfo) = None
                     \<or> url_unescape EncodeUserPassword (tl (dropWhile (\<lambda>c. c \<noteq> CHR '':'') userinfo)) = None
                 then None
               else Some host))"

text \<open>What follows the scheme, without the query: an opaque text, or an authority and a path.\<close>

definition parse_rest :: "string \<Rightarrow> string \<Rightarrow> URL option" where
  "parse_rest scheme rest =
     (if \<not> has_prefix rest ''/'' \<and> scheme \<noteq> [] then Some \<lparr>Scheme = scheme, Host = [], URLPath = []\<rparr>
      else if \<not> has_prefix rest ''/'' \<and> CHR '':'' \<in> set (takeWhile (\<lambda>c. c \<noteq> CHR ''/'') rest) then None
      else
        let slashes = ((scheme \<noteq> [] \<or> \<not> has_prefix rest ''///'') \<and> has_prefix rest ''//'');
            authority = takeWhile (\<lambda>c. c \<noteq> CHR ''/'') (drop 2 rest);
            rest' = (if slashes then dropWhile (\<lambda>c. c \<noteq> CHR ''/'') (drop 2 rest) else rest)
        in (case (if slashes then parseAuthority authority else Some []) of
              None \<Rightarrow> None
            | Some host \<Rightarrow>
                (case url_unescape EncodePath rest' of
                   None \<Rightarrow> None
                 | Some p \<Rightarrow> Some \<lparr>Scheme = scheme, Host = host, URLPath = p\<rparr>)))"

definition url_parse :: "string \<Rightarrow> URL option" where
  "url_parse raw =
     (if contains_ctl raw then None
      else if raw = ''*'' then Some \<lparr>Scheme = [], Host = [], URLPath = ''*''\<rparr>
      else (case getScheme raw of
              None \<Rightarrow> None
            | Some (scheme, rest) \<Rightarrow> parse_rest (to_lower scheme) (takeWhile (\<lambda>c. c \<noteq> CHR ''?'') rest)))"

text \<open>\<open>url.Parse\<close>: the fragment is cut off first.\<close>

definition url_Parse :: "string \<Rightarrow> URL option" where
  "url_Parse s =
     (let raw = takeWhile (\<lambda>c. c \<noteq> CHR ''#'') s;
          frag = drop (Suc (length raw)) s
      in case url_parse raw of
           None \<Rightarrow> None
         | Some u \<Rightarrow> if url_unescape EncodeFragment frag = None then None else Some u)"

text \<open>\<open>URL.String\<close> of a URL with a scheme, a path and nothing else.\<close>

definition EscapedPath :: "string \<Rightarrow> string" where
  "EscapedPath p = (if p = ''*'' then ''*'' else url_escape EncodePath p)"

definition url_String :: "string \<Rightarrow> string \<Rightarrow> string" where
  "url_String scheme p = scheme @ '':'' @ (if p \<noteq> [] then ''//'' else []) @ EscapedPath p"

section \<open>Lemmas\<close>

lemma hex_round: "n < 16 \<Longrightarrow> unhex (upper_hex n) = Some n"
  by (auto simp: unhex_def upper_hex_def Let_def)

lemma of_char_256: "(of_char c :: nat) < 256"
  using mod_less_divisor [of 256 "of_char c :: nat"] by (simp only: of_char_mod_256 zero_less_numeral)

lemma of_char_div_16 [simp]: "(of_char c :: nat) div 16 < 16"
  using of_char_256 [of c] by linarith

lemma unescape_escape: "url_unescape EncodePath (url_escape EncodePath s) = Some s"
proof (induction s)
  case (Cons c s)
  have hex: "unhex (upper_hex (of_char c div 16)) = Some (of_char c div 16)"
    "unhex (upper_hex (of_char c mod 16)) = Some (of_char c mod 16)"
    by (simp_all add: hex_round)
  show ?case
  proof (cases "shouldEscape EncodePath c")
    case True
    with Cons hex show ?thesis by simp
  next
    case False
    then have "c \<noteq> CHR ''%''" by (auto simp: shouldEscape_def is_alnum_def)
    with Cons False show ?thesis by simp
  qed
qed simp

end
