(* ===== verification/Pod_Resources_Client.thy ===== *)
theory Pod_Resources_Client
  imports Go_Url Kube_Locator
begin

text \<open>
  \<open>pkg/podresources/client.go\<close>: the endpoint of the kubelet's pod-resources service, as a URL, and
  back to the address of its socket, with which the locator connects.  \<open>grpc.DialContext\<close> is the
  environment: \<open>dial\<close> gives its error for an address.
\<close>

definition unixProtocol :: string where "unixProtocol = ''unix''"
definition PodResourceRoot :: string where "PodResourceRoot = ''/var/lib/kubelet/pod-resources''"
definition Socket :: string where "Socket = ''kubelet''"

text \<open>\<open>LocalEndpoint\<close>, whose error is always nil.\<close>

definition LocalEndpoint :: "string \<Rightarrow> string \<Rightarrow> string" where
  "LocalEndpoint p file = path_join [url_String unixProtocol p, file @ ''.sock'']"

text \<open>
  \<open>parseEndpoint\<close>: the protocol, the address and whether there is an error.  The protocol is also
  returned with the error of an unknown one.
\<close>

definition parseEndpoint :: "string \<Rightarrow> string \<times> string \<times> bool" where
  "parseEndpoint endpoint =
     (case url_Parse endpoint of
        None \<Rightarrow> ([], [], True)
      | Some u \<Rightarrow>
          if Scheme u = ''tcp'' then (''tcp'', Host u, False)
          else if Scheme u = ''unix'' then (''unix'', URLPath u, False)
          else if Scheme u = [] then ([], [], True)
          else (Scheme u, [], True))"

definition parseEndpointWithFallbackProtocol :: "string \<Rightarrow> string \<Rightarrow> string \<times> string \<times> bool" where
  "parseEndpointWithFallbackProtocol endpoint fallbackProtocol =
     (case parseEndpoint endpoint of
        (protocol, addr, failed) \<Rightarrow>
          if failed \<and> protocol = [] then parseEndpoint (fallbackProtocol @ ''://'' @ endpoint)
          else (protocol, addr, failed))"

text \<open>\<open>GetAddressAndDialer\<close>: the address; the dialer is always the one for unix sockets.\<close>

definition GetAddressAndDialer :: "string \<Rightarrow> string option" where
  "GetAddressAndDialer endpoint =
     (case parseEndpointWithFallbackProtocol endpoint unixProtocol of
        (protocol, addr, failed) \<Rightarrow>
          if failed then None
          else if protocol \<noteq> unixProtocol then None
          else Some addr)"

text \<open>\<open>GetClient\<close>: \<open>None\<close> is a client, \<open>Some\<close> the error.\<close>

definition GetClient :: "(string \<Rightarrow> err option) \<Rightarrow> string \<Rightarrow> err option" where
  "GetClient dial socket =
     (case GetAddressAndDialer socket of
        None \<Rightarrow> Some EDial
      | Some addr \<Rightarrow> (case dial addr of Some e \<Rightarrow> Some EDial | None \<Rightarrow> None))"

section \<open>Lemmas\<close>

lemma escape_append: "url_escape m (a @ b) = url_escape m a @ url_escape m b"
  by (induction a) auto

lemma slash_kept [simp]: "\<not> shouldEscape EncodePath CHR ''/''"
  by (simp add: shouldEscape_def is_alnum_def)

lemma escape_join:
  "url_escape EncodePath (join ''/'' es) = join ''/'' (map (url_escape EncodePath) es)"
  by (induction "''/'' :: string" es rule: join.induct) (simp_all add: escape_append)

text \<open>The characters an escaped text is made of.\<close>

definition path_char :: "char \<Rightarrow> bool" where
  "path_char c \<longleftrightarrow> \<not> shouldEscape EncodePath c \<or> c = CHR ''%''"

lemma upper_hex_char: "n < 16 \<Longrightarrow> is_alnum (upper_hex n)"
  by (auto simp: is_alnum_def upper_hex_def Let_def)

lemma escape_chars:
  assumes "c \<in> set (url_escape EncodePath s)"
  shows "path_char c \<and> (c = CHR ''/'' \<longrightarrow> c \<in> set s)"
  using assms
proof (induction s)
  case (Cons x s)
  have "is_alnum (upper_hex (of_char x div 16))" "is_alnum (upper_hex (of_char x mod 16))"
    by (simp_all add: upper_hex_char)
  moreover have "is_alnum y \<Longrightarrow> path_char y \<and> y \<noteq> CHR ''/''" for y
    by (auto simp: path_char_def shouldEscape_def is_alnum_def)
  ultimately show ?case
    using Cons by (auto simp: path_char_def split: if_splits)
qed simp

lemma not_path_chars [simp]:
  "\<not> path_char CHR ''#''" "\<not> path_char CHR ''?''"
  by (simp_all add: path_char_def shouldEscape_def is_alnum_def)

lemma path_char_ctl: "path_char c \<Longrightarrow> \<not> (of_char c :: nat) < 32 \<and> (of_char c :: nat) \<noteq> 127"
proof -
  assume "path_char c"
  moreover have "shouldEscape EncodePath c"
    if "\<not> is_alnum c" "c \<notin> set ''-_.~''" "c \<notin> set ''$&+,/:;=?@''"
    using that by (simp add: shouldEscape_def del: list.set)
  ultimately have "is_alnum c \<or> c \<in> set ''-_.~'' \<or> c \<in> set ''$&+,/:;=?@'' \<or> c = CHR ''%''"
    unfolding path_char_def by blast
  moreover have "\<not> (of_char c :: nat) < 32 \<and> (of_char c :: nat) \<noteq> 127"
    if "c \<in> set ''-_.~'' \<union> set ''$&+,/:;=?@'' \<union> {CHR ''%''}" for c
    using that by auto
  moreover have "is_alnum c \<Longrightarrow> \<not> (of_char c :: nat) < 32 \<and> (of_char c :: nat) \<noteq> 127"
    unfolding is_alnum_def Let_def by auto
  ultimately show ?thesis by blast
qed

lemma escape_plain: "plain_elem e \<Longrightarrow> plain_elem (url_escape EncodePath e)"
proof -
  assume e: "plain_elem e"
  have "url_escape EncodePath e = x \<Longrightarrow> url_unescape EncodePath x = Some e" for x
    using unescape_escape [of e] by auto
  from this [of "[]"] this [of "''.''"] this [of "''..''"] escape_chars [of "CHR ''/''" e] e
  show ?thesis by (auto simp: plain_elem_def)
qed


lemma split_on_join_tail:
  "es \<noteq> [] \<Longrightarrow> \<forall>e \<in> set es. c \<notin> set e \<Longrightarrow> split_on c (pre @ c # join [c] es) = split_on c pre @ es"
proof (induction pre)
  case Nil
  then show ?case by (simp add: split_on_join)
next
  case (Cons x pre)
  then show ?case
    by (cases "split_on c pre") (auto split: list.splits)
qed

lemma join_snoc: "es \<noteq> [] \<Longrightarrow> join sep (es @ [x]) = join sep es @ sep @ x"
  by (induction sep es rule: join.induct) auto

lemma join_ne: "es \<noteq> [] \<Longrightarrow> \<forall>e \<in> set es. e \<noteq> [] \<Longrightarrow> join sep es \<noteq> [] \<and> hd (join sep es) = hd (hd es)"
  by (induction sep es rule: join.induct) auto

lemma foldl_clean_url:
  assumes "\<forall>e \<in> set es. plain_elem e"
  shows "foldl (clean_step False) [] (''unix:'' # [] # [] # es) = rev (''unix:'' # es)"
proof -
  have "plain_elem ''unix:''" by (simp add: plain_elem_def)
  then show ?thesis using foldl_clean_plain [OF assms, of False] by (simp add: clean_step_def)
qed

lemma LocalEndpoint_text:
  assumes "es \<noteq> []" "\<forall>e \<in> set es. plain_elem e" "plain_elem (f @ ''.sock'')"
  shows "LocalEndpoint (CHR ''/'' # join ''/'' es) f =
    ''unix:/'' @ join ''/'' (map (url_escape EncodePath) es @ [f @ ''.sock''])"
proof -
  let ?es = "map (url_escape EncodePath) es @ [f @ ''.sock'']"
  have plain: "\<forall>e \<in> set ?es. plain_elem e" using assms(2,3) escape_plain by auto
  then have noslash: "\<forall>e \<in> set ?es. CHR ''/'' \<notin> set e" by (auto simp: plain_elem_def)
  have str: "url_String unixProtocol (CHR ''/'' # join ''/'' es) =
      ''unix://'' @ CHR ''/'' # join ''/'' (map (url_escape EncodePath) es)"
    by (simp add: url_String_def unixProtocol_def EscapedPath_def escape_join)
  have joined: "join ''/'' [url_String unixProtocol (CHR ''/'' # join ''/'' es), f @ ''.sock''] =
      ''unix://'' @ CHR ''/'' # join ''/'' ?es"
    using assms(1) by (simp add: str join_snoc)
  have "split_on CHR ''/'' (''unix://'' @ CHR ''/'' # join ''/'' ?es) = ''unix:'' # [] # [] # ?es"
    using split_on_join_tail [OF _ noslash, of "''unix://''"] by simp
  then have "foldl (clean_step False) [] (split_on CHR ''/'' (''unix://'' @ CHR ''/'' # join ''/'' ?es)) = rev (''unix:'' # ?es)"
    using foldl_clean_url [OF plain] by simp
  moreover have "join ''/'' (''unix:'' # ?es) = ''unix:/'' @ join ''/'' ?es" by (cases ?es) simp_all
  ultimately have "path_clean (''unix://'' @ CHR ''/'' # join ''/'' ?es) = ''unix:/'' @ join ''/'' ?es"
    unfolding path_clean_def Let_def by (simp del: foldl_append split_on.simps rev.simps rev_append join.simps)
  then show ?thesis
    using joined str by (simp add: LocalEndpoint_def path_join_def)
qed

lemma takeWhile_all: "\<forall>c \<in> set s. P c \<Longrightarrow> takeWhile P s = s"
  by (simp add: takeWhile_eq_all_conv)

lemma Parse_unix:
  assumes "\<forall>c \<in> set r. path_char c" "r \<noteq> []" "hd r \<noteq> CHR ''/''"
    and "url_unescape EncodePath (CHR ''/'' # r) = Some p"
  shows "url_Parse (''unix:/'' @ r) = Some \<lparr>Scheme = ''unix'', Host = [], URLPath = p\<rparr>"
proof -
  let ?s = "''unix:/'' @ r"
  have "CHR ''#'' \<notin> set r" "CHR ''?'' \<notin> set r" using assms(1) not_path_chars by blast+
  then have hash: "takeWhile (\<lambda>c. c \<noteq> CHR ''#'') ?s = ?s"
    and query: "takeWhile (\<lambda>c. c \<noteq> CHR ''?'') r = r"
    by (auto intro!: takeWhile_all)
  have "\<not> has_prefix (CHR ''/'' # r) ''//''" using assms(2,3) by (cases r) auto
  then have rest: "parse_rest ''unix'' (CHR ''/'' # r) = Some \<lparr>Scheme = ''unix'', Host = [], URLPath = p\<rparr>"
    using assms(4) by (simp add: parse_rest_def del: url_unescape.simps)
  have "\<not> contains_ctl ?s" using assms(1) path_char_ctl by (auto simp: contains_ctl_def)
  moreover have "getScheme ?s = Some (''unix'', CHR ''/'' # r)" by (simp add: getScheme_def)
  moreover have "to_lower ''unix'' = ''unix''" by code_simp
  ultimately have "url_parse ?s = Some \<lparr>Scheme = ''unix'', Host = [], URLPath = p\<rparr>"
    unfolding url_parse_def using query rest by (simp add: takeWhile_all)
  then show ?thesis unfolding url_Parse_def Let_def hash by simp
qed

lemma sock_kept: "\<forall>c \<in> set ''.sock''. \<not> shouldEscape EncodePath c"
  by code_simp

lemma path_char_unescape_join:
  assumes "es \<noteq> []" "\<forall>c \<in> set f. \<not> shouldEscape EncodePath c"
  shows "url_unescape EncodePath (CHR ''/'' # join ''/'' (map (url_escape EncodePath) es @ [f @ ''.sock''])) =
    Some (CHR ''/'' # join ''/'' (es @ [f @ ''.sock'']))"
proof -
  have keep: "\<forall>c \<in> set s. \<not> shouldEscape EncodePath c \<Longrightarrow> url_escape EncodePath s = s" for s
    by (induction s) auto
  have "\<not> shouldEscape EncodePath c" if "c \<in> set (f @ ''.sock'')" for c
    using that assms(2) sock_kept by (simp only: set_append Un_iff) blast
  then have "f @ ''.sock'' = url_escape EncodePath (f @ ''.sock'')" using keep by metis
  then have "map (url_escape EncodePath) es @ [f @ ''.sock''] = map (url_escape EncodePath) (es @ [f @ ''.sock''])"
    by simp
  then have "CHR ''/'' # join ''/'' (map (url_escape EncodePath) es @ [f @ ''.sock'']) =
      url_escape EncodePath (CHR ''/'' # join ''/'' (es @ [f @ ''.sock'']))"
    by (simp add: escape_join)
  then show ?thesis by (simp only: unescape_escape)
qed

lemma endpoint_address:
  assumes "es \<noteq> []" "\<forall>e \<in> set es. plain_elem e"
    and "CHR ''/'' \<notin> set f" "\<forall>c \<in> set f. \<not> shouldEscape EncodePath c"
  shows "GetAddressAndDialer (LocalEndpoint (CHR ''/'' # join ''/'' es) f) =
    Some (CHR ''/'' # join ''/'' (es @ [f @ ''.sock'']))"
proof -
  let ?es = "map (url_escape EncodePath) es @ [f @ ''.sock'']" and ?r = "join ''/'' (map (url_escape EncodePath) es @ [f @ ''.sock''])"
  have sock: "plain_elem (f @ ''.sock'')" using assms(3) by (cases f) (auto simp: plain_elem_def)
  have plain: "\<forall>e \<in> set ?es. plain_elem e" using assms(2) sock escape_plain by auto
  have "set ?r \<subseteq> {CHR ''/''} \<union> (\<Union>e \<in> set ?es. set e)"
  proof -
    have "set (join ''/'' xs) \<subseteq> {CHR ''/''} \<union> (\<Union>e \<in> set xs. set e)" for xs
      by (induction "''/'' :: string" xs rule: join.induct) auto
    then show ?thesis .
  qed
  moreover have "path_char c" if "c \<in> set (f @ ''.sock'')" for c
    using that assms(4) sock_kept unfolding path_char_def by (simp only: set_append Un_iff) blast
  moreover have "path_char CHR ''/''" by (simp add: path_char_def)
  ultimately have chars: "\<forall>c \<in> set ?r. path_char c" using escape_chars by (auto dest!: subsetD)
  have "?r \<noteq> [] \<and> hd ?r = hd (hd ?es)" using plain by (intro join_ne) (auto simp: plain_elem_def)
  moreover have "hd e \<noteq> CHR ''/''" if "plain_elem e" for e
    using that by (cases e) (auto simp: plain_elem_def)
  ultimately have first: "?r \<noteq> []" "hd ?r \<noteq> CHR ''/''" using plain by (metis append_is_Nil_conv list.set_sel(1) not_Cons_self2)+
  have "url_Parse (LocalEndpoint (CHR ''/'' # join ''/'' es) f) =
      Some \<lparr>Scheme = ''unix'', Host = [], URLPath = CHR ''/'' # join ''/'' (es @ [f @ ''.sock''])\<rparr>"
    unfolding LocalEndpoint_text [OF assms(1,2) sock]
    by (rule Parse_unix [OF chars first path_char_unescape_join [OF assms(1,4)]])
  then show ?thesis
    by (simp add: GetAddressAndDialer_def parseEndpointWithFallbackProtocol_def parseEndpoint_def unixProtocol_def)
qed


lemma locator_address:
  "GetAddressAndDialer (LocalEndpoint PodResourceRoot Socket) = Some ''/var/lib/kubelet/pod-resources/kubelet.sock''"
  by code_simp

section \<open>Properties\<close>

text \<open>
  C38: An endpoint leads back to its socket: for a clean absolute directory of any bytes (escaped in
  the URL and cleaned as a path on the way) and a file name that needs no escape, the address the
  client dials is that file in that directory; the locator's client dials the kubelet's socket.
\<close>

theorem endpoint_roundtrip:
  assumes "es \<noteq> []" and "\<forall>e \<in> set es. plain_elem e"
    and "CHR ''/'' \<notin> set f" and "\<forall>c \<in> set f. \<not> shouldEscape EncodePath c"
  shows "GetAddressAndDialer (LocalEndpoint (CHR ''/'' # join ''/'' es) f) =
      Some (CHR ''/'' # join ''/'' (es @ [f @ ''.sock'']))
    \<and> (GetClient dial (LocalEndpoint PodResourceRoot Socket) = None \<longleftrightarrow>
         dial ''/var/lib/kubelet/pod-resources/kubelet.sock'' = None)"
  using endpoint_address [OF assms]
  by (simp add: GetClient_def locator_address split: option.split)

theorem endpoint_roundtrip_witness:
  "GetAddressAndDialer (LocalEndpoint ''/run/my pods/100%?'' ''kubelet'') = Some ''/run/my pods/100%?/kubelet.sock''"
proof -
  have "\<forall>c \<in> set ''kubelet''. \<not> shouldEscape EncodePath c" by code_simp
  then show ?thesis
    using endpoint_roundtrip [of "[''run'', ''my pods'', ''100%?'']" "''kubelet''"] by (simp add: plain_elem_def)
qed

end
