(* ===== verification/Prestart_Hook.thy ===== *)
theory Prestart_Hook
  imports Gpu_Operator Go_Json
begin

text \<open>
  The OCI prestart hook, \<open>cmd/elastic-gpu-hook/main.go\<close>: from the \<open>GPU\<close> variable of a container to
  the numbers of the cards its links point to, which it hands to the NVIDIA toolkit.  What the
  hook reads (standard input, the OCI specification, the directories) and the toolkit it starts
  are the environment.  \<open>log.Fatal\<close>, \<open>log.Panicln\<close> and an index out of range end the process: \<open>Panic\<close>.
\<close>

section \<open>The OCI specification\<close>

text \<open>The fields of \<open>specs.Spec\<close> the hook reads; a nil pointer is \<open>None\<close>.\<close>

record oci_spec =
  sp_Version :: string
  sp_Process :: "string list option"  \<comment> \<open>the environment of the process\<close>
  sp_Root :: "string option"

text \<open>\<open>loadSpec\<close>: \<open>Inl\<close> is a file that cannot be opened or decoded.\<close>

definition loadSpec :: "(string \<Rightarrow> err + oci_spec) \<Rightarrow> string \<Rightarrow> oci_spec res" where
  "loadSpec disk p =
     (case disk p of
        Inl e \<Rightarrow> Panic
      | Inr sp \<Rightarrow>
          if sp_Version sp = [] then Fail ESpecVersion
          else if sp_Process sp = None then Fail ESpecProcess
          else if sp_Root sp = None then Fail ESpecRoot
          else Ok sp)"

text \<open>\<open>strings.Index\<close> of a one-byte text.\<close>

fun index_from :: "nat \<Rightarrow> char \<Rightarrow> string \<Rightarrow> nat option" where
  "index_from i c [] = None"
| "index_from i c (x # xs) = (if x = c then Some i else index_from (Suc i) c xs)"

fun env_loop :: "string \<Rightarrow> string list \<Rightarrow> string" where
  "env_loop envName [] = []"
| "env_loop envName (env # envs) =
     (if has_prefix env envName then
        (case index_from 0 CHR ''='' env of
           Some idx \<Rightarrow> drop (idx + 1) env
         | None \<Rightarrow> env_loop envName envs)
      else env_loop envName envs)"

definition getEnvFromSpec :: "string \<Rightarrow> string list \<Rightarrow> string" where
  "getEnvFromSpec envName envs = env_loop (envName @ ''='') envs"

section \<open>The minors of the cards\<close>

text \<open>\<open>strings.Trim\<close> with a set of bytes.\<close>

definition trim :: "string \<Rightarrow> string \<Rightarrow> string" where
  "trim cutset s = rev (dropWhile (\<lambda>c. c \<in> set cutset) (rev (dropWhile (\<lambda>c. c \<in> set cutset) s)))"

text \<open>The lines of one information file; \<open>None\<close> when a minor is not a number.\<close>

fun minor_lines :: "string list \<Rightarrow> (nat, int) amap \<Rightarrow> nat \<Rightarrow> ((nat, int) amap \<times> nat) option" where
  "minor_lines [] m gpuIndex = Some (m, gpuIndex)"
| "minor_lines (line # ls) m gpuIndex =
     (if has_prefix line ''Device Minor:'' then
        (case atoi (trim [CHR 0x09, CHR '' ''] (split_on CHR '':'' line ! 1)) of
           None \<Rightarrow> None
         | Some minor \<Rightarrow> minor_lines ls (amap_put gpuIndex minor m) (gpuIndex + 1))
      else minor_lines ls m gpuIndex)"

text \<open>The loop over the directory; a file that cannot be opened has no lines.\<close>

fun minor_files :: "(string \<Rightarrow> string list option) \<Rightarrow> string list \<Rightarrow> (nat, int) amap \<Rightarrow> nat \<Rightarrow> (nat, int) amap option" where
  "minor_files info [] m gpuIndex = Some m"
| "minor_files info (f # fs) m gpuIndex =
     (case minor_lines (case info (path_join [''/proc/driver/nvidia/gpus/'', f, ''information'']) of
                          None \<Rightarrow> [] | Some ls \<Rightarrow> ls) m gpuIndex of
        None \<Rightarrow> None
      | Some (m, gpuIndex) \<Rightarrow> minor_files info fs m gpuIndex)"

text \<open>A nil map is \<open>None\<close>.\<close>

definition getNVidiaDevMinorAndIndexMapping ::
  "err + string list \<Rightarrow> (string \<Rightarrow> string list option) \<Rightarrow> (nat, int) amap option"
where
  "getNVidiaDevMinorAndIndexMapping listing info =
     (case listing of Inl e \<Rightarrow> None | Inr files \<Rightarrow> minor_files info files [] 0)"

section \<open>The cards behind the links\<close>

definition getGPUIndex :: "host_fs \<Rightarrow> string \<Rightarrow> int res" where
  "getGPUIndex fs file =
     (case os_Readlink fs file of
        Inl e \<Rightarrow> Panic
      | Inr nvidiaPath \<Rightarrow>
          (let parts = split_on CHR ''/'' nvidiaPath
           in if length parts \<le> 2 then Panic
              else if length (parts ! 2) < 6 then Panic
              else (case atoi (drop 6 (parts ! 2)) of
                      None \<Rightarrow> Fail (ENotIndex (drop 6 (parts ! 2)))
                    | Some i \<Rightarrow> Ok i)))"

definition isGpuSymlink :: "string \<Rightarrow> string \<times> node \<Rightarrow> bool" where
  "isGpuSymlink gpu f \<longleftrightarrow>
     (case snd f of Symlink _ \<Rightarrow> True | _ \<Rightarrow> False) \<and> has_prefix (fst f) (''elastic-gpu-'' @ gpu)"

text \<open>The loop over the entries; a target without a number is skipped.\<close>

fun index_loop :: "host_fs \<Rightarrow> string \<Rightarrow> (string \<times> node) list \<Rightarrow> int list \<Rightarrow> int list res" where
  "index_loop fs gpu [] gpuIndexes = Ok gpuIndexes"
| "index_loop fs gpu (f # rest) gpuIndexes =
     (if isGpuSymlink gpu f then
        (case getGPUIndex fs (''/dev'' @ ''/'' @ fst f) of
           Panic \<Rightarrow> Panic
         | Fail _ \<Rightarrow> index_loop fs gpu rest gpuIndexes
         | Ok i \<Rightarrow> index_loop fs gpu rest (gpuIndexes @ [i]))
      else index_loop fs gpu rest gpuIndexes)"

definition findGPUIndexes :: "host_fs \<Rightarrow> string \<Rightarrow> int list res" where
  "findGPUIndexes fs gpu =
     (case os_ReadDir fs ''/dev'' of
        Inl e \<Rightarrow> Fail (EOs e)
      | Inr devFiles \<Rightarrow> index_loop fs gpu devFiles [])"

section \<open>Starting the toolkit\<close>

definition prestart_argv :: "int list \<Rightarrow> string list" where
  "prestart_argv gpuIndexes =
     (if length gpuIndexes > 0
      then [''/usr/bin/nvidia-container-toolkit'', ''prestart'', join '','' (map itoa gpuIndexes)]
      else [''/usr/bin/nvidia-container-toolkit'', ''prestart''])"

record hook_env =
  he_log :: "err option"                        \<comment> \<open>opening the log file\<close>
  he_stdin :: "err + string"
  he_state :: "string \<Rightarrow> (string \<times> json) list"  \<comment> \<open>what the decoder puts in the map, its error is ignored\<close>
  he_spec :: "string \<Rightarrow> err + oci_spec"
  he_fs :: host_fs
  he_toolkit :: "string list \<Rightarrow> string \<Rightarrow> err option"

text \<open>
  The outcome of a run: whether the process dies, and the command it ran with its input.
\<close>

datatype hook_end = HookReturns | HookDies

type_synonym hook_run = "hook_end \<times> (string list \<times> string) list"

definition doPreStart :: "hook_env \<Rightarrow> int list \<Rightarrow> string \<Rightarrow> err option \<times> (string list \<times> string) list" where
  "doPreStart env gpuIndexes hookSpecBuf =
     (he_toolkit env (prestart_argv gpuIndexes) hookSpecBuf, [(prestart_argv gpuIndexes, hookSpecBuf)])"

definition hook_main :: "hook_env \<Rightarrow> hook_run" where
  "hook_main env =
     (if he_log env \<noteq> None then (HookDies, [])
      else case he_stdin env of
             Inl e \<Rightarrow> (HookReturns, [])
           | Inr hookSpecBuf \<Rightarrow>
               (case map_of (he_state env hookSpecBuf) ''bundle'' of
                  Some (JStr bundle) \<Rightarrow>
                    (case loadSpec (he_spec env) (path_join [bundle, ''config.json'']) of
                       Panic \<Rightarrow> (HookDies, [])
                     | Fail e \<Rightarrow> (HookReturns, [])
                     | Ok containerSpec \<Rightarrow>
                         (let gpu = getEnvFromSpec ''GPU'' (the (sp_Process containerSpec))
                          in if gpu = [] then (HookReturns, snd (doPreStart env [] hookSpecBuf))
                             else (case findGPUIndexes (he_fs env) gpu of
                                     Panic \<Rightarrow> (HookDies, [])
                                   | Fail e \<Rightarrow> (HookReturns, [])
                                   | Ok gpuIndexes \<Rightarrow>
                                       (HookReturns, snd (doPreStart env gpuIndexes hookSpecBuf)))))
                | _ \<Rightarrow> (HookReturns, [])))"

section \<open>Lemmas\<close>

lemma index_loop_ok:
  "\<forall>f \<in> set es. isGpuSymlink gpu f \<longrightarrow> getGPUIndex fs (''/dev/'' @ fst f) = Ok (g (fst f)) \<Longrightarrow>
   index_loop fs gpu es acc = Ok (acc @ map (g \<circ> fst) (filter (isGpuSymlink gpu) es))"
  by (induction es arbitrary: acc) auto

definition link_name :: "string \<Rightarrow> nat \<Rightarrow> string" where
  "link_name gpu k = ''elastic-gpu-'' @ gpu @ ''-'' @ nat_dec k"

definition gpu_links :: "host_fs \<Rightarrow> string \<Rightarrow> int list \<Rightarrow> bool" where
  "gpu_links fs gpu gs \<longleftrightarrow>
     (\<forall>r t. has_prefix r (''elastic-gpu-'' @ gpu) \<longrightarrow> CHR ''/'' \<notin> set r \<longrightarrow>
        (node_at fs (''/dev/'' @ r) = Some (Symlink t) \<longleftrightarrow>
          (\<exists>k < length gs. r = link_name gpu k \<and> t = gpu_node (gs ! k))))"

lemma getGPUIndex_node:
  assumes "os_Readlink fs p = Inr (gpu_node i)" "- (2 ^ 63) \<le> i" "i < 2 ^ 63"
  shows "getGPUIndex fs p = Ok i"
proof -
  have "split_on CHR ''/'' (gpu_node i) = [[], ''dev'', ''nvidia'' @ itoa i]"
    using split_on_append [of "CHR ''/''" "[]" "''dev/nvidia'' @ itoa i"]
      split_on_append [of "CHR ''/''" "''dev''" "''nvidia'' @ itoa i"]
      split_on_fresh [of "CHR ''/''" "''nvidia'' @ itoa i"]
    by (simp add: gpu_node_def)
  then show ?thesis
    using assms atoi_itoa [of i] by (simp add: getGPUIndex_def)
qed

lemma link_name_inj [simp]: "link_name gpu j = link_name gpu k \<longleftrightarrow> j = k"
  by (simp add: link_name_def)

lemma link_name_prefix [simp]: "has_prefix (link_name gpu k) (''elastic-gpu-'' @ gpu)"
  unfolding has_prefix_iff link_name_def by auto

text \<open>The order of the directory: the order of the decimal texts, which is that of the numbers below ten.\<close>

lemma sorted_link_names:
  assumes "sorted (map fst es)" "distinct (map fst es)" "fst ` set es = link_name gpu ` {..<n}"
  shows "map fst es = map (link_name gpu) (sort_key nat_dec [0..<n])"
proof (rule sorted_distinct_set_unique)
  have "(link_name gpu j \<le> link_name gpu k) = (nat_dec j \<le> nat_dec k)" for j k
    by (simp add: link_name_def) (induction gpu, auto)
  then show "sorted (map (link_name gpu) (sort_key nat_dec [0..<n]))"
    using sorted_sort_key [of nat_dec "[0..<n]"] by (simp add: sorted_map)
  show "distinct (map (link_name gpu) (sort_key nat_dec [0..<n]))"
    by (simp add: distinct_map inj_on_def)
qed (use assms in \<open>auto simp: atLeast0LessThan\<close>)

lemma sort_digits: "n \<le> 10 \<Longrightarrow> sort_key nat_dec [0..<n] = [0..<n]"
proof -
  assume n: "n \<le> 10"
  have "nat_dec i \<le> nat_dec j" if "i \<le> j" "j < 10" for i j
    using that by (cases "i = j") (auto simp: nat_dec.simps [of i] nat_dec.simps [of j] less_eq_char_def less_char_def of_char_digit_char)
  with n have "sorted (map nat_dec [0..<n])" by (auto simp: sorted_iff_nth_mono)
  then show ?thesis by (simp add: sort_key_id_if_sorted)
qed

lemma findGPUIndexes_links:
  assumes "fs_ok fs" "fault fs OpReadDir ''/dev'' = None" "fault fs OpReadlink = (\<lambda>p. None)"
    and "gpu_links fs gpu gs" "CHR ''/'' \<notin> set gpu" "\<forall>g \<in> set gs. - (2 ^ 63) \<le> g \<and> g < 2 ^ 63"
  shows "findGPUIndexes fs gpu = Ok (map ((!) gs) (sort_key nat_dec [0..<length gs]))"
proof -
  let ?names = "sort_key nat_dec [0..<length gs]"
  obtain es where es: "os_ReadDir fs ''/dev'' = Inr es" "sorted (map fst es)" "distinct (map fst es)"
      "\<And>r n. (r, n) \<in> set es \<longleftrightarrow> r \<noteq> [] \<and> CHR ''/'' \<notin> set r \<and> node_at fs (''/dev'' @ ''/'' @ r) = Some n"
    using os_ReadDir_entries [OF assms(1,2)] by blast
  let ?ls = "filter (isGpuSymlink gpu) es"
  have name: "CHR ''/'' \<notin> set (link_name gpu k)" for k
    using assms(5) by (auto simp: link_name_def)
  have mem: "(r, Symlink t) \<in> set ?ls \<longleftrightarrow> (\<exists>k < length gs. r = link_name gpu k \<and> t = gpu_node (gs ! k))" for r t
  proof -
    have "(r, Symlink t) \<in> set ?ls \<longleftrightarrow> has_prefix r (''elastic-gpu-'' @ gpu) \<and> CHR ''/'' \<notin> set r
        \<and> node_at fs (''/dev/'' @ r) = Some (Symlink t)"
      using es(4) [of r "Symlink t"] by (auto simp: isGpuSymlink_def)
    also have "\<dots> \<longleftrightarrow> has_prefix r (''elastic-gpu-'' @ gpu) \<and> CHR ''/'' \<notin> set r
        \<and> (\<exists>k < length gs. r = link_name gpu k \<and> t = gpu_node (gs ! k))"
      using assms(4) unfolding gpu_links_def by blast
    also have "\<dots> \<longleftrightarrow> (\<exists>k < length gs. r = link_name gpu k \<and> t = gpu_node (gs ! k))"
      using name link_name_prefix by blast
    finally show ?thesis .
  qed
  have link: "\<exists>t. snd f = Symlink t" if "f \<in> set ?ls" for f
    using that by (auto simp: isGpuSymlink_def split: node.splits)
  have "fst ` set ?ls = link_name gpu ` {..<length gs}"
  proof (intro equalityI subsetI)
    fix r assume "r \<in> fst ` set ?ls"
    then obtain n where rn: "(r, n) \<in> set ?ls" by (metis imageE surjective_pairing)
    with link [OF rn] mem [of r] show "r \<in> link_name gpu ` {..<length gs}" by auto
  next
    fix r assume "r \<in> link_name gpu ` {..<length gs}"
    then obtain k where "k < length gs" "r = link_name gpu k" by auto
    then have "(r, Symlink (gpu_node (gs ! k))) \<in> set ?ls" unfolding mem by blast
    then show "r \<in> fst ` set ?ls" by (metis fst_conv image_eqI)
  qed
  moreover have "sorted (map fst ?ls)" "distinct (map fst ?ls)"
    using es(2,3) by (simp_all add: sorted_filter distinct_map_filter)
  ultimately have names: "map fst ?ls = map (link_name gpu) ?names"
    by (rule sorted_link_names [rotated -1])
  obtain g where g: "\<And>k. g (link_name gpu k) = gs ! k"
    using that [of "\<lambda>r. gs ! (THE k. r = link_name gpu k)"] by simp
  have "getGPUIndex fs (''/dev/'' @ fst f) = Ok (g (fst f))" if f: "f \<in> set ?ls" for f
  proof -
    obtain k where k: "k < length gs" "f = (link_name gpu k, Symlink (gpu_node (gs ! k)))"
    proof -
      obtain t where t: "snd f = Symlink t" using link [OF f] by blast
      then have "(fst f, Symlink t) \<in> set ?ls" using f by (metis surjective_pairing)
      then obtain k where "k < length gs" "fst f = link_name gpu k" "t = gpu_node (gs ! k)" using mem by blast
      with t that show ?thesis by (metis surjective_pairing)
    qed
    then have "node_at fs (''/dev/'' @ fst f) = Some (Symlink (gpu_node (gs ! k)))"
      using f es(4) [of "fst f" "snd f"] by simp
    then have "os_Readlink fs (''/dev/'' @ fst f) = Inr (gpu_node (gs ! k))"
      using assms(3) by (simp add: os_Readlink_def)
    with k assms(6) show ?thesis by (simp add: getGPUIndex_node g)
  qed
  then have "index_loop fs gpu es [] = Ok (map (g \<circ> fst) ?ls)"
    using index_loop_ok [of es gpu fs g "[]"] by simp
  also have "map (g \<circ> fst) ?ls = map g (map fst ?ls)" by simp
  also have "\<dots> = map ((!) gs) ?names" by (simp only: names map_map) (simp add: o_def g)
  finally show ?thesis by (simp add: findGPUIndexes_def es(1))
qed

lemma index_from_fresh: "c \<notin> set k \<Longrightarrow> index_from i c (k @ c # v) = Some (i + length k)"
  by (induction k arbitrary: i) auto

lemma prefix_entry:
  assumes "CHR ''='' \<notin> set k" "CHR ''='' \<notin> set name"
  shows "has_prefix (k @ ''='' @ v) (name @ ''='') \<longleftrightarrow> k = name"
proof
  assume "has_prefix (k @ ''='' @ v) (name @ ''='')"
  then obtain r where "k @ CHR ''='' # v = name @ CHR ''='' # r" by (auto simp: has_prefix_iff)
  then have "split_on CHR ''='' (k @ CHR ''='' # v) = split_on CHR ''='' (name @ CHR ''='' # r)" by simp
  with assms show "k = name" by (simp add: split_on_append)
qed (simp add: has_prefix_iff)

definition env_text :: "string \<times> string \<Rightarrow> string" where
  "env_text kv = fst kv @ ''='' @ snd kv"

lemma getEnv_map_of:
  assumes "CHR ''='' \<notin> set name" "\<forall>kv \<in> set kvs. CHR ''='' \<notin> set (fst kv)"
  shows "getEnvFromSpec name (map env_text kvs) = (case map_of kvs name of None \<Rightarrow> [] | Some v \<Rightarrow> v)"
  using assms(2)
proof (induction kvs)
  case (Cons kv kvs)
  obtain k v where kv: "kv = (k, v)" by force
  have "has_prefix (env_text kv) (name @ ''='') \<longleftrightarrow> k = name"
    using prefix_entry [of k name v] assms(1) Cons.prems by (simp add: env_text_def kv)
  with Cons show ?case
    using index_from_fresh [of "CHR ''=''" k 0 v] by (auto simp: getEnvFromSpec_def env_text_def kv)
qed (simp add: getEnvFromSpec_def)

text \<open>The texts that the files give for the minors, in the order of the files and their lines.\<close>

definition minor_texts :: "string list \<Rightarrow> string list" where
  "minor_texts ls =
     map (\<lambda>l. trim [CHR 0x09, CHR '' ''] (split_on CHR '':'' l ! 1)) (filter (\<lambda>l. has_prefix l ''Device Minor:'') ls)"

definition info_lines :: "(string \<Rightarrow> string list option) \<Rightarrow> string \<Rightarrow> string list" where
  "info_lines info f =
     (case info (path_join [''/proc/driver/nvidia/gpus/'', f, ''information'']) of None \<Rightarrow> [] | Some ls \<Rightarrow> ls)"

text \<open>Numbering a list from \<open>n\<close>.\<close>

definition numbered :: "nat \<Rightarrow> string list \<Rightarrow> (nat, int) amap option" where
  "numbered n ts = (if \<forall>t \<in> set ts. atoi t \<noteq> None then Some (enumerate n (map (the \<circ> atoi) ts)) else None)"

lemma enumerate_bound: "q \<in> set (enumerate n xs) \<Longrightarrow> n \<le> fst q"
  by (auto simp: in_set_enumerate_eq)

lemma minor_lines_numbered:
  "(\<forall>q \<in> set m. fst q < i) \<Longrightarrow>
   minor_lines ls m i =
     (case numbered i (minor_texts ls) of None \<Rightarrow> None | Some a \<Rightarrow> Some (m @ a, i + length (minor_texts ls)))"
proof (induction ls arbitrary: m i)
  case (Cons l ls)
  let ?t = "trim [CHR 0x09, CHR '' ''] (split_on CHR '':'' l ! 1)"
  show ?case
  proof (cases "has_prefix l ''Device Minor:''")
    case True
    show ?thesis
    proof (cases "atoi ?t")
      case None
      with True show ?thesis by (simp add: minor_texts_def numbered_def)
    next
      case (Some v)
      have "\<forall>q \<in> set (m @ [(i, v)]). fst q < Suc i" using Cons.prems by auto
      from Cons.IH [OF this] True Some Cons.prems show ?thesis
        by (simp add: minor_texts_def numbered_def amap_put_last)
    qed
  next
    case False
    then have "minor_texts (l # ls) = minor_texts ls" by (simp add: minor_texts_def)
    with Cons False show ?thesis by (simp cong: option.case_cong)
  qed
qed (simp add: minor_texts_def numbered_def)

lemma numbered_append:
  "numbered n (a @ b) =
     (case numbered n a of None \<Rightarrow> None
      | Some m \<Rightarrow> (case numbered (n + length a) b of None \<Rightarrow> None | Some m' \<Rightarrow> Some (m @ m')))"
  by (auto simp: numbered_def enumerate_append_eq)

lemma minor_files_numbered:
  "(\<forall>q \<in> set m. fst q < i) \<Longrightarrow>
   minor_files info fs m i =
     map_option ((@) m) (numbered i (concat (map (minor_texts \<circ> info_lines info) fs)))"
proof (induction fs arbitrary: m i)
  case (Cons f fs)
  show ?case
  proof (cases "numbered i (minor_texts (info_lines info f))")
    case None
    with Cons.prems show ?thesis
      by (simp add: minor_lines_numbered numbered_append flip: info_lines_def)
  next
    case (Some a)
    then have "\<forall>q \<in> set (m @ a). fst q < i + length (minor_texts (info_lines info f))"
      using Cons.prems by (auto simp: numbered_def in_set_enumerate_eq split: if_splits)
    from Cons.IH [OF this] Cons.prems Some show ?thesis
      by (simp add: minor_lines_numbered numbered_append flip: info_lines_def split: option.split)
  qed
qed (simp add: numbered_def)

text \<open>A host with the link of one card, for the instances of the properties.\<close>

definition demo_links :: host_fs where
  "demo_links = \<lparr>nodes = [(''/dev/elastic-gpu-ab-0'', Symlink ''/dev/nvidia1''), (''/dev/nvidia1'', DevNode)],
     fault = (\<lambda>oper p. None)\<rparr>"

definition demo_hook :: hook_env where
  "demo_hook = \<lparr>he_log = None, he_stdin = Inr ''{}'', he_state = (\<lambda>_. [(''bundle'', JStr ''/run/b'')]),
     he_spec = (\<lambda>_. Inr \<lparr>sp_Version = ''1.0.2'', sp_Process = Some [''PATH=/bin'', ''GPU=ab''], sp_Root = Some ''rootfs''\<rparr>),
     he_fs = demo_links, he_toolkit = (\<lambda>argv inp. None)\<rparr>"

lemma demo_links_ok: "fs_ok demo_links" "gpu_links demo_links ''ab'' [1]"
proof -
  show "fs_ok demo_links" unfolding fs_ok_def demo_links_def by code_simp
  have "gpu_node 1 = ''/dev/nvidia1''" "link_name ''ab'' 0 = ''elastic-gpu-ab-0''" by code_simp+
  then show "gpu_links demo_links ''ab'' [1]"
    by (auto simp: gpu_links_def demo_links_def node_at_def)
qed

section \<open>Properties\<close>

text \<open>
  The hook reads the environment of a container as a map: it finds the value of the first
  entry of the name and the empty text when there is none, and is not misled by names that
  start alike or by \<open>=\<close> in the values.
\<close>

lemma getEnvFromSpec_lookup:
  assumes "CHR ''='' \<notin> set name" and "\<forall>kv \<in> set kvs. CHR ''='' \<notin> set (fst kv)"
  shows "getEnvFromSpec name (map env_text kvs) = (case map_of kvs name of None \<Rightarrow> [] | Some v \<Rightarrow> v)"
  using assms by (rule getEnv_map_of)

text \<open>
  C33: When the links named after \<open>gpu\<close> are those of the cards \<open>gs\<close>, the hook finds these cards and
  no other, each once, in the order of the decimal texts of the link indexes; up to ten cards
  this is the order the scheduler gave them in.
\<close>

theorem findGPUIndexes_cards:
  assumes "fs_ok fs" and "fault fs OpReadDir ''/dev'' = None" and "fault fs OpReadlink = (\<lambda>p. None)"
    and "gpu_links fs gpu gs" and "CHR ''/'' \<notin> set gpu"
    and "\<forall>g \<in> set gs. - (2 ^ 63) \<le> g \<and> g < 2 ^ 63"
  shows "findGPUIndexes fs gpu = Ok (map ((!) gs) (sort_key nat_dec [0..<length gs]))
    \<and> (length gs \<le> 10 \<longrightarrow> findGPUIndexes fs gpu = Ok gs)"
  using findGPUIndexes_links [OF assms] by (simp add: sort_digits map_nth)

theorem findGPUIndexes_cards_witness: "findGPUIndexes demo_links ''ab'' = Ok [1]"
  using findGPUIndexes_cards [OF demo_links_ok(1) _ _ demo_links_ok(2)] by (simp add: demo_links_def)

text \<open>
  The table of the minors numbers the \<open>Device Minor\<close> lines of all information files from 0 on,
  in the order of the files; it is nil exactly when the directory cannot be read or one of
  these lines has no number.
\<close>

lemma minor_mapping_numbers:
  "getNVidiaDevMinorAndIndexMapping (Inl e) info = None
   \<and> getNVidiaDevMinorAndIndexMapping (Inr files) info =
       numbered 0 (concat (map (minor_texts \<circ> info_lines info) files))"
  by (simp add: getNVidiaDevMinorAndIndexMapping_def minor_files_numbered map_option_case split: option.split)

text \<open>
  Whatever it reads, the hook runs at most one command: the toolkit's \<open>prestart\<close>, with the
  text it was given on its standard input, unchanged.  It names GPUs only to the toolkit of a
  container that has a \<open>GPU\<close> variable.
\<close>

lemma hook_runs_prestart_once:
  assumes "hook_main env = (end, runs)"
  shows "length runs \<le> 1
    \<and> (\<forall>(argv, inp) \<in> set runs. he_stdin env = Inr inp
         \<and> (\<exists>gs. argv = prestart_argv gs \<and>
              (gs \<noteq> [] \<longrightarrow> (\<exists>p sp. he_spec env p = Inr sp \<and> getEnvFromSpec ''GPU'' (the (sp_Process sp)) \<noteq> []))))"
proof -
  have spec: "\<exists>p. he_spec env p = Inr sp" if "loadSpec (he_spec env) p = Ok sp" for p sp
    using that by (auto simp: loadSpec_def split: sum.splits if_splits)
  then show ?thesis
    using assms
    by (fastforce simp: hook_main_def doPreStart_def Let_def split: if_splits sum.splits option.splits json.splits res.splits)
qed

end
