(* ===== verification/Node_View.thy ===== *)
theory Node_View
  imports Gpushare_Plugin Prestart_Hook
begin

text \<open>
  How the agent and the prestart hook see the same directory: the agent runs in a container with
  the node's \<open>/dev\<close> mounted under \<open>/host/dev\<close>, the hook runs on the node.
\<close>

definition unmount :: "string \<times> node \<Rightarrow> (string \<times> node) option" where
  "unmount q = (if has_prefix (fst q) ''/host/'' then Some (drop 5 (fst q), snd q) else None)"

definition host_root :: "host_fs \<Rightarrow> host_fs" where
  "host_root fs = \<lparr>nodes = List.map_filter unmount (nodes fs), fault = (\<lambda>oper p. fault fs oper (''/host'' @ p))\<rparr>"

lemma unmount_Some: "unmount (p, n) = Some (r, m) \<longleftrightarrow> p = ''/host'' @ r \<and> m = n \<and> (\<exists>s. r = CHR ''/'' # s)"
  by (auto simp: unmount_def has_prefix_iff)

lemma node_at_host_root: "node_at (host_root fs) (CHR ''/'' # r) = node_at fs (''/host/'' @ r)"
proof -
  have "map_of (List.map_filter unmount ns) (CHR ''/'' # r) = map_of ns (''/host/'' @ r)" for ns
  proof (induction ns)
    case (Cons q ns)
    obtain p n where q: "q = (p, n)" by force
    show ?case
    proof (cases "unmount q")
      case None
      then have "p \<noteq> ''/host/'' @ r" by (auto simp: q unmount_def)
      with Cons None show ?thesis by (simp add: q List.map_filter_simps)
    next
      case (Some e)
      have mf: "List.map_filter unmount (q # ns) = e # List.map_filter unmount ns"
        using Some by (simp add: List.map_filter_simps)
      obtain r' where e: "e = (CHR ''/'' # r', n)" "p = ''/host/'' @ r'"
        using Some by (cases e) (auto simp: q unmount_Some)
      have "map_of (List.map_filter unmount (q # ns)) (CHR ''/'' # r) =
          map_of (e # List.map_filter unmount ns) (CHR ''/'' # r)" by (simp only: mf)
      then show ?thesis using Cons by (simp add: q e del: List.map_filter_simps)
    qed
  qed (simp add: List.map_filter_simps)
  then show ?thesis by (simp add: node_at_def host_root_def)
qed

lemma host_root_ok: "fs_ok fs \<Longrightarrow> fs_ok (host_root fs)"
proof -
  have "amap_ok ns \<Longrightarrow> amap_ok (List.map_filter unmount ns)" for ns :: "(string, node) amap"
  proof (induction ns)
    case (Cons q ns)
    obtain p n where q: "q = (p, n)" by force
    show ?case
    proof (cases "unmount q")
      case (Some e)
      obtain r m where e: "e = (r, m)" by force
      have "r < fst f" if f: "f \<in> set (List.map_filter unmount ns)" for f
      proof -
        obtain q' where "q' \<in> set ns" "unmount q' = Some f"
          using f unfolding set_map_filter_Some by blast
        then obtain p' n' where "(p', n') \<in> set ns" "unmount (p', n') = Some f"
          by (metis surj_pair)
        then have "p < p'" "p' = ''/host'' @ fst f" "p = ''/host'' @ r"
          using Cons.prems Some unmount_Some [of p' n' "fst f" "snd f"] by (auto simp: q e amap_ok_Cons unmount_Some)
        then show ?thesis by simp
      qed
      with Cons Some e show ?thesis by (simp add: q List.map_filter_simps amap_ok_Cons)
    qed (use Cons in \<open>simp add: q List.map_filter_simps amap_ok_Cons\<close>)
  qed (simp add: List.map_filter_simps)
  then show "fs_ok fs \<Longrightarrow> fs_ok (host_root fs)" by (simp add: fs_ok_def host_root_def)
qed

lemma link_path_name: "sym_link (link_id h k) = ''/host/'' @ ''dev/'' @ link_name h k"
  by (simp add: sym_link_def link_id_def link_name_def)

text \<open>The links a successful call makes are, on the host, exactly those the hook looks for.\<close>

definition no_links :: "host_fs \<Rightarrow> string \<Rightarrow> bool" where
  "no_links fs h \<longleftrightarrow> (\<forall>r. has_prefix r (''elastic-gpu-'' @ h) \<longrightarrow> node_at fs (''/host/dev/'' @ r) = None)"

lemma created_gpu_links:
  assumes "links_writable fs" "no_links fs h" "\<forall>k < length gs. links_of fs (link_id h k) = (None, None)"
  shows "gpu_links (host_root (snd (create_loop gpushare_operator h 0 gs fs))) h gs"
  unfolding gpu_links_def
proof (intro allI impI)
  let ?fs' = "snd (create_loop gpushare_operator h 0 gs fs)"
  fix r t assume r: "has_prefix r (''elastic-gpu-'' @ h)" "CHR ''/'' \<notin> set r"
  have at: "node_at (host_root ?fs') (''/dev/'' @ r) = node_at ?fs' (''/host/dev/'' @ r)"
    using node_at_host_root [of ?fs' "''dev/'' @ r"] by simp
  have made: "node_at ?fs' (''/host/dev/'' @ link_name h k) = Some (Symlink (gpu_node (gs ! k)))" if "k < length gs" for k
  proof -
    have "''/host/dev/'' @ link_name h k = sym_link (link_id h k)" by (simp add: link_path_name)
    moreover have "node_at ?fs' (sym_link (link_id h k)) = Some (Symlink (gpu_node (gs ! k)))"
      using gpushare.create_loop_made(3) [of fs gs h 0] assms(1,3) that by (simp add: links_of_def links_to_def)
    ultimately show ?thesis by (simp only:)
  qed
  show "node_at (host_root ?fs') (''/dev/'' @ r) = Some (Symlink t)
      \<longleftrightarrow> (\<exists>k < length gs. r = link_name h k \<and> t = gpu_node (gs ! k))"
  proof (cases "\<exists>k < length gs. r = link_name h k")
    case True
    with at made show ?thesis by auto
  next
    case False
    have "''/host/dev/'' @ r \<noteq> sym_link (link_id h k) \<and> ''/host/dev/'' @ r \<noteq> ctl_link (link_id h k)" if "k < length gs" for k
    proof
      show "''/host/dev/'' @ r \<noteq> sym_link (link_id h k)"
        using False that by (auto simp: sym_link_def link_id_def link_name_def)
      show "''/host/dev/'' @ r \<noteq> ctl_link (link_id h k)"
        using r(1) by (auto simp: ctl_link_def has_prefix_iff)
    qed
    then have "node_at ?fs' (''/host/dev/'' @ r) = node_at fs (''/host/dev/'' @ r)"
      by (intro create_loop_nodes) simp
    with at False assms(2) r(1) show ?thesis by (auto simp: no_links_def)
  qed
qed

lemma hook_main_links:
  assumes "he_log env = None" "he_stdin env = Inr buf" "map_of (he_state env buf) ''bundle'' = Some (JStr b)"
    and "he_spec env (path_join [b, ''config.json'']) =
      Inr \<lparr>sp_Version = v, sp_Process = Some (map env_text kvs), sp_Root = Some root\<rparr>"
    and "v \<noteq> []" "\<forall>kv \<in> set kvs. CHR ''='' \<notin> set (fst kv)" "map_of kvs ''GPU'' = Some h" "h \<noteq> []"
    and "findGPUIndexes (he_fs env) h = Ok gs"
  shows "hook_main env = (HookReturns, [(prestart_argv gs, buf)])"
proof -
  have "getEnvFromSpec ''GPU'' (map env_text kvs) = h"
    using getEnv_map_of [of "''GPU''" kvs] assms(6,7) by simp
  with assms show ?thesis
    by (simp add: hook_main_def loadSpec_def doPreStart_def)
qed

lemma prestart_argv_gpus:
  "gs \<noteq> [] \<Longrightarrow> prestart_argv gs = [''/usr/bin/nvidia-container-toolkit'', ''prestart'', gpus_text gs]"
  by (simp add: prestart_argv_def gpus_text_def)

end
