(* ===== verification/Spec2Isabelle.thy ===== *)
theory Spec2Isabelle
  imports Shared_Links Thread_Isolation Delete_Events Plugin_Copy Signals Pod_Resources Pod_Resources_Client Node_View
begin

text \<open>
  The Elastic GPU agent (\<open>cmd/main.go\<close>, \<open>pkg/\<close>) and its container hook (\<open>cmd/elastic-gpu-hook\<close>).

  The agent runs on a Kubernetes node. It tells the kubelet about two resources, one hundred
  \<open>gpu-core\<close> units and the mebibytes of \<open>gpu-memory\<close> of each GPU, as lists of device IDs. The
  kubelet picks IDs for a container and calls \<open>Allocate\<close>, whose answer names device files by the
  hash of the IDs; before the container starts it calls \<open>PreStartContainer\<close>. The agent then asks
  the kubelet's pod-resources service which container the IDs went to, reads from that pod's
  annotation the GPUs the scheduler meant, makes symbolic links with the promised names to the
  device files of these GPUs, and records the IDs in a database. The hook that runs in front of the
  container reads the hash from the container's environment, finds the links and calls the NVIDIA
  toolkit with their GPUs. When pods are deleted a collector removes their links and records.

  Theories and the code they model:

  \<^item> \<open>Agent_Prelude\<close>: the result type (\<open>Ok\<close>, \<open>Fail\<close>, \<open>Panic\<close>), errors, association maps and the
    collections of lemmas the other theories share; \<open>Go_Strings\<close>: decimal numbers, \<open>strconv.Atoi\<close>,
    \<open>strings.Split\<close> and \<open>path.Join\<close>; \<open>Sha256\<close>: the hash function, on 32-bit words; \<open>Go_Json\<close>:
    \<open>encoding/json\<close> for the records; \<open>Host_Fs\<close>: files, links, \<open>os.Stat\<close>, \<open>Symlink\<close>, \<open>Remove\<close>,
    \<open>Readlink\<close> and \<open>ReadDir\<close>, with a fault for every call and path. These are the parts of
    Go's library the code uses.
  \<^item> \<open>Types_Device\<close>, \<open>Types_Pod\<close> (\<open>pkg/types\<close>): devices with their hash, and a pod's record with
    its key and JSON value.
  \<^item> \<open>Bolt_Storage\<close> (\<open>pkg/storage\<close>): the database. The state \<open>boltdb\<close> holds the committed
    buckets, whether the file is open, and a fault for the commit; \<open>pods_of\<close> is its abstract view, a
    map from pods to records, and the locale \<open>pod_store\<close> states what the agent relies on.
  \<^item> \<open>Kube_Locator\<close>, \<open>Kube_Sitter\<close> (\<open>pkg/kube\<close>): the search for the container that got the devices,
    with the connections it leaves open, and the reads of pods; \<open>Pod_Resources\<close>,
    \<open>Pod_Resources_Client\<close> (\<open>server.go\<close> and \<open>client.go\<close> of \<open>pkg/podresources\<close>): the service the
    locator asks and the endpoint it is asked at, over \<open>Go_Url\<close>, the part of \<open>net/url\<close> it needs. The
    locales \<open>device_locator\<close> and \<open>sitter\<close> state what the handlers and the collector rely on.
  \<^item> \<open>Gpu_Operator\<close> (\<open>pkg/operator\<close>): making, deleting and checking the links, and listing the
    GPUs through NVML.
  \<^item> \<open>Gpushare_Plugin\<close> (\<open>pkg/plugins/gpushare.go\<close>): the device lists, \<open>Allocate\<close> and
    \<open>PreStartContainer\<close> of the two plugins over the state \<open>agent\<close> (the host's files, the operator,
    the database, the locators, the sitter). \<open>Gc\<close> (\<open>GC\<close> in \<open>pkg/plugins/base.go\<close>): one round of
    the collector for one event that wakes it.
  \<^item> \<open>Plugin_Server\<close> (\<open>DevicePluginServer\<close> in \<open>base.go\<close>): the loop of \<open>Run\<close> as a step relation; a
    state is a place in the loop with its channels, servers and socket, an event is what one
    statement meets there. \<open>Plugin_Copy\<close> (\<open>plugin.go\<close>): the unused copy of it, as functions that
    call one another where the code jumps.
  \<^item> \<open>Common_Util\<close>, \<open>Signals\<close>, \<open>Manager\<close> (\<open>pkg/common\<close>, \<open>pkg/manager\<close>, \<open>cmd/main.go\<close>): stack
    dumps, signal handlers, options, clients, factory, and the start of the agent.
  \<^item> \<open>Prestart_Hook\<close> (\<open>cmd/elastic-gpu-hook\<close>): the hook; \<open>Node_View\<close>: the node's files as the hook
    sees them, without the \<open>/host\<close> under which the agent mounts them.
  \<^item> \<open>Node_Life\<close>: the life of a node, any sequence of starts of the agent, calls of the two
    plugins and rounds of the collector, with the environment changing in between. \<open>Accounts\<close>: the
    lives in which no start interferes with another. \<open>Prestart_Crash\<close>: a call cut off half way,
    and the agent's restart. \<open>Record_Race\<close>: two calls that touch one record at the same time.
    \<open>Leaks\<close>, \<open>Leak_Cases\<close>: how links are left behind for good. \<open>Shared_Links\<close>: two containers
    whose links have the same names. \<open>Hash_Vectors\<close>: the hashes of the devices in the examples.
  \<^item> \<open>Node_Threads\<close>: the same life with the goroutines kept apart. Any number of pre-start calls
    (\<open>call_step\<close>) and the collector (\<open>gc_step\<close>) take turns access by access, one system call on
    a file, one transaction of the database or one question to a server at a time, under the lock
    each plugin has; the agent may end between any two accesses and start again.
    \<open>Thread_Safety\<close>: what holds in every interleaving. \<open>Thread_Refinement\<close>: the operations of
    \<open>Gpushare_Plugin\<close> and \<open>Gc\<close> are runs of these goroutines. \<open>Thread_Isolation\<close>: a running pod
    among the calls and rounds for others. \<open>Delete_Events\<close>: the hook of the informer and the
    channel through which a deleted pod wakes the collector.
  \<^item> This theory: what the parts do together.

  What the lemmas show. The types: equal devices are equal multisets of IDs, a record survives its
  encoding for every name Kubernetes allows. The store: it refines a map, also over a restart. The
  locator: it refines \<open>find\<close>, and finds the holder whatever way the kubelet reports
  devices. The operator: creation and deletion undo one another, and what happens when one of them
  stops half way. The handlers: what a successful call did, what a failing call left behind, and
  that no call ever touches a file that is not a link of its own hash. The collector: it never
  touches a pod that may be alive, it is complete when nothing fails, and one missing link blocks
  it. The server loop: invariants of every reachable state and how it recovers. The start of the
  agent, the hook, and the two chains from a pre-start call to the container and to the pod's end.
  The life of a node, in every interleaving of its calls and its collector: none of them panics,
  each changes only links of the devices it is about, the records stay well-formed, the lock of a
  plugin keeps its calls apart, every call and every round comes to its end, no deletion that is
  handed to the hook is lost before the collector receives it, and the record and the links of a
  running pod stay as they are, from a moment of rest on, as long as no other pod has its hashes.
  The operations taken as one step are such interleavings, so that what the other theories show for
  them is shown for the goroutines that are left alone. While the accounts are orderly the links on
  the host are exactly those of the recorded devices, so that a round of the collector leaves
  nothing of a pod that is gone. Where they are not: a repeated start whose record cannot be written
  removes the links of the one before; a call that dies between two cards is made good by the next
  one, one that dies between the two links of a card is not; a second resource in a container, a pod
  made again under its name, two calls at once and a collector that is overtaken each lose a record
  or leave links that no later round removes; and a container with cores and one with memory of the
  same device IDs share their links, which the second loses when the first is deleted.

  Bounds. A look-up that follows links does so 40 times, the limit of the Linux kernel, then it is
  \<open>ELOOP\<close>; the fuel of \<open>stat_from\<close>, 41 look-ups, is this limit and not a bound of the model. \<open>DumpStacks\<close> doubles
  its buffer in a \<open>while_option\<close>, whose value \<open>None\<close> is a loop that never ends. All other loops are
  structural. Machine integers: the memory sizes of NVML and the words of SHA-256 are words; \<open>Atoi\<close>
  has the range of 64-bit integers.

  Parameters. What is not in \<open>src/\<close> or belongs to the environment is an argument: NVML (\<open>nvml\<close>),
  the kubelet's answers (\<open>kubelet\<close>), the API server and the informer's cache (\<open>PodSitter\<close>), the order
  in which Go iterates over a map (\<open>ord\<close>), the faults of files and of the database.

  The file system \<open>host\<close> is that of the devices and links. The sockets of the plugins are the \<open>socket\<close>
  of \<open>Plugin_Server\<close>, the database file is the \<open>boltdb\<close> of \<open>Bolt_Storage\<close>; neither is a path of \<open>host\<close>. A
  panic anywhere ends the whole process: for the goroutines of \<open>Node_Threads\<close> that is an end between
  two accesses, followed by a start that succeeds; a start that fails or panics is no step there,
  \<open>Manager\<close> tells when it does.

  Not modelled: the panic of the goroutine in which gRPC serves a plugin (\<open>base.go\<close>, when accepting
  connections fails); a call to a server that never returns, but for the step that is then never
  made; the struct of \<open>pkg/config\<close>, which nothing uses; the part of \<open>nvidia.go\<close> that is
  commented out; the generated protobuf code of \<open>pkg/podresources/v1alpha1\<close>; \<open>grpc.DialContext\<close>,
  whose result is an argument; the informer inside client-go, with the methods of the sitter that
  only hand over to it (\<open>Start\<close>, \<open>GetNodeFromApiServer\<close>); what a signal does before its handler
  is registered; the deletions the informer does not see because the agent is down, for which the
  collector has its timer; logging; the C programs of \<open>tools/\<close>.
\<close>

section \<open>From the pre-start call to the container\<close>

text \<open>
  C1: The agent and the hook agree: after a \<open>PreStartContainer\<close> call for up to ten GPUs, the hook
  that starts a container with the \<open>GPU\<close> variable of the \<open>Allocate\<close> answer runs the toolkit with
  exactly the GPUs of the scheduler's annotation, in its order.
\<close>

theorem prestart_then_hook:
  assumes "fresh_start kl (bp_ResourceName c) ids gs pc ag" and "length gs \<le> 10"
    and "recordable (Storage ag) pc (NewDevice ids (bp_ResourceName c))"
    and "no_links (host ag) (hash (sort ids))"
    and "fault (host ag) OpReadDir ''/host/dev'' = None" and "fault (host ag) OpReadlink = (\<lambda>p. None)"
    and "PreStartContainer_core c kl ids ag = (r, ag')"
    and "Allocate_core c [ids] = Ok [resp]"
    and "he_log env = None" and "he_stdin env = Inr buf" and "map_of (he_state env buf) ''bundle'' = Some (JStr b)"
    and "he_spec env (path_join [b, ''config.json'']) =
      Inr \<lparr>sp_Version = v, sp_Process = Some (map env_text kvs), sp_Root = Some root\<rparr>" and "v \<noteq> []"
    and "\<forall>kv \<in> set kvs. CHR ''='' \<notin> set (fst kv)" and "map_of kvs ''GPU'' = map_of (Envs resp) ''GPU''"
    and "he_fs env = host_root (host ag')"
  shows "hook_main env =
    (HookReturns, [([''/usr/bin/nvidia-container-toolkit'', ''prestart'', gpus_text gs], buf)])"
proof -
  let ?h = "hash (sort ids)"
  have fresh: "links_writable (host ag)" "fs_ok (host ag)" "gs \<noteq> []" "ids \<noteq> []"
      "\<forall>g \<in> set gs. - (2 ^ 63) \<le> g \<and> g < 2 ^ 63"
      "\<forall>k < length gs. links_of (host ag) (link_id ?h k) = (None, None)"
    using assms(1) by (auto simp: fresh_start_def)
  have host: "host ag' = snd (create_loop gpushare_operator ?h 0 gs (host ag))"
    using assms(7) PreStart_core_state [OF assms(1,3)] by auto
  have "map_of kvs ''GPU'' = Some ?h"
    using assms(8,15) fresh(4) by (auto simp: Allocate_core_def Let_def gpu_envs_def split: if_splits)
  moreover have "findGPUIndexes (he_fs env) ?h = Ok gs"
  proof -
    have "fault (he_fs env) = (\<lambda>oper p. fault (host ag) oper (''/host'' @ p))"
      using host assms(16) by (simp add: host_root_def create_loop_fs)
    then have "fault (he_fs env) OpReadDir ''/dev'' = None" "fault (he_fs env) OpReadlink = (\<lambda>p. None)"
      using assms(5,6) by simp_all
    moreover have "fs_ok (he_fs env)"
      using host assms(16) fresh(2) by (simp add: host_root_ok create_loop_fs)
    moreover have "gpu_links (he_fs env) ?h gs"
      using created_gpu_links [OF fresh(1) assms(4) fresh(6)] host assms(16) by simp
    ultimately have "findGPUIndexes (he_fs env) ?h = Ok (map ((!) gs) (sort_key nat_dec [0..<length gs]))"
      using fresh(5) by (intro findGPUIndexes_links) simp_all
    then show ?thesis using assms(2) by (simp add: sort_digits map_nth)
  qed
  ultimately show ?thesis
    using hook_main_links [OF assms(9-14)] prestart_argv_gpus [OF fresh(3)] by simp
qed

theorem prestart_then_hook_witness:
  "\<exists>env. he_fs env = host_root (host (snd (PreStartContainer_core demo_core demo_kubelet demo_ids demo_agent)))
     \<and> hook_main env = (HookReturns, [([''/usr/bin/nvidia-container-toolkit'', ''prestart'', gpus_text [0]], ''{}'')])"
proof -
  let ?h = "hash (sort demo_ids)"
  obtain r ag' where ag': "PreStartContainer_core demo_core demo_kubelet demo_ids demo_agent = (r, ag')" by force
  obtain resp where resp: "Allocate_core demo_core [demo_ids] = Ok [resp]" "map_of (Envs resp) ''GPU'' = Some ?h"
    by (auto simp: Allocate_core_def Let_def gpu_envs_def)
  let ?env = "demo_hook\<lparr>he_fs := host_root (host ag'),
    he_spec := \<lambda>_. Inr \<lparr>sp_Version = ''1.0.2'', sp_Process = Some (map env_text [(''GPU'', ?h)]), sp_Root = Some ''rootfs''\<rparr>\<rparr>"
  have none: "no_links (host demo_agent) ?h"
    by (simp add: no_links_def demo_host_def node_at_def)
  have "hook_main ?env = (HookReturns, [([''/usr/bin/nvidia-container-toolkit'', ''prestart'', gpus_text [0]], ''{}'')])"
    using demo_recordable resp(2)
    by (intro prestart_then_hook [OF demo_fresh_start _ _ none _ _ ag' resp(1), where kvs = "[(''GPU'', hash (sort demo_ids))]"
          and v = "''1.0.2''" and root = "''rootfs''" and b = "''/run/b''"])
      (simp_all add: demo_host_def demo_hook_def del: gpus_text_single)
  then show ?thesis using ag' by (intro exI [of _ ?env]) (simp del: gpus_text_single)
qed

section \<open>The life of a pod\<close>

text \<open>
  C2: A pod leaves no trace: a container of a pod that has no record yet is started, with one GPU
  in its annotation for each link its devices stand for; when then the pod is deleted, and no other
  recorded pod is gone, the next round of the collector gives back the very file system and the
  records there were before the start.
\<close>

theorem pod_lifecycle:
  assumes "fresh_start kl (bp_ResourceName c) ids gs pc ag"
    and "recordable (Storage ag) pc (NewDevice ids (bp_ResourceName c))"
    and "length gs = link_count (NewDevice ids (bp_ResourceName c))"
    and "pods_of (Storage ag) (pc_Namespace pc, pc_Name pc) = None"
    and "pod_gone st (NewPI (pc_Namespace pc) (pc_Name pc))"
    and "\<forall>k i. pods_of (Storage ag) k = Some i \<longrightarrow> \<not> pod_gone st i"
    and "map_order_ok ord" and "gc_wakes ev"
    and "PreStartContainer_core c kl ids ag = (r, ag1)"
    and "gc_round ord ev (ag1\<lparr>Sitter := st\<rparr>) = (r', ag2)"
  shows "r = Ok () \<and> r' = Ok () \<and> host ag2 = host ag \<and> pods_of (Storage ag2) = pods_of (Storage ag)"
proof -
  let ?d = "NewDevice ids (bp_ResourceName c)" and ?h = "hash (sort ids)"
  let ?ag1 = "ag1\<lparr>Sitter := st\<rparr>" and ?i = "with_device (Storage ag) pc (NewDevice ids (bp_ResourceName c))"
  have fresh: "links_writable (host ag)" "fs_ok (host ag)" "Operator ag = gpushare_operator"
      "\<forall>k < length gs. links_of (host ag) (link_id ?h k) = (None, None)"
    using assms(1) by (auto simp: fresh_start_def)
  have ag1: "r = Ok ()" "host ag1 = snd (create_loop gpushare_operator ?h 0 gs (host ag))"
      "Storage ag1 = snd (record_device pc ?d (Storage ag))" "Operator ag1 = gpushare_operator"
    using assms(9) PreStart_core_state [OF assms(1,2)] fresh(3) by auto
  have store: "usable (Storage ag1)"
      "pods_of (Storage ag1) = (pods_of (Storage ag))((pc_Namespace pc, pc_Name pc) \<mapsto> ?i)"
    using record_device_ok [OF assms(2)] ag1(3) by simp_all
  have i: "Namespace ?i = pc_Namespace pc" "Name ?i = pc_Name pc"
      "ContainerDeviceMap ?i = Some [(pc_Container pc, Some ?d)]"
    using assms(4) by (simp_all add: with_device_def record_of_def)
  have plain: "plain_elem (pc_Namespace pc)" "plain_elem (pc_Name pc)"
    using assms(2) by (simp_all add: recordable_def)
  have host1: "links_writable (host ?ag1)" "fs_ok (host ?ag1)" "fault (host ?ag1) = fault (host ag)"
    using ag1(2) fresh by (simp_all add: links_writable_def create_loop_fs)
  have made: "\<forall>k < link_count ?d. \<exists>g. links_of (host ?ag1) (link_id (Hash ?d) k) = links_to g"
    using gpushare.create_loop_made(3) [of "host ag" gs ?h 0] fresh ag1(2) assms(3) by auto
  have gone: "pod_gone (Sitter ?ag1) ?i"
    using assms(5) pod_gone_cong [of ?i "NewPI (pc_Namespace pc) (pc_Name pc)"] i(1,2) by (simp add: NewPI_def)
  have others: "\<forall>k j. k \<noteq> (pc_Namespace pc, pc_Name pc) \<longrightarrow> pods_of (Storage ?ag1) k = Some j \<longrightarrow> \<not> pod_gone (Sitter ?ag1) j"
    using assms(6) store(2) by simp
  have "usable (Storage ?ag1)" "Operator ?ag1 = gpushare_operator" "CHR ''-'' \<notin> set (Hash ?d)"
    "pods_of (Storage ?ag1) (pc_Namespace pc, pc_Name pc) = Some ?i"
    using store ag1(4) by simp_all
  note round = gc_round_single [OF this(2) host1(1) this(1) assms(7,8) plain this(4) i(3) gone others this(3) made assms(10)]
  have "pods_of (Storage ag2) = pods_of (Storage ag)"
    using round(3) store(2) assms(4) by auto
  moreover have "host ag2 = host ag"
  proof (rule host_fs_eqI)
    show "fs_ok (host ag2)" "fs_ok (host ag)" "fault (host ag2) = fault (host ag)"
      using round(6,7) host1(2,3) fresh(2) by simp_all
    fix p
    show "node_at (host ag2) p = node_at (host ag) p"
    proof (cases "is_link_path p")
      case True
      then obtain eid where eid: "p = sym_link eid \<or> p = ctl_link eid" by (auto simp: is_link_path_def)
      have "links_of (host ag2) eid = links_of (host ag) eid"
      proof (cases "\<exists>k < length gs. eid = link_id ?h k")
        case True
        with round(2) fresh(4) assms(3) show ?thesis by auto
      next
        case False
        then have "links_of (host ag2) eid = links_of (host ?ag1) eid"
          using assms(3) by (intro round(4)) auto
        moreover have "links_of (host ?ag1) eid = links_of (host ag) eid"
          using gpushare.create_loop_frame [of gs eid ?h 0 "host ag"] False ag1(2) by simp
        ultimately show ?thesis by simp
      qed
      with eid show ?thesis by (auto simp: links_of_def)
    next
      case False
      have "node_at (host ?ag1) p = node_at (host ag) p"
        using False ag1(2) by (auto intro!: create_loop_nodes simp: is_link_path_def)
      with round(5) False show ?thesis by simp
    qed
  qed
  ultimately show ?thesis using round(1) ag1(1) by simp
qed

theorem pod_lifecycle_witness:
  "\<exists>st ag1 ag2. PreStartContainer_core demo_core demo_kubelet demo_ids demo_agent = (Ok (), ag1)
     \<and> gc_round (\<lambda>i m. rev m) GcMinute (ag1\<lparr>Sitter := st\<rparr>) = (Ok (), ag2)
     \<and> host ag2 = demo_host \<and> pods_of (Storage ag2) = pods_of demo_db"
proof -
  let ?st = "NewSitter ''node-1'' (\<lambda>_. None) (\<lambda>_. None)"
  have gone: "pod_gone ?st (NewPI (pc_Namespace demo_container) (pc_Name demo_container))"
    by (simp add: pod_gone_def GetPod_def GetPodFromApiServer_def NewSitter_def)
  have fits: "recordable (Storage demo_agent) demo_container (NewDevice demo_ids (bp_ResourceName demo_core))"
    using demo_recordable by simp
  have count: "length [0::int] = link_count (NewDevice demo_ids (bp_ResourceName demo_core))"
    by (simp add: link_count_def)
  have new: "pods_of (Storage demo_agent) k = None" for k
    by (simp add: pods_of_def root_of_def demo_db_def split: prod.split)
  then have others: "\<forall>k i. pods_of (Storage demo_agent) k = Some i \<longrightarrow> \<not> pod_gone ?st i" by simp
  have ord: "map_order_ok (\<lambda>i m. rev m)" "gc_wakes GcMinute" by (simp_all add: map_order_ok_def gc_wakes_def)
  obtain r ag1 where 1: "PreStartContainer_core demo_core demo_kubelet demo_ids demo_agent = (r, ag1)" by force
  obtain r' ag2 where 2: "gc_round (\<lambda>i m. rev m) GcMinute (ag1\<lparr>Sitter := ?st\<rparr>) = (r', ag2)" by force
  from pod_lifecycle [OF demo_fresh_start fits count new gone others ord 1 2] 1 2 show ?thesis by auto
qed

end
